(* ===== verification/Prelude.thy ===== *)
theory Prelude
  imports Complex_Main "HOL-Library.Word"
begin

section \<open>Shared vocabulary\<close>

text \<open>
  The types, machine arithmetic and text primitives that every component of the worker uses.
  Rust's unsigned integers are words of their width; \<open>saturating_add\<close>, \<open>saturating_sub\<close> and
  \<open>saturating_mul\<close> are modelled with the saturation written out and characterised on \<open>nat\<close>
  by the \<open>unat\<close> lemmas below. A Rust \<open>&str\<close> is the list of its UTF-8 bytes (\<open>string\<close>), so
  lengths and offsets are byte counts, as in the source. \<open>usize\<close> counts are \<open>nat\<close>.
\<close>

unbundle bit_operations_syntax

type_synonym u8 = "8 word"
type_synonym u32 = "32 word"
type_synonym u64 = "64 word"
type_synonym usize = nat
type_synonym ('e, 'a) result = "'e + 'a"

named_theorems sat_simps \<open>saturating machine arithmetic, read on nat\<close>
named_theorems text_simps \<open>byte-string primitives\<close>

subsection \<open>Saturating arithmetic on words\<close>

definition sat_add :: "'a::len word \<Rightarrow> 'a word \<Rightarrow> 'a word" where
  "sat_add a b = (if unat a + unat b < 2 ^ LENGTH('a) then a + b else - 1)"

definition sat_sub :: "'a::len word \<Rightarrow> 'a word \<Rightarrow> 'a word" where
  "sat_sub a b = (if b \<le> a then a - b else 0)"

definition sat_mul :: "'a::len word \<Rightarrow> 'a word \<Rightarrow> 'a word" where
  "sat_mul a b = (if unat a * unat b < 2 ^ LENGTH('a) then a * b else - 1)"

definition checked_add :: "'a::len word \<Rightarrow> 'a word \<Rightarrow> 'a word option" where
  "checked_add a b = (if unat a + unat b < 2 ^ LENGTH('a) then Some (a + b) else None)"

definition div_ceil :: "'a::len word \<Rightarrow> 'a word \<Rightarrow> 'a word" where
  "div_ceil a b = (if a mod b = 0 then a div b else a div b + 1)"

lemma unat_max_word: "unat (- 1 :: 'a::len word) = 2 ^ LENGTH('a) - 1"
  by (simp add: unsigned_minus_1_eq_mask mask_eq_exp_minus_1)

lemma unat_lt_range [simp]: "unat (a :: 'a::len word) < 2 ^ LENGTH('a)"
  by (rule unsigned_less)

lemma unat_sat_add [sat_simps]:
  "unat (sat_add a (b :: 'a::len word)) = min (unat a + unat b) (2 ^ LENGTH('a) - 1)"
proof (cases "unat a + unat b < 2 ^ LENGTH('a)")
  case True
  then have "unat (a + b) = unat a + unat b" by (simp add: unat_add_lem)
  with True show ?thesis by (simp add: sat_add_def)
next
  case False
  then show ?thesis by (simp add: sat_add_def unat_max_word)
qed

lemma unat_sat_sub [sat_simps]: "unat (sat_sub a (b :: 'a::len word)) = unat a - unat b"
  by (auto simp: sat_sub_def unat_sub word_le_nat_alt)

lemma unat_sat_mul [sat_simps]:
  "unat (sat_mul a (b :: 'a::len word)) = min (unat a * unat b) (2 ^ LENGTH('a) - 1)"
proof (cases "unat a * unat b < 2 ^ LENGTH('a)")
  case True
  then have "unat (a * b) = unat a * unat b" by (simp add: unat_mult_lem)
  with True show ?thesis by (simp add: sat_mul_def)
next
  case False
  then show ?thesis by (simp add: sat_mul_def unat_max_word)
qed

lemma unat_lt_64: "unat (w :: u64) < 2 ^ 64"
  using unsigned_less [of w, where ?'a = nat] by simp

lemma checked_add_Some:
  "checked_add a (b :: 'a::len word) = Some c \<Longrightarrow> unat c = unat a + unat b"
  by (auto simp: checked_add_def unat_add_lem split: if_splits)

lemma unat_max [sat_simps]: "unat (max a (b :: 'a::len word)) = max (unat a) (unat b)"
  by (simp add: max_def word_le_nat_alt)

lemma unat_min [sat_simps]: "unat (min a (b :: 'a::len word)) = min (unat a) (unat b)"
  by (simp add: min_def word_le_nat_alt)

lemma sat_add_ge: "a \<le> sat_add a (b :: 'a::len word)"
proof -
  have "unat a \<le> 2 ^ LENGTH('a) - 1"
    using unat_lt_range [of a] by linarith
  then show ?thesis by (simp add: word_le_nat_alt unat_sat_add)
qed

lemma unat_div_ceil:
  fixes a b :: "'a::len word"
  assumes "b \<noteq> 0" and "1 < LENGTH('a)"
  shows "unat (div_ceil a b) = (unat a + unat b - 1) div unat b"
proof -
  define m n where "m = unat a" and "n = unat b"
  have n0: "0 < n" using assms(1) by (simp add: n_def unat_gt_0)
  have eq: "(m + n - 1) div n = (if m mod n = 0 then m div n else m div n + 1)"
  proof (cases "m mod n = 0")
    case True
    then obtain k where k: "m = n * k" by auto
    have "(m + n - 1) div n = k"
      by (rule div_nat_eqI) (use k n0 in auto)
    then show ?thesis using True k n0 by simp
  next
    case False
    have "m + n - 1 = n * (m div n) + (m mod n + n - 1)"
      using n0 mult_div_mod_eq [of n m] by linarith
    then have "(m + n - 1) div n = m div n + (m mod n + n - 1) div n"
      using n0 by (metis div_mult_self2 add.commute neq0_conv)
    moreover have "(m mod n + n - 1) div n = 1"
    proof (rule div_nat_eqI)
      show "n * 1 \<le> m mod n + n - 1" using False by simp
      show "m mod n + n - 1 < n * Suc 1" using mod_less_divisor [OF n0, of m] by simp
    qed
    ultimately show ?thesis using False by simp
  qed
  show ?thesis
  proof (cases "m mod n = 0")
    case True
    then show ?thesis
      using eq by (simp add: div_ceil_def unat_div m_def n_def unat_eq_zero [symmetric] unat_mod)
  next
    case False
    have "m div n < 2 ^ LENGTH('a) - 1"
    proof (cases "n = 1")
      case True
      with False show ?thesis by simp
    next
      case n1: False
      have "0 < m" using False by (cases "m = 0") auto
      then have "m div n < m" using n0 n1 by (intro div_less_dividend) auto
      moreover have "m < 2 ^ LENGTH('a)" by (simp add: m_def)
      ultimately show ?thesis by linarith
    qed
    then have "unat (a div b + 1) = m div n + 1"
      by (simp add: m_def n_def unat_div unat_word_ariths)
    then show ?thesis
      using eq False by (simp add: div_ceil_def m_def n_def unat_eq_zero [symmetric] unat_mod)
  qed
qed

lemma sint_small:
  fixes w :: "'a::len word"
  assumes "unat w < 2 ^ (LENGTH('a) - 1)"
  shows "sint w = int (unat w)"
proof -
  have u: "uint w = int (unat w)" by simp
  have "int (unat w) < 2 ^ (LENGTH('a) - 1)" using assms by (metis of_nat_less_iff of_nat_numeral of_nat_power)
  then show ?thesis
    unfolding sint_uint u by (intro signed_take_bit_int_eq_self) (simp_all add: order_trans [of _ 0])
qed

subsection \<open>Text: searching and splitting\<close>

text \<open>Rust's \<open>str::strip_prefix\<close>, \<open>str::split_once\<close> (at a one byte separator), \<open>str::find\<close>.\<close>

fun strip_prefix :: "'a list \<Rightarrow> 'a list \<Rightarrow> 'a list option" where
  "strip_prefix [] s = Some s"
| "strip_prefix (p # ps) [] = None"
| "strip_prefix (p # ps) (c # cs) = (if p = c then strip_prefix ps cs else None)"

fun split_once :: "'a \<Rightarrow> 'a list \<Rightarrow> ('a list \<times> 'a list) option" where
  "split_once c [] = None"
| "split_once c (x # xs) =
     (if x = c then Some ([], xs)
      else map_option (\<lambda>(a, b). (x # a, b)) (split_once c xs))"

lemma strip_prefix_append [text_simps]: "strip_prefix p (p @ s) = Some s"
  by (induction p) auto

lemma strip_prefix_Some: "strip_prefix p s = Some r \<Longrightarrow> s = p @ r"
  by (induction p s rule: strip_prefix.induct) (auto split: if_splits)

lemma split_once_Some: "split_once c s = Some (a, b) \<Longrightarrow> s = a @ c # b \<and> c \<notin> set a"
  by (induction s arbitrary: a b) (auto split: if_splits)

lemma split_once_append [text_simps]: "c \<notin> set a \<Longrightarrow> split_once c (a @ c # b) = Some (a, b)"
  by (induction a) auto

lemma split_once_None: "split_once c s = None \<longleftrightarrow> c \<notin> set s"
  by (induction s) auto

text \<open>\<open>[String]::join\<close> and \<open>str::split\<close> on a byte.\<close>

fun join :: "string \<Rightarrow> string list \<Rightarrow> string" where
  "join sep [] = ''''"
| "join sep [x] = x"
| "join sep (x # y # xs) = x @ sep @ join sep (y # xs)"

fun split_on :: "'a \<Rightarrow> 'a list \<Rightarrow> 'a list list" where
  "split_on c [] = [[]]"
| "split_on c (x # xs) =
     (if x = c then [] # split_on c xs
      else case split_on c xs of [] \<Rightarrow> [[x]] | p # ps \<Rightarrow> (x # p) # ps)"

lemma split_on_nonempty [simp]: "split_on c xs \<noteq> []"
  by (cases xs) (auto split: list.splits)

lemma split_on_plain [text_simps]: "c \<notin> set xs \<Longrightarrow> split_on c xs = [xs]"
  by (induction xs) auto

lemma split_on_append: "c \<notin> set xs \<Longrightarrow> split_on c (xs @ c # ys) = xs # split_on c ys"
  by (induction xs) auto

lemma split_join [text_simps]: "xs \<noteq> [] \<Longrightarrow> \<forall>x\<in>set xs. c \<notin> set x \<Longrightarrow> split_on c (join [c] xs) = xs"
  by (induction "[c]" xs rule: join.induct) (auto simp: split_on_plain split_on_append)

subsection \<open>Decimal text\<close>

text \<open>
  \<open>to_string\<close> of an unsigned integer and \<open>str::parse::<u64>\<close>. The parser is the standard
  library's: one optional leading plus sign, then at least one digit, nothing else, and an
  error when the value does not fit.
\<close>

definition digit_char :: "nat \<Rightarrow> char" where
  "digit_char d = char_of (48 + d)"

definition is_digit :: "char \<Rightarrow> bool" where
  "is_digit c \<longleftrightarrow> 48 \<le> (of_char c :: nat) \<and> (of_char c :: nat) \<le> 57"

fun show_nat :: "nat \<Rightarrow> string" where
  "show_nat n = (if n < 10 then [digit_char n] else show_nat (n div 10) @ [digit_char (n mod 10)])"

declare show_nat.simps [simp del]

fun parse_digits :: "nat \<Rightarrow> string \<Rightarrow> nat option" where
  "parse_digits acc [] = Some acc"
| "parse_digits acc (c # cs) =
     (if is_digit c then parse_digits (10 * acc + (of_char c - 48)) cs else None)"

definition parse_u64 :: "string \<Rightarrow> u64 option" where
  "parse_u64 s =
     (let body = (case s of [] \<Rightarrow> [] | c # cs \<Rightarrow> if c = CHR ''+'' then cs else s)
      in if body = [] then None
         else case parse_digits 0 body of
                None \<Rightarrow> None
              | Some n \<Rightarrow> if n < 2 ^ 64 then Some (of_nat n) else None)"

abbreviation show_u64 :: "u64 \<Rightarrow> string" where
  "show_u64 w \<equiv> show_nat (unat w)"

lemma of_char_digit [text_simps]: "d < 10 \<Longrightarrow> (of_char (digit_char d) :: nat) = 48 + d"
  by (simp add: digit_char_def)

lemma is_digit_char [text_simps]: "d < 10 \<Longrightarrow> is_digit (digit_char d)"
  by (simp add: is_digit_def text_simps)

lemma parse_digits_append:
  "parse_digits acc (xs @ [c]) =
     (case parse_digits acc xs of
        None \<Rightarrow> None
      | Some n \<Rightarrow> if is_digit c then Some (10 * n + (of_char c - 48)) else None)"
  by (induction xs arbitrary: acc) auto

lemma parse_show_nat [text_simps]: "parse_digits 0 (show_nat n) = Some n"
proof (induction n rule: show_nat.induct)
  case (1 n)
  show ?case
  proof (cases "n < 10")
    case True
    then show ?thesis by (simp add: show_nat.simps [of n] text_simps)
  next
    case False
    with 1 have "parse_digits 0 (show_nat (n div 10)) = Some (n div 10)" by simp
    with False show ?thesis
      by (simp add: show_nat.simps [of n] parse_digits_append text_simps)
  qed
qed

lemma show_nat_digits: "c \<in> set (show_nat n) \<Longrightarrow> is_digit c"
proof (induction n rule: show_nat.induct)
  case (1 n)
  then show ?case
    by (subst (asm) (2) show_nat.simps) (auto simp: text_simps split: if_splits)
qed

lemma show_nat_nonempty [simp]: "show_nat n \<noteq> []"
  by (subst show_nat.simps) simp

lemma show_nat_no_dash: "CHR ''-'' \<notin> set (show_nat n)"
  using show_nat_digits [of "CHR ''-''" n] by (auto simp: is_digit_def)

lemma show_nat_no_plus: "show_nat n \<noteq> CHR ''+'' # cs"
proof
  assume "show_nat n = CHR ''+'' # cs"
  then have "CHR ''+'' \<in> set (show_nat n)" by simp
  then show False using show_nat_digits [of "CHR ''+''" n] by (simp add: is_digit_def)
qed

text \<open>Printing and parsing a 64 bit integer is a round trip.\<close>

lemma parse_show_u64 [text_simps]: "parse_u64 (show_u64 w) = Some w"
proof -
  have "(case show_u64 w of [] \<Rightarrow> [] | c # cs \<Rightarrow> if c = CHR ''+'' then cs else show_u64 w) = show_u64 w"
    using show_nat_no_plus [of "unat w"] by (auto split: list.splits)
  moreover have "unat w < 2 ^ 64" using unat_lt_range [of w] by simp
  ultimately show ?thesis by (simp add: parse_u64_def text_simps)
qed

subsection \<open>Machines\<close>

text \<open>A component whose steps other threads interleave is a step function that fails where an action is
  impossible and reports effects, and its run over a list of actions. What the run inherits from the step
  is proved here once.\<close>

locale machine =
  fixes step :: "'a \<Rightarrow> 's \<Rightarrow> ('s \<times> 'e list) option"
    and run :: "'a list \<Rightarrow> 's \<Rightarrow> ('s \<times> 'e list) option"
  assumes run_Nil: "run [] s = Some (s, [])"
    and run_Cons: "run (a # as) s =
      (case step a s of
         None \<Rightarrow> None
       | Some (s', eff) \<Rightarrow> (case run as s' of None \<Rightarrow> None | Some (s'', eff') \<Rightarrow> Some (s'', eff @ eff')))"
begin

lemma run_ConsE:
  assumes "run (a # as) s = Some (s2, eff)"
  obtains s1 e1 e2 where "step a s = Some (s1, e1)" "run as s1 = Some (s2, e2)" "eff = e1 @ e2"
  using assms by (auto simp: run_Cons split: option.splits prod.splits)

lemma run_invariant:
  assumes "run as s = Some (s', eff)" "P s" "\<And>a s s' eff. P s \<Longrightarrow> step a s = Some (s', eff) \<Longrightarrow> P s'"
  shows "P s'"
  using assms(1,2)
proof (induction as arbitrary: s eff)
  case (Cons a as)
  then obtain s1 e1 e2 where "step a s = Some (s1, e1)" "run as s1 = Some (s', e2)" by (auto elim: run_ConsE)
  then show ?case using Cons assms(3) by blast
qed (simp add: run_Nil)

text \<open>A relation between states and effects that composes holds of every run.\<close>

lemma run_account:
  assumes "run as s = Some (s', eff)" and refl: "\<And>s. Q s [] s"
    and trans: "\<And>s e1 s1 e2 s2. Q s e1 s1 \<Longrightarrow> Q s1 e2 s2 \<Longrightarrow> Q s (e1 @ e2) s2"
    and step: "\<And>a s s' eff. step a s = Some (s', eff) \<Longrightarrow> Q s eff s'"
  shows "Q s eff s'"
  using assms(1)
proof (induction as arbitrary: s eff)
  case Nil
  then show ?case using refl by (simp add: run_Nil)
next
  case (Cons a as)
  then obtain s1 e1 e2 where "step a s = Some (s1, e1)" "run as s1 = Some (s', e2)" "eff = e1 @ e2" by (auto elim: run_ConsE)
  then show ?case using Cons.IH trans step by blast
qed

lemma run_append:
  "run (as @ bs) s =
     (case run as s of
        None \<Rightarrow> None
      | Some (s', eff) \<Rightarrow> (case run bs s' of None \<Rightarrow> None | Some (s'', eff') \<Rightarrow> Some (s'', eff @ eff')))"
  by (induction as arbitrary: s) (auto simp: run_Nil run_Cons split: option.splits prod.splits)

end

end
