(* ===== verification/F64.thy ===== *)
theory F64
  imports Prelude "HOL-Library.Log_Nat"
begin

section \<open>Binary64 arithmetic\<close>

text \<open>
  The part of Rust's \<open>f64\<close> that the worker uses: conversion from \<open>u64\<close>, multiplication,
  division, \<open>powi\<close>, comparison, \<open>max\<close>, \<open>round\<close>, \<open>is_finite\<close>, \<open>fract\<close> and the saturating cast
  back to \<open>u64\<close>. A finite value is the rational number it denotes; every arithmetic result is
  rounded to the nearest binary64 value, ties to even, with gradual underflow and overflow to
  infinity. The two zeros are one value: no operation the worker uses tells them apart.
\<close>

datatype f64 = Fin rat | PosInf | NegInf | NaN

subsection \<open>Rounding a rational to binary64\<close>

definition pow2 :: "int \<Rightarrow> rat" where
  "pow2 e = 2 powi e"

text \<open>The binary exponent of a positive rational, from the bit lengths of its two parts.\<close>

definition flog :: "rat \<Rightarrow> int" where
  "flog q = (let (n, d) = quotient_of q; e = bitlen n - bitlen d
             in if pow2 e \<le> q then e else e - 1)"

definition round_even :: "rat \<Rightarrow> int" where
  "round_even q =
     (let k = \<lfloor>q\<rfloor>; r = q - of_int k
      in if r < 1 / 2 then k else if 1 / 2 < r then k + 1 else if even k then k else k + 1)"

definition ulp :: "rat \<Rightarrow> rat" where
  "ulp a = pow2 (max (flog a - 52) (- 1074))"

definition round_pos :: "rat \<Rightarrow> rat" where
  "round_pos a = of_int (round_even (a / ulp a)) * ulp a"

definition f64_of_rat :: "rat \<Rightarrow> f64" where
  "f64_of_rat q =
     (if q = 0 then Fin 0
      else let r = round_pos \<bar>q\<bar>
           in if pow2 1024 \<le> r then (if 0 < q then PosInf else NegInf)
              else Fin (sgn q * r))"

subsection \<open>The operations\<close>

fun f64_neg :: "f64 \<Rightarrow> f64" where
  "f64_neg (Fin q) = Fin (- q)"
| "f64_neg PosInf = NegInf"
| "f64_neg NegInf = PosInf"
| "f64_neg NaN = NaN"

definition f64_signed_inf :: "rat \<Rightarrow> f64" where
  "f64_signed_inf q = (if 0 < q then PosInf else if q < 0 then NegInf else NaN)"

fun f64_mul :: "f64 \<Rightarrow> f64 \<Rightarrow> f64" where
  "f64_mul NaN _ = NaN"
| "f64_mul _ NaN = NaN"
| "f64_mul (Fin a) (Fin b) = f64_of_rat (a * b)"
| "f64_mul (Fin a) PosInf = f64_signed_inf a"
| "f64_mul (Fin a) NegInf = f64_neg (f64_signed_inf a)"
| "f64_mul PosInf (Fin b) = f64_signed_inf b"
| "f64_mul NegInf (Fin b) = f64_neg (f64_signed_inf b)"
| "f64_mul PosInf PosInf = PosInf"
| "f64_mul NegInf NegInf = PosInf"
| "f64_mul _ _ = NegInf"

text \<open>Division, for the divisors the worker uses: a positive finite constant, or the value of
  \<open>powi\<close> in its reciprocal, which is positive or infinite.\<close>

fun f64_div :: "f64 \<Rightarrow> f64 \<Rightarrow> f64" where
  "f64_div NaN _ = NaN"
| "f64_div _ NaN = NaN"
| "f64_div (Fin a) (Fin b) = (if b = 0 then f64_signed_inf a else f64_of_rat (a / b))"
| "f64_div (Fin a) _ = Fin 0"
| "f64_div PosInf (Fin b) = (if b < 0 then NegInf else PosInf)"
| "f64_div NegInf (Fin b) = (if b < 0 then PosInf else NegInf)"
| "f64_div _ _ = NaN"

fun f64_less :: "f64 \<Rightarrow> f64 \<Rightarrow> bool" where
  "f64_less NaN _ = False"
| "f64_less _ NaN = False"
| "f64_less (Fin a) (Fin b) = (a < b)"
| "f64_less NegInf y = (y \<noteq> NegInf)"
| "f64_less (Fin a) y = (y = PosInf)"
| "f64_less PosInf _ = False"

definition f64_le :: "f64 \<Rightarrow> f64 \<Rightarrow> bool" where
  "f64_le x y \<longleftrightarrow> f64_less x y \<or> (x = y \<and> x \<noteq> NaN)"

text \<open>\<open>f64::max\<close>: a NaN argument is ignored.\<close>

definition f64_max :: "f64 \<Rightarrow> f64 \<Rightarrow> f64" where
  "f64_max x y = (if x = NaN then y else if y = NaN then x else if f64_less x y then y else x)"

fun is_finite :: "f64 \<Rightarrow> bool" where
  "is_finite (Fin _) = True"
| "is_finite _ = False"

text \<open>\<open>u64 as f64\<close>.\<close>

definition f64_of_u64 :: "u64 \<Rightarrow> f64" where
  "f64_of_u64 w = f64_of_rat (of_nat (unat w))"

text \<open>\<open>f64 as u64\<close>: truncation, saturating at both ends, NaN is 0.\<close>

fun f64_as_u64 :: "f64 \<Rightarrow> u64" where
  "f64_as_u64 (Fin q) =
     (if q \<le> 0 then 0 else if 2 ^ 64 \<le> \<lfloor>q\<rfloor> then - 1 else word_of_int \<lfloor>q\<rfloor>)"
| "f64_as_u64 PosInf = - 1"
| "f64_as_u64 NegInf = 0"
| "f64_as_u64 NaN = 0"

text \<open>\<open>f64::round\<close>: half away from zero.\<close>

fun f64_round :: "f64 \<Rightarrow> f64" where
  "f64_round (Fin q) = Fin (sgn q * of_int \<lfloor>\<bar>q\<bar> + 1 / 2\<rfloor>)"
| "f64_round x = x"

text \<open>\<open>f.fract() == 0.0\<close> on a finite value.\<close>

fun f64_is_whole :: "f64 \<Rightarrow> bool" where
  "f64_is_whole (Fin q) = (of_int \<lfloor>q\<rfloor> = q)"
| "f64_is_whole _ = False"

text \<open>\<open>f64::powi\<close>, by repeated squaring on the magnitude of the exponent and one reciprocal for a
  negative exponent, as the compiler's runtime routine computes it.\<close>

function powi_loop :: "f64 \<Rightarrow> nat \<Rightarrow> f64 \<Rightarrow> f64" where
  "powi_loop a b r =
     (let r' = (if odd b then f64_mul r a else r)
      in if b div 2 = 0 then r' else powi_loop (f64_mul a a) (b div 2) r')"
  by pat_completeness auto
termination
  by (relation "measure (\<lambda>(a, b, r). b)") auto

declare powi_loop.simps [simp del]

definition f64_powi :: "f64 \<Rightarrow> int \<Rightarrow> f64" where
  "f64_powi a n =
     (let r = powi_loop a (nat \<bar>n\<bar>) (Fin 1) in if n < 0 then f64_div (Fin 1) r else r)"

subsection \<open>Comparison\<close>

lemma f64_le_simps [simp]:
  "f64_le (Fin a) (Fin b) = (a \<le> b)" "f64_le (Fin a) PosInf" "\<not> f64_le (Fin a) NegInf"
  "\<not> f64_le x NaN" "\<not> f64_le NaN x" "f64_le PosInf x = (x = PosInf)"
  by (auto simp: f64_le_def elim: f64_less.elims)

lemma f64_le_Fin_cases:
  assumes "f64_le (Fin a) x"
  obtains b where "x = Fin b" "a \<le> b" | "x = PosInf"
  using assms by (cases x) auto

lemma f64_max_nat_zero: "f64_max (Fin (of_nat n)) (Fin 0) = Fin (of_nat n)"
  by (simp add: f64_max_def)

subsection \<open>Exponents\<close>

named_theorems f64_simps \<open>evaluation of binary64 operations\<close>

lemma pow2_add: "pow2 (a + b) = pow2 a * pow2 b"
  by (simp add: pow2_def power_int_add)

lemma pow2_pos [simp]: "0 < pow2 e"
  by (simp add: pow2_def)

lemma pow2_nonzero [simp]: "pow2 e \<noteq> 0"
  using pow2_pos [of e] by linarith

lemma pow2_mono: "a \<le> b \<Longrightarrow> pow2 a \<le> pow2 b"
  by (simp add: pow2_def power_int_increasing)

lemma pow2_less: "a < b \<Longrightarrow> pow2 a < pow2 b"
  by (simp add: pow2_def power_int_strict_increasing)

lemma pow2_nat: "pow2 (int n) = 2 ^ n"
  by (simp add: pow2_def)

lemma pow2_of_nat: "0 \<le> e \<Longrightarrow> pow2 e = of_int (2 ^ nat e)"
  by (metis of_int_numeral of_int_power pow2_nat nat_0_le)

lemma pow2_inverse: "pow2 (- e) = 1 / pow2 e"
  by (simp add: pow2_def power_int_minus_divide)

lemma pow2_unique:
  assumes "pow2 a \<le> q" "q < pow2 (a + 1)" "pow2 b \<le> q" "q < pow2 (b + 1)"
  shows "a = b"
proof (rule ccontr)
  assume "a \<noteq> b"
  then consider "a + 1 \<le> b" | "b + 1 \<le> a" by linarith
  then show False
  proof cases
    case 1
    then have "pow2 (a + 1) \<le> pow2 b" by (rule pow2_mono)
    with assms show False by linarith
  next
    case 2
    then have "pow2 (b + 1) \<le> pow2 a" by (rule pow2_mono)
    with assms show False by linarith
  qed
qed

lemma bitlen_pow2:
  assumes "0 < n"
  shows "pow2 (bitlen n - 1) \<le> of_int n \<and> of_int n < pow2 (bitlen n)"
proof -
  have b: "0 \<le> bitlen n - 1" using assms bitlen_nonneg [of n] bitlen_eq_zero_iff [of n] by linarith
  have "2 ^ nat (bitlen n - 1) \<le> n \<and> n < 2 ^ nat (bitlen n)"
    using bitlen_bounds [OF assms] by simp
  then have "of_int (2 ^ nat (bitlen n - 1)) \<le> (of_int n :: rat) \<and>
      (of_int n :: rat) < of_int (2 ^ nat (bitlen n))"
    by (simp only: of_int_le_iff of_int_less_iff)
  then show ?thesis
    using b by (simp only: pow2_of_nat bitlen_nonneg)
qed

lemma flog_bounds:
  assumes "0 < q"
  shows "pow2 (flog q) \<le> q \<and> q < pow2 (flog q + 1)"
proof -
  obtain n d where nd: "quotient_of q = (n, d)" by force
  have d: "0 < d" using quotient_of_denom_pos [OF nd] .
  have q: "q = of_int n / of_int d" using quotient_of_div [OF nd] .
  have n: "0 < n" using assms d unfolding q by (simp add: zero_less_divide_iff)
  define e where "e = bitlen n - bitlen d"
  note bn = bitlen_pow2 [OF n] and bd = bitlen_pow2 [OF d]
  have d0: "(0::rat) < of_int d" using d by simp
  have "of_int n < pow2 (bitlen n)" using bn by simp
  also have "pow2 (bitlen n) = pow2 (e + 1) * pow2 (bitlen d - 1)"
    by (simp add: e_def flip: pow2_add)
  also have "\<dots> \<le> pow2 (e + 1) * of_int d"
    using bd by (simp add: mult_left_mono less_imp_le)
  finally have up: "q < pow2 (e + 1)" using d0 by (simp add: q divide_less_eq)
  have "pow2 (e - 1) * of_int d < pow2 (e - 1) * pow2 (bitlen d)"
    using bd by simp
  also have "\<dots> = pow2 (bitlen n - 1)" by (simp add: e_def flip: pow2_add)
  also have "\<dots> \<le> of_int n" using bn by simp
  finally have lo: "pow2 (e - 1) \<le> q" using d0 by (simp add: q le_divide_eq)
  show ?thesis
    using up lo by (simp add: flog_def nd e_def Let_def)
qed

lemma flog_eqI: "pow2 e \<le> q \<Longrightarrow> q < pow2 (e + 1) \<Longrightarrow> flog q = e"
  using flog_bounds [of q] pow2_unique [of e q "flog q"] pow2_pos [of e] by force

lemma flog_mono:
  assumes "0 < x" "x \<le> y" shows "flog x \<le> flog y"
proof (rule ccontr)
  assume "\<not> flog x \<le> flog y"
  then have "pow2 (flog y + 1) \<le> pow2 (flog x)" by (intro pow2_mono) simp
  then show False
    using flog_bounds [of x] flog_bounds [of y] assms by linarith
qed

subsection \<open>Rounding is monotone and exact on representable values\<close>

lemma round_even_of_int [simp]: "round_even (of_int n) = n"
  by (simp add: round_even_def)

lemma round_even_bounds: "\<lfloor>q\<rfloor> \<le> round_even q \<and> round_even q \<le> \<lfloor>q\<rfloor> + 1"
  by (simp add: round_even_def Let_def)

lemma round_even_mono:
  assumes "x \<le> y" shows "round_even x \<le> round_even y"
proof (cases "\<lfloor>x\<rfloor> = \<lfloor>y\<rfloor>")
  case True
  with assms show ?thesis by (auto simp: round_even_def Let_def)
next
  case False
  with assms have "\<lfloor>x\<rfloor> + 1 \<le> \<lfloor>y\<rfloor>" using floor_mono [OF assms] by linarith
  then show ?thesis using round_even_bounds [of x] round_even_bounds [of y] by linarith
qed

lemma round_even_ge: "of_int n \<le> q \<Longrightarrow> n \<le> round_even q"
  using round_even_mono [of "of_int n" q] by simp

lemma round_even_le: "q \<le> of_int n \<Longrightarrow> round_even q \<le> n"
  using round_even_mono [of q "of_int n"] by simp

lemma ulp_pos [simp]: "0 < ulp a"
  by (simp add: ulp_def)

text \<open>A whole multiple of its own unit in the last place is left alone.\<close>

lemma round_pos_exact:
  assumes "a = of_int m * ulp a" shows "round_pos a = a"
proof -
  have "a / ulp a = of_int m"
    using assms ulp_pos [of a] by (metis less_irrefl nonzero_mult_div_cancel_right)
  then show ?thesis using assms by (simp add: round_pos_def)
qed

lemma round_pos_bounds:
  assumes "0 < a" "- 1022 \<le> flog a"
  shows "pow2 (flog a) \<le> round_pos a \<and> round_pos a \<le> pow2 (flog a + 1)"
proof -
  have u: "ulp a = pow2 (flog a - 52)" using assms(2) by (simp add: ulp_def)
  have p52: "pow2 (flog a) = of_int (2 ^ 52) * ulp a"
    using pow2_add [of 52 "flog a - 52"] by (simp add: u pow2_def)
  have p53: "pow2 (flog a + 1) = of_int (2 ^ 53) * ulp a"
    using pow2_add [of 53 "flog a - 52"] by (simp add: u pow2_def add.commute)
  note fb = flog_bounds [OF assms(1)]
  have "of_int (2 ^ 52) \<le> a / ulp a"
    using fb p52 by (simp add: pos_le_divide_eq)
  then have lo: "2 ^ 52 \<le> round_even (a / ulp a)" by (rule round_even_ge)
  have "a / ulp a \<le> of_int (2 ^ 53)"
    using fb p53 by (simp add: pos_divide_le_eq)
  then have hi: "round_even (a / ulp a) \<le> 2 ^ 53" by (rule round_even_le)
  have "of_int (2 ^ 52) * ulp a \<le> round_pos a"
    unfolding round_pos_def using lo by (intro mult_right_mono) (simp_all only: of_int_le_iff ulp_pos less_imp_le)
  moreover have "round_pos a \<le> of_int (2 ^ 53) * ulp a"
    unfolding round_pos_def using hi by (intro mult_right_mono) (simp_all only: of_int_le_iff ulp_pos less_imp_le)
  ultimately show ?thesis by (simp only: p52 p53)
qed

lemma round_pos_mono:
  assumes "0 < x" "x \<le> y" "- 1022 \<le> flog x"
  shows "round_pos x \<le> round_pos y"
proof (cases "flog x = flog y")
  case True
  then have u: "ulp x = ulp y" by (simp add: ulp_def)
  have "round_even (x / ulp y) \<le> round_even (y / ulp y)"
    using assms(2) by (intro round_even_mono divide_right_mono) (simp_all add: less_imp_le)
  then show ?thesis by (simp add: round_pos_def u)
next
  case False
  with flog_mono [OF assms(1,2)] have lt: "flog x + 1 \<le> flog y" by linarith
  have "round_pos x \<le> pow2 (flog x + 1)" using round_pos_bounds [OF assms(1,3)] by simp
  also have "\<dots> \<le> pow2 (flog y)" using lt by (rule pow2_mono)
  also have "\<dots> \<le> round_pos y" using round_pos_bounds [of y] assms lt by simp
  finally show ?thesis .
qed

lemma flog_nat: "0 < n \<Longrightarrow> 0 \<le> flog (of_nat n)"
  using flog_mono [of 1 "of_nat n"] flog_eqI [of 0 1] by (simp add: pow2_def)

lemma round_pos_small_int:
  assumes "0 < n" "n \<le> (2::nat) ^ 53" shows "round_pos (of_nat n) = of_nat n"
proof -
  have f0: "0 \<le> flog (of_nat n)" using assms(1) by (rule flog_nat)
  have fb: "pow2 (flog (of_nat n)) \<le> of_nat n \<and> (of_nat n :: rat) < pow2 (flog (of_nat n) + 1)"
    using assms(1) by (intro flog_bounds) simp
  show ?thesis
  proof (cases "n = 2 ^ 53")
    case True
    then have f: "flog (of_nat n) = 53" by (intro flog_eqI) (simp_all add: pow2_def)
    show ?thesis
      by (rule round_pos_exact [of _ "2 ^ 52"]) (simp only: ulp_def f, simp add: pow2_def True)
  next
    case False
    with assms have "n < 2 ^ 53" by simp
    then have "(of_nat n :: rat) < of_nat (2 ^ 53)" by (simp only: of_nat_less_iff)
    then have "pow2 (flog (of_nat n)) < pow2 53" using fb by (simp add: pow2_def)
    then have f: "flog (of_nat n) \<le> 52" using pow2_mono [of 53 "flog (of_nat n)"] by force
    define k where "k = nat (52 - flog (of_nat n))"
    have u: "ulp (of_nat n) = pow2 (- int k)" using f f0 by (simp add: ulp_def k_def)
    have "of_nat n = of_int (int n * 2 ^ k) * ulp (of_nat n)"
      by (simp add: u pow2_inverse pow2_nat)
    then show ?thesis by (rule round_pos_exact)
  qed
qed

lemma f64_of_rat_nat [f64_simps]:
  assumes "n \<le> 2 ^ 53" shows "f64_of_rat (of_nat n) = Fin (of_nat n)"
proof (cases "n = 0")
  case False
  have "(of_nat n :: rat) \<le> of_nat (2 ^ 53)" using assms by (simp only: of_nat_le_iff)
  also have "\<dots> = pow2 53" using pow2_nat [of 53] by simp
  also have "\<dots> < pow2 1024" by (rule pow2_less) simp
  finally have "\<not> (pow2 1024 \<le> (of_nat n :: rat))" by simp
  moreover have "round_pos \<bar>of_nat n\<bar> = of_nat n" using False assms by (simp add: round_pos_small_int)
  ultimately show ?thesis using False by (simp add: f64_of_rat_def)
qed (simp add: f64_of_rat_def)

lemma f64_of_u64_exact [f64_simps]: "unat w \<le> 2 ^ 53 \<Longrightarrow> f64_of_u64 w = Fin (of_nat (unat w))"
  unfolding f64_of_u64_def by (rule f64_of_rat_nat)

text \<open>Above that the conversion still yields a finite value no smaller than \<open>2 ^ 53\<close>.\<close>

lemma f64_of_rat_ge:
  assumes "v = round_pos v" "0 < v" "v \<le> q" "- 1022 \<le> flog v"
  shows "(\<exists>r. f64_of_rat q = Fin r \<and> v \<le> r) \<or> f64_of_rat q = PosInf"
proof -
  have "v \<le> round_pos q" using round_pos_mono [OF assms(2,3,4)] assms(1) by simp
  then show ?thesis using assms by (auto simp: f64_of_rat_def Let_def)
qed

lemma f64_of_rat_nonneg:
  assumes "0 \<le> q" shows "(\<exists>r. f64_of_rat q = Fin r \<and> 0 \<le> r) \<or> f64_of_rat q = PosInf"
proof (cases "q = 0")
  case False
  with assms have q: "0 < q" by simp
  have "0 \<le> round_even (q / ulp q)"
    using q by (intro round_even_ge) (simp add: less_imp_le)
  then have "0 \<le> round_pos q" by (simp add: round_pos_def less_imp_le)
  then show ?thesis using q by (simp add: f64_of_rat_def Let_def)
qed (simp add: f64_of_rat_def)

lemma f64_of_rat_pow2 [f64_simps]:
  "f64_of_rat (2 ^ k) = (if k < 1024 then Fin (2 ^ k) else PosInf)"
proof -
  have f: "flog (2 ^ k) = int k"
    by (rule flog_eqI) (simp_all add: pow2_nat pow2_add, simp add: pow2_def)
  have r: "round_pos (2 ^ k) = 2 ^ k"
  proof (rule round_pos_exact)
    have "ulp (2 ^ k) = pow2 (int k - 52)" by (simp add: ulp_def f)
    then show "2 ^ k = of_int (2 ^ 52) * ulp (2 ^ k)"
      using pow2_add [of 52 "int k - 52"] by (simp add: pow2_nat, simp add: pow2_def)
  qed
  have "(pow2 1024 \<le> 2 ^ k) = (1024 \<le> k)"
    using pow2_less [of "int k" 1024] pow2_mono [of 1024 "int k"] by (force simp flip: pow2_nat)
  then show ?thesis using r by (auto simp: f64_of_rat_def Let_def)
qed

lemma f64_of_u64_range: "\<exists>r. f64_of_u64 w = Fin r \<and> 0 \<le> r \<and> r < pow2 1024"
proof (cases "unat w = 0")
  case False
  define q :: rat where "q = of_nat (unat w)"
  have q: "0 < q" using False unfolding q_def by (simp only: of_nat_0_less_iff)
  have f0: "0 \<le> flog q" using False unfolding q_def by (intro flog_nat) simp
  have "unat w < 2 ^ 64" using unat_lt_range [of w] by simp
  then have "q < of_nat (2 ^ 64)" unfolding q_def by (simp only: of_nat_less_iff)
  then have "pow2 (flog q) < pow2 64" using flog_bounds [OF q] by (simp add: pow2_def)
  then have "flog q + 1 \<le> 64" using pow2_mono [of 64 "flog q"] by force
  then have "pow2 (flog q + 1) \<le> pow2 64" by (rule pow2_mono)
  moreover have "pow2 64 = 2 ^ 64" using pow2_nat [of 64] by simp
  ultimately have r: "0 \<le> round_pos q \<and> round_pos q \<le> 2 ^ 64"
    using round_pos_bounds [OF q] f0 pow2_pos [of "flog q"] by linarith
  have big: "(2 ^ 64 :: rat) < pow2 1024" using pow2_less [of 64 1024] pow2_nat [of 64] by simp
  with r have "\<not> pow2 1024 \<le> round_pos q" by linarith
  then have "f64_of_rat q = Fin (round_pos q)"
    using q by (simp add: f64_of_rat_def Let_def)
  with r show ?thesis unfolding f64_of_u64_def q_def [symmetric] using big
    by (metis le_less_trans)
qed (simp add: f64_of_u64_def f64_of_rat_def)

lemma f64_of_u64_finite: "\<exists>r. f64_of_u64 w = Fin r \<and> 0 \<le> r"
  using f64_of_u64_range by blast

lemma f64_of_u64_lt: "f64_of_u64 w = Fin r \<Longrightarrow> r < pow2 1024"
  using f64_of_u64_range [of w] by auto

subsection \<open>Rounding to milliseconds\<close>

text \<open>\<open>d.round() as u64\<close> on a finite value.\<close>

lemma unat_round_as_u64:
  assumes "0 \<le> q"
  shows "unat (f64_as_u64 (f64_round (Fin q))) = min (nat \<lfloor>q + 1 / 2\<rfloor>) (2 ^ 64 - 1)"
proof (cases "q = 0")
  case False
  with assms have q: "0 < q" by simp
  define k where "k = \<lfloor>q + 1 / 2\<rfloor>"
  have k0: "0 \<le> k" using q by (simp add: k_def)
  have eq: "f64_round (Fin q) = Fin (of_int k)" using q by (simp add: k_def)
  consider "k = 0" | "0 < k" "k < 2 ^ 64" | "2 ^ 64 \<le> k" using k0 by linarith
  then show ?thesis
  proof cases
    case 2
    then have "unat (word_of_int k :: u64) = nat k"
      by (simp add: unat_eq_nat_uint uint_word_of_int)
    with 2 show ?thesis unfolding eq k_def [symmetric] by simp
  qed (simp_all only: eq k_def [symmetric], simp_all add: unat_max_word min_def)
qed simp

lemma round_as_u64_mono:
  assumes "0 \<le> a" "a \<le> b"
  shows "f64_as_u64 (f64_round (Fin a)) \<le> f64_as_u64 (f64_round (Fin b))"
proof -
  have "\<lfloor>a + 1 / 2\<rfloor> \<le> \<lfloor>b + 1 / 2\<rfloor>" using assms(2) by (intro floor_mono) simp
  then have "nat \<lfloor>a + 1 / 2\<rfloor> \<le> nat \<lfloor>b + 1 / 2\<rfloor>" by (rule nat_mono)
  then have "min (nat \<lfloor>a + 1 / 2\<rfloor>) (2 ^ 64 - 1) \<le> min (nat \<lfloor>b + 1 / 2\<rfloor>) (2 ^ 64 - 1)"
    by (rule min.mono) simp
  then show ?thesis
    using assms(1) order_trans [OF assms]
    by (simp only: word_le_nat_alt unat_round_as_u64)
qed

lemma round_as_u64_exact:
  assumes "n < 2 ^ 64" shows "f64_as_u64 (f64_round (Fin (of_nat n))) = of_nat n"
proof -
  have "\<lfloor>(of_nat n :: rat) + 1 / 2\<rfloor> = int n" by (simp add: floor_eq_iff)
  then have "unat (f64_as_u64 (f64_round (Fin (of_nat n)))) = n"
    using assms by (subst unat_round_as_u64) auto
  then show ?thesis by (simp only: word_unat_eq_iff) (use assms in \<open>simp add: unat_of_nat\<close>)
qed

subsection \<open>Scaling by a power of two\<close>

lemma round_pos_scale:
  assumes "0 < x" "- 1022 \<le> flog x"
  shows "round_pos (x * 2 ^ k) = round_pos x * 2 ^ k"
proof -
  have x': "0 < x * 2 ^ k" using assms by simp
  have f: "flog (x * 2 ^ k) = flog x + int k"
  proof (rule flog_eqI)
    have "pow2 (flog x + int k) = pow2 (flog x) * 2 ^ k" by (simp add: pow2_add pow2_nat)
    then show "pow2 (flog x + int k) \<le> x * 2 ^ k" using flog_bounds [OF assms(1)] by simp
    have "pow2 (flog x + int k + 1) = pow2 (flog x + 1) * 2 ^ k"
      using pow2_add [of "flog x + 1" "int k"] by (simp add: pow2_nat add.commute add.left_commute)
    then show "x * 2 ^ k < pow2 (flog x + int k + 1)" using flog_bounds [OF assms(1)] by simp
  qed
  have u: "ulp (x * 2 ^ k) = ulp x * 2 ^ k"
    using assms(2) pow2_add [of "flog x - 52" "int k"] by (simp add: ulp_def f pow2_nat algebra_simps)
  then show ?thesis by (simp add: round_pos_def)
qed

lemma f64_of_rat_scaled:
  assumes "0 < n" "n \<le> 2 ^ 53"
  shows "f64_of_rat (of_nat n * 2 ^ k) =
           (if pow2 1024 \<le> of_nat n * 2 ^ k then PosInf else Fin (of_nat n * 2 ^ k))"
proof -
  have "round_pos (of_nat n * 2 ^ k) = of_nat n * 2 ^ k"
    using round_pos_scale [of "of_nat n" k] flog_nat [OF assms(1)] assms
    by (simp add: round_pos_small_int)
  then show ?thesis using assms(1) by (auto simp: f64_of_rat_def Let_def)
qed

text \<open>\<open>u64::MAX as f64\<close> rounds up to \<open>2 ^ 64\<close>.\<close>

lemma f64_of_u64_max [f64_simps]: "f64_of_u64 (- 1) = Fin (2 ^ 64)"
proof -
  let ?q = "18446744073709551615 :: rat"
  have u: "of_nat (unat (- 1 :: u64)) = ?q" by (simp add: unsigned_minus_1_eq_mask mask_eq_exp_minus_1)
  have "flog ?q = 63" by (rule flog_eqI) (simp_all add: pow2_def)
  then have ulp: "ulp ?q = 2048" by (simp add: ulp_def pow2_def)
  have "\<lfloor>?q / 2048\<rfloor> = 9007199254740991" by (simp add: floor_eq_iff)
  then have "round_even (?q / 2048) = 9007199254740992" by (simp add: round_even_def Let_def)
  then have r: "round_pos ?q = 2 ^ 64" by (simp only: round_pos_def ulp) simp
  have "\<not> pow2 1024 \<le> 2 ^ 64" using pow2_less [of 64 1024] pow2_nat [of 64] by simp
  with r show ?thesis unfolding f64_of_u64_def u by (simp add: f64_of_rat_def Let_def)
qed

text \<open>A whole value in range converts back to itself.\<close>

lemma f64_as_u64_nat: "n < 2 ^ 64 \<Longrightarrow> unat (f64_as_u64 (Fin (of_nat n))) = n"
proof -
  assume n: "n < 2 ^ 64"
  have "\<lfloor>(of_nat n :: rat) + 1 / 2\<rfloor> = int n" by (simp add: floor_eq_iff)
  then have "f64_round (Fin (of_nat n)) = Fin (of_nat n)" by (cases "n = 0") simp_all
  then have "f64_as_u64 (Fin (of_nat n)) = of_nat n" using round_as_u64_exact [OF n] by simp
  then show ?thesis using n by (simp only: unat_of_nat) simp
qed

lemma f64_whole_in_range:
  assumes "f64_is_whole f" "f64_le (Fin 0) f" "f64_less f (Fin (2 ^ 64))"
  shows "f = Fin (of_nat (unat (f64_as_u64 f)))"
proof -
  obtain q where f: "f = Fin q" using assms(1) by (cases f) auto
  then obtain n where n: "q = of_nat n"
    using assms by (metis f64_is_whole.simps(1) f64_le_simps(1) nat_0_le of_int_0_le_iff of_int_of_nat_eq)
  then have "(of_nat n :: rat) < of_nat (2 ^ 64)" using assms(3) f by simp
  then have "n < 2 ^ 64" by (simp only: of_nat_less_iff)
  then show ?thesis using f n f64_as_u64_nat by metis
qed

end
