(* ===== verification/Backoff.thy ===== *)
theory Backoff
  imports F64
begin

section \<open>Retry backoff (backoff.rs)\<close>

text \<open>
  The delay of a retry. \<open>base_backoff_ms\<close> is the deterministic part,
  \<open>compute_backoff_ms\<close> adds the jitter and rounds to milliseconds. The random source of the
  \<open>rand\<close> crate is the parameter \<open>random_range\<close>; what is used of it is \<open>uniform_range\<close>: a draw
  from a finite range lies in the range.
\<close>

definition base_backoff_ms :: "u32 \<Rightarrow> u64 \<Rightarrow> f64 \<Rightarrow> u64 \<Rightarrow> f64" where
  "base_backoff_ms attempt base_ms factor max_ms =
     (let a = max attempt 1;
          factor = f64_max factor (Fin 1);
          d = f64_mul (f64_of_u64 base_ms) (f64_powi factor (sint (a - 1)));
          maxf = f64_of_u64 max_ms
      in if \<not> is_finite d \<or> f64_less maxf d then maxf else f64_max d (Fin 0))"

definition compute_backoff_ms ::
    "(f64 \<Rightarrow> f64 \<Rightarrow> f64) \<Rightarrow> u32 \<Rightarrow> u64 \<Rightarrow> f64 \<Rightarrow> u64 \<Rightarrow> bool \<Rightarrow> u64" where
  "compute_backoff_ms random_range attempt base_ms factor max_ms jitter =
     (let d = base_backoff_ms attempt base_ms factor max_ms;
          d = (if jitter \<and> f64_less (Fin 0) d
               then random_range (f64_mul (Fin (1 / 2)) d) d else d)
      in f64_as_u64 (f64_round d))"

definition uniform_range :: "(f64 \<Rightarrow> f64 \<Rightarrow> f64) \<Rightarrow> bool" where
  "uniform_range random_range \<longleftrightarrow>
     (\<forall>lo hi. is_finite lo \<and> is_finite hi \<and> f64_le lo hi \<longrightarrow>
        f64_le lo (random_range lo hi) \<and> f64_le (random_range lo hi) hi)"

subsection \<open>Powers of the growth factor\<close>

lemma f64_mul_ge_one:
  assumes "f64_le (Fin 1) x" "f64_le (Fin 1) y"
  shows "f64_le (Fin 1) (f64_mul x y)"
proof -
  have one: "(1::rat) = round_pos 1" using round_pos_small_int [of 1] by simp
  have f1: "flog 1 = 0" by (rule flog_eqI) (simp_all add: pow2_def)
  have prod: "1 \<le> a * b" if "1 \<le> a" "1 \<le> b" for a b :: rat
    using mult_mono [of 1 a 1 b] that by simp
  have fin: "f64_le (Fin 1) (f64_of_rat (a * b))" if "1 \<le> a" "1 \<le> b" for a b :: rat
    using f64_of_rat_ge [OF one _ prod [OF that]] f1 by auto
  show ?thesis
    using assms(1)
  proof (rule f64_le_Fin_cases)
    fix a assume x: "x = Fin a" "1 \<le> a"
    from assms(2) show ?thesis
      by (rule f64_le_Fin_cases) (use x fin in \<open>auto simp: f64_signed_inf_def\<close>)
  next
    assume x: "x = PosInf"
    from assms(2) show ?thesis
      by (rule f64_le_Fin_cases) (use x in \<open>auto simp: f64_signed_inf_def\<close>)
  qed
qed

lemma powi_loop_ge_one:
  "f64_le (Fin 1) a \<Longrightarrow> f64_le (Fin 1) r \<Longrightarrow> f64_le (Fin 1) (powi_loop a b r)"
proof (induction a b r rule: powi_loop.induct)
  case (1 a b r)
  then show ?case
    by (subst powi_loop.simps) (auto simp: Let_def f64_mul_ge_one)
qed

lemma f64_powi_ge_one:
  "f64_le (Fin 1) a \<Longrightarrow> 0 \<le> n \<Longrightarrow> f64_le (Fin 1) (f64_powi a n)"
  by (simp add: f64_powi_def powi_loop_ge_one)

lemma f64_max_one_ge: "f64_le (Fin 1) (f64_max x (Fin 1))"
  by (cases x) (auto simp: f64_max_def)

text \<open>Powers of two are exact until they overflow to infinity.\<close>

definition two_to :: "nat \<Rightarrow> f64" where
  "two_to e = (if e < 1024 then Fin (2 ^ e) else PosInf)"

lemma f64_mul_two_to: "f64_mul (two_to a) (two_to b) = two_to (a + b)"
  by (simp add: two_to_def f64_simps f64_signed_inf_def flip: power_add)

lemma powi_loop_two: "powi_loop (two_to p) b (two_to j) = two_to (p * b + j)"
proof (induction b arbitrary: p j rule: less_induct)
  case (less b)
  have split: "p * b + j = (p + p) * (b div 2) + (if odd b then j + p else j)"
  proof -
    define k where "k = b div 2"
    have "b = (if odd b then 2 * k + 1 else 2 * k)" by (simp add: k_def)
    then have "p * b = (if odd b then p * (2 * k + 1) else p * (2 * k))" by metis
    then show ?thesis unfolding k_def [symmetric] by (simp add: algebra_simps split: if_splits)
  qed
  have step: "powi_loop (two_to p) b (two_to j) =
      (if b div 2 = 0 then two_to (if odd b then j + p else j)
       else powi_loop (two_to (p + p)) (b div 2) (two_to (if odd b then j + p else j)))"
    by (subst powi_loop.simps) (simp add: Let_def f64_mul_two_to)
  show ?case
  proof (cases "b div 2 = 0")
    case True
    with split step show ?thesis by simp
  next
    case False
    then have "b div 2 < b" by simp
    from less [OF this, of "p + p" "if odd b then j + p else j"] False split step
    show ?thesis by simp
  qed
qed

lemma f64_powi_two [f64_simps]: "0 \<le> n \<Longrightarrow> f64_powi (Fin 2) n = two_to (nat n)"
  using powi_loop_two [of 1 "nat n" 0] by (simp add: f64_powi_def two_to_def)

subsection \<open>The delay stays inside its bounds\<close>

lemma base_backoff_range:
  "\<exists>r m. base_backoff_ms a b f m_ms = Fin r \<and> f64_of_u64 m_ms = Fin m \<and> 0 \<le> r \<and> r \<le> m"
proof -
  obtain m where m: "f64_of_u64 m_ms = Fin m" "0 \<le> m" using f64_of_u64_finite by blast
  define d where "d = f64_mul (f64_of_u64 b) (f64_powi (f64_max f (Fin 1)) (sint (max a 1 - 1)))"
  have eq: "base_backoff_ms a b f m_ms =
      (if \<not> is_finite d \<or> f64_less (Fin m) d then Fin m else f64_max d (Fin 0))"
    by (simp add: base_backoff_ms_def Let_def d_def m)
  show ?thesis
  proof (cases "\<not> is_finite d \<or> f64_less (Fin m) d")
    case True
    with m eq show ?thesis by simp
  next
    case False
    then obtain r where r: "d = Fin r" "r \<le> m" by (cases d) auto
    with False m eq show ?thesis by (auto simp: f64_max_def)
  qed
qed

lemma base_backoff_lower:
  assumes att: "unat a \<le> 2 ^ 31" and b: "unat b \<le> 2 ^ 53" and mm: "unat m_ms \<le> 2 ^ 53"
  shows "\<exists>r. base_backoff_ms a b f m_ms = Fin r \<and> of_nat (min (unat b) (unat m_ms)) \<le> r"
proof -
  define p where "p = f64_powi (f64_max f (Fin 1)) (sint (max a 1 - 1))"
  define d where "d = f64_mul (f64_of_u64 b) p"
  have bf: "f64_of_u64 b = Fin (of_nat (unat b))" using b by (rule f64_of_u64_exact)
  have mf: "f64_of_u64 m_ms = Fin (of_nat (unat m_ms))" using mm by (rule f64_of_u64_exact)
  have "unat (max a 1 - 1) = max (unat a) 1 - 1"
    using unat_sub [of 1 "max a 1"] by (simp add: sat_simps)
  then have "unat (max a 1 - 1) < 2 ^ 31" using att by simp
  then have "0 \<le> sint (max a 1 - 1)"
    by (simp add: sint_small)
  then have p1: "f64_le (Fin 1) p"
    unfolding p_def using f64_max_one_ge by (intro f64_powi_ge_one)
  have eq: "base_backoff_ms a b f m_ms =
      (if \<not> is_finite d \<or> f64_less (Fin (of_nat (unat m_ms))) d
       then Fin (of_nat (unat m_ms)) else f64_max d (Fin 0))"
    by (simp only: base_backoff_ms_def Let_def d_def p_def mf)
  show ?thesis
  proof (cases "is_finite d \<and> 0 < unat b \<and> \<not> f64_less (Fin (of_nat (unat m_ms))) d")
    case True
    have bpos: "(0::rat) < of_nat (unat b)" using True by (simp only: of_nat_0_less_iff)
    obtain c where c: "p = Fin c" "1 \<le> c"
      using p1 True bpos by (elim f64_le_Fin_cases) (auto simp: d_def bf f64_signed_inf_def)
    have "of_nat (unat b) \<le> of_nat (unat b) * c" using c bpos by simp
    moreover have "round_pos (of_nat (unat b)) = of_nat (unat b)"
      using True b by (intro round_pos_small_int) auto
    moreover have "- 1022 \<le> flog (of_nat (unat b))" using flog_nat [of "unat b"] True by simp
    ultimately obtain r where r: "d = Fin r" "of_nat (unat b) \<le> r"
      using f64_of_rat_ge [of "of_nat (unat b)" "of_nat (unat b) * c"] bpos True
      by (auto simp: d_def bf c)
    then have "base_backoff_ms a b f m_ms = Fin r"
      using eq True bpos by (auto simp: f64_max_def)
    moreover have "(of_nat (min (unat b) (unat m_ms)) :: rat) \<le> of_nat (unat b)"
      by (rule of_nat_mono) (rule min.cobounded1)
    ultimately show ?thesis using r by (meson order_trans)
  next
    case False
    show ?thesis
    proof (cases "unat b = 0")
      case True
      then show ?thesis using base_backoff_range [of a b f m_ms] by auto
    next
      case nz: False
      then have "base_backoff_ms a b f m_ms = Fin (of_nat (unat m_ms))"
        using eq False by auto
      then show ?thesis by (metis of_nat_le_iff min.cobounded2)
    qed
  qed
qed

lemma compute_no_jitter:
  "compute_backoff_ms rng a b f m False = f64_as_u64 (f64_round (base_backoff_ms a b f m))"
  by (simp add: compute_backoff_ms_def)

lemma half_range:
  assumes "0 < r" "r < pow2 1024"
  shows "\<exists>h. f64_mul (Fin (1 / 2)) (Fin r) = Fin h \<and> 0 \<le> h \<and> h \<le> r"
proof -
  define u where "u = ulp (r / 2)"
  have u: "0 < u" by (simp add: u_def)
  define y where "y = r / 2 / u"
  have y0: "0 \<le> y" using assms(1) u by (simp add: y_def)
  have r: "r = 2 * y * u" using u by (simp add: y_def)
  have "of_int (round_even y) \<le> 2 * y"
  proof (cases "y \<le> 1 / 2")
    case True
    with y0 have "\<lfloor>y\<rfloor> = 0" by (simp add: floor_eq_iff)
    with True y0 show ?thesis by (simp add: round_even_def)
  next
    case False
    have "of_int (round_even y) \<le> y + 1 / 2"
      by (simp add: round_even_def Let_def) linarith
    with False show ?thesis by linarith
  qed
  then have "of_int (round_even y) * u \<le> 2 * y * u" using u by simp
  moreover have rp: "round_pos (r / 2) = of_int (round_even y) * u"
    by (simp add: round_pos_def u_def y_def)
  ultimately have le: "round_pos (r / 2) \<le> r" by (metis r)
  have "0 \<le> round_even y" using y0 by (intro round_even_ge) simp
  then have "0 \<le> round_pos (r / 2)" using u by (simp add: rp)
  moreover have "f64_mul (Fin (1 / 2)) (Fin r) = Fin (round_pos (r / 2))"
    using assms le by (simp add: f64_of_rat_def Let_def)
  ultimately show ?thesis using le by blast
qed

text \<open>With jitter the delay lies between half the deterministic delay and all of it.\<close>

lemma jitter_sandwich:
  assumes "uniform_range rng"
  shows "f64_as_u64 (f64_round (f64_mul (Fin (1 / 2)) (base_backoff_ms a b f m)))
           \<le> compute_backoff_ms rng a b f m True
       \<and> compute_backoff_ms rng a b f m True \<le> compute_backoff_ms rng a b f m False"
proof -
  obtain r mx where r: "base_backoff_ms a b f m = Fin r" "0 \<le> r" "r \<le> mx" "f64_of_u64 m = Fin mx"
    using base_backoff_range by blast
  show ?thesis
  proof (cases "r = 0")
    case True
    then show ?thesis by (simp add: compute_backoff_ms_def r f64_of_rat_def)
  next
    case False
    then have pos: "0 < r" using r by simp
    have "r < pow2 1024" using r f64_of_u64_lt [of m] by simp
    from half_range [OF pos this] obtain h where
      h: "f64_mul (Fin (1 / 2)) (Fin r) = Fin h" "0 \<le> h" "h \<le> r" by blast
    have "f64_le (Fin h) (rng (Fin h) (Fin r)) \<and> f64_le (rng (Fin h) (Fin r)) (Fin r)"
      using assms h by (simp add: uniform_range_def)
    then obtain x where x: "rng (Fin h) (Fin r) = Fin x" "h \<le> x" "x \<le> r"
      by (cases "rng (Fin h) (Fin r)") auto
    have j: "compute_backoff_ms rng a b f m True = f64_as_u64 (f64_round (Fin x))"
      using pos by (simp only: compute_backoff_ms_def Let_def r h x) simp
    have n: "compute_backoff_ms rng a b f m False = f64_as_u64 (f64_round (Fin r))"
      by (simp only: compute_no_jitter r)
    show ?thesis
      unfolding j n r(1) h(1)
      using round_as_u64_mono [OF h(2) x(2)] round_as_u64_mono [OF order_trans [OF h(2) x(2)] x(3)]
      by simp
  qed
qed

subsection \<open>The growth factor 2 is exact doubling\<close>

text \<open>The product of the base and a power of two is exact until it overflows.\<close>

lemma scaled_product:
  assumes b: "0 < unat b" "unat b \<le> 2 ^ 53"
  shows "f64_mul (Fin (of_nat (unat (b :: u64)))) (two_to k) = PosInf \<and> pow2 1024 \<le> of_nat (unat b) * 2 ^ k
    \<or> f64_mul (Fin (of_nat (unat b))) (two_to k) = Fin (of_nat (unat b * 2 ^ k))"
proof (cases "k < 1024")
  case True
  then show ?thesis
    using f64_of_rat_scaled [OF b, of k] by (simp add: two_to_def split: if_splits)
next
  case False
  have bpos: "(0::rat) < of_nat (unat b)" using b(1) by (simp only: of_nat_0_less_iff)
  have "pow2 1024 \<le> 2 ^ k" using False pow2_mono [of 1024 "int k"] by (simp add: pow2_nat)
  also have "(2 ^ k :: rat) \<le> of_nat (unat b) * 2 ^ k"
  proof -
    have "of_nat 1 \<le> (of_nat (unat b) :: rat)" using b(1) by (intro of_nat_mono) simp
    then show ?thesis by simp
  qed
  finally show ?thesis using False bpos by (simp add: two_to_def f64_signed_inf_def)
qed

lemma base_backoff_doubling:
  assumes a: "0 < unat a" "unat a \<le> 2 ^ 31" and b: "0 < unat b" "unat b \<le> 2 ^ 53"
    and m: "unat m \<le> 2 ^ 53"
  shows "base_backoff_ms a b (Fin 2) m = Fin (of_nat (min (unat m) (unat b * 2 ^ (unat a - 1))))"
proof -
  define k where "k = unat a - 1"
  have bf: "f64_of_u64 b = Fin (of_nat (unat b))" using b(2) by (rule f64_of_u64_exact)
  have mf: "f64_of_u64 m = Fin (of_nat (unat m))" using m by (rule f64_of_u64_exact)
  have am: "max a 1 = a" using a(1) by (intro max.absorb1) (simp add: word_le_nat_alt)
  have "unat (a - 1) = k" using a(1) unat_sub [of 1 a] by (simp add: k_def word_le_nat_alt)
  then have s: "sint (max a 1 - 1) = int k" using a by (simp add: am sint_small k_def)
  have f2: "f64_max (Fin 2) (Fin 1) = Fin 2" by (simp add: f64_max_def)
  define d where "d = f64_mul (Fin (of_nat (unat b))) (two_to k)"
  have eq: "base_backoff_ms a b (Fin 2) m =
      (if \<not> is_finite d \<or> f64_less (Fin (of_nat (unat m))) d
       then Fin (of_nat (unat m)) else f64_max d (Fin 0))"
    unfolding base_backoff_ms_def Let_def s f2 bf mf d_def by (simp only: f64_simps nat_int of_nat_0_le_iff)
  have m64: "(of_nat (unat m) :: rat) < pow2 1024" using f64_of_u64_lt [OF mf] .
  have big: "(of_nat (unat m) :: rat) < of_nat (unat b * 2 ^ k)" if "pow2 1024 \<le> of_nat (unat b) * 2 ^ k"
    using m64 that by simp
  note cases_d = scaled_product [OF b, of k, folded d_def]
  show ?thesis
    using cases_d
  proof
    assume d: "d = PosInf \<and> pow2 1024 \<le> of_nat (unat b) * 2 ^ k"
    then have "unat m < unat b * 2 ^ k" using big by (simp only: of_nat_less_iff)
    then show ?thesis using eq d by (simp add: k_def min_def)
  next
    assume d: "d = Fin (of_nat (unat b * 2 ^ k))"
    then have mx: "f64_max d (Fin 0) = d"
      by (simp only: f64_max_nat_zero)
    have "(of_nat (unat m) :: rat) < of_nat (unat b * 2 ^ k) \<longleftrightarrow> unat m < unat b * 2 ^ k"
      by (simp only: of_nat_less_iff)
    then have val: "base_backoff_ms a b (Fin 2) m =
        (if unat m < unat b * 2 ^ k then Fin (of_nat (unat m)) else Fin (of_nat (unat b * 2 ^ k)))"
      using eq mx unfolding d by (simp only: f64_less.simps is_finite.simps simp_thms)
    show ?thesis
    proof (cases "unat m < unat b * 2 ^ k")
      case True
      then have "min (unat m) (unat b * 2 ^ k) = unat m" by simp
      with val True show ?thesis by (simp only: k_def if_True)
    next
      case False
      then have "min (unat m) (unat b * 2 ^ k) = unat b * 2 ^ k" by simp
      with val False show ?thesis by (simp only: k_def if_False)
    qed
  qed
qed

subsection \<open>Properties\<close>

text \<open>
  The delay never exceeds \<open>backoff_max_ms\<close>, for every attempt number, growth factor (NaN and
  negative ones included) and jitter draw. Caps above \<open>2 ^ 53\<close> ms are excluded: there the
  conversion to \<open>f64\<close> itself rounds the cap.
\<close>

theorem backoff_never_exceeds_max:
  assumes "uniform_range rng" and "unat max_ms \<le> 2 ^ 53"
  shows "compute_backoff_ms rng attempt base_ms factor max_ms jitter \<le> max_ms"
proof -
  obtain r where r: "base_backoff_ms attempt base_ms factor max_ms = Fin r" "0 \<le> r"
      "r \<le> of_nat (unat max_ms)"
    using base_backoff_range [of attempt base_ms factor max_ms] f64_of_u64_exact [OF assms(2)] by auto
  have "unat max_ms < 2 ^ 64" using assms(2) by (rule le_less_trans) simp
  then have "f64_as_u64 (f64_round (Fin (of_nat (unat max_ms)))) = max_ms"
    by (subst round_as_u64_exact) simp_all
  then have "compute_backoff_ms rng attempt base_ms factor max_ms False \<le> max_ms"
    using round_as_u64_mono [OF r(2,3)] by (simp only: compute_no_jitter r)
  then show ?thesis
    using jitter_sandwich [OF assms(1), of attempt base_ms factor max_ms]
    by (cases jitter) (auto elim: order_trans)
qed

theorem backoff_never_exceeds_max_witness:
  "compute_backoff_ms (\<lambda>lo hi. lo) 8 500 (Fin (3 / 2)) 60000 True \<le> 60000"
  by (rule backoff_never_exceeds_max) (auto simp: uniform_range_def f64_le_def elim!: is_finite.elims)

text \<open>
  Without jitter the delay never drops below the smaller of \<open>backoff_base_ms\<close> and
  \<open>backoff_max_ms\<close>, whatever the growth factor, for the first \<open>2 ^ 31\<close> attempts; with jitter it
  is at most that much and at least the rounded half of the deterministic delay.
\<close>

theorem backoff_never_below_base:
  assumes "unat attempt \<le> 2 ^ 31" and "unat base_ms \<le> 2 ^ 53" and "unat max_ms \<le> 2 ^ 53"
    and "uniform_range rng"
  shows "min base_ms max_ms \<le> compute_backoff_ms rng attempt base_ms factor max_ms False
    \<and> f64_as_u64 (f64_round (f64_mul (Fin (1 / 2)) (base_backoff_ms attempt base_ms factor max_ms)))
        \<le> compute_backoff_ms rng attempt base_ms factor max_ms True
    \<and> compute_backoff_ms rng attempt base_ms factor max_ms True
        \<le> compute_backoff_ms rng attempt base_ms factor max_ms False"
proof -
  let ?n = "min (unat base_ms) (unat max_ms)"
  obtain r where r: "base_backoff_ms attempt base_ms factor max_ms = Fin r" "of_nat ?n \<le> r"
    using base_backoff_lower [OF assms(1-3)] by blast
  have n: "?n < 2 ^ 64" using assms(2) by (intro le_less_trans [of ?n "2 ^ 53"]) auto
  have "f64_as_u64 (f64_round (Fin (of_nat ?n))) \<le> f64_as_u64 (f64_round (Fin r))"
    using r(2) by (intro round_as_u64_mono) simp_all
  then have "of_nat ?n \<le> f64_as_u64 (f64_round (Fin r))"
    by (simp only: round_as_u64_exact [OF n])
  moreover have "(of_nat ?n :: u64) = min base_ms max_ms"
    using n by (simp add: word_unat_eq_iff unat_of_nat sat_simps)
  ultimately have "min base_ms max_ms \<le> compute_backoff_ms rng attempt base_ms factor max_ms False"
    by (simp only: compute_no_jitter r)
  then show ?thesis using jitter_sandwich [OF assms(4)] by blast
qed

theorem backoff_never_below_base_witness:
  "min 500 60000 \<le> compute_backoff_ms (\<lambda>lo hi. hi) 3 500 NaN 60000 False"
  using backoff_never_below_base [of 3 500 60000 "\<lambda>lo hi. hi" NaN]
  by (auto simp: uniform_range_def f64_le_def elim!: is_finite.elims)



text \<open>
  The two corners outside those hypotheses. Past \<open>2 ^ 31\<close> attempts the cast of the exponent to
  \<open>i32\<close> turns negative and the delay collapses to zero. With a zero base delay, an overflowed
  power makes the product NaN and the delay jumps to the cap.
\<close>

lemma backoff_exponent_wraps:
  "compute_backoff_ms rng 2147483649 500 (Fin 2) 60000 False = 0"
proof -
  have "powi_loop (Fin 2) 2147483648 (Fin 1) = PosInf"
    using powi_loop_two [of 1 2147483648 0] by (simp add: two_to_def)
  then have "f64_powi (Fin 2) (- 2147483648) = Fin 0" by (simp add: f64_powi_def)
  moreover have "sint (max 2147483649 1 - 1 :: u32) = - 2147483648" by (simp add: max_def word_le_nat_alt)
  ultimately show ?thesis
    using f64_of_u64_finite [of 500] f64_of_u64_finite [of 60000]
    by (auto simp: compute_backoff_ms_def base_backoff_ms_def Let_def f64_max_def f64_of_rat_def)
qed

lemma backoff_zero_base_jumps_to_cap:
  "compute_backoff_ms rng 1026 0 (Fin 2) 60000 False = 60000"
proof -
  have p: "f64_powi (Fin 2) 1025 = PosInf" by (simp add: f64_simps two_to_def)
  have s: "sint (max 1026 1 - 1 :: u32) = 1025" by (simp add: max_def word_le_nat_alt)
  have r: "f64_as_u64 (f64_round (Fin 60000)) = 60000" using round_as_u64_exact [of 60000] by simp
  have z: "f64_of_u64 0 = Fin 0" and m: "f64_of_u64 60000 = Fin 60000"
    by (simp_all add: f64_of_u64_exact)
  have "base_backoff_ms 1026 0 (Fin 2) 60000 = Fin 60000"
    by (simp add: base_backoff_ms_def Let_def f64_max_def s p z m f64_signed_inf_def)
  then show ?thesis by (simp only: compute_no_jitter r)
qed

end
