(* ===== verification/Redis.thy ===== *)
theory Redis
  imports Prelude "HOL-Library.Product_Lexorder"
begin

section \<open>The broker connection\<close>

text \<open>
  Redis and the client library are not part of this code base. They enter the model as the
  parameter \<open>'s world\<close>: the commands the worker sends, on an abstract server state \<open>'s\<close>, and
  what comes back. Every command is a constructor of \<open>redis_cmd\<close> with the arguments the source
  puts on the wire. A reply is a \<open>redis_value\<close> or a \<open>redis_error\<close>; a pipeline either fails as a
  whole (the connection broke, any prefix of it may have run) or yields one reply per command.
  \<open>w_now\<close> is a reading of the worker's clock (Clock.thy).

  What the worker relies on is stated as locales over a world: \<open>redis_conn\<close> (how replies relate to
  what the server did, with other clients running in between), \<open>delayed_store\<close> (sorted set and
  stream), \<open>lease_store\<close> (string keys), \<open>group_store\<close> (consumer group), \<open>group_reader\<close> (delivery).
\<close>

text \<open>A stream id is the pair of its halves; on the wire it is the text \<open>ms-seq\<close>.\<close>

type_synonym stream_id = "u64 \<times> u64"

definition show_sid :: "stream_id \<Rightarrow> string" where
  "show_sid i = show_u64 (fst i) @ ''-'' @ show_u64 (snd i)"

datatype redis_cmd =
    XGROUP_CREATE string string string bool
  | XREADGROUP string string "string list" nat u64
  | ZADD string u64 string
  | ZRANGEBYSCORE string u64 nat
  | ZREM string string
  | XADD string "(string \<times> string) list"
  | XADD_MAXLEN string u64 "(string \<times> string) list"
  | SET_EX string string u64
  | SET_NX_EX string string u64
  | GET string
  | EXPIRE string u64
  | PEXPIRE string u64
  | XACK string string "string list"
  | XDEL string "string list"
  | XINFO_GROUPS string
  | XINFO_CONSUMERS string string
  | XGROUP_DELCONSUMER string string string
  | XPENDING string string string string nat
  | XPENDING_IDLE string string u64 string string nat
  | XRANGE string string string "nat option"
  | XCLAIM string string string u64 string
  | XTRIM_MINID string string
  | TIME
  | INFO string

datatype err_kind = CrossSlot | OtherKind

record redis_error =
  err_kind :: err_kind
  err_code :: "string option"
  err_text :: string

text \<open>Replies, after the client library's conversion to the type the source asks for: stream entries
  are (id, fields), with the fields whose value is text (a value that is not UTF-8 reads as absent), pending entries (id, consumer, idle ms, delivery count), groups (name,
  last-delivered-id), consumers (name, pending, idle ms).\<close>

datatype redis_value =
    RNil
  | ROk
  | RInt int
  | RStr string
  | RList "string list"
  | RPair int string
  | RTime int int
  | REntries "(string \<times> (string \<times> string) list) list"
  | RStreams "(string \<times> (string \<times> (string \<times> string) list) list) list"
  | RPending "(string \<times> string \<times> u64 \<times> u64) list"
  | RGroups "(string \<times> string) list"
  | RConsumers "(string \<times> nat \<times> u64) list"

type_synonym reply = "(redis_error, redis_value) result"

record 's world =
  w_query :: "redis_cmd \<Rightarrow> 's \<Rightarrow> reply \<times> 's"
  w_pipe :: "redis_cmd list \<Rightarrow> 's \<Rightarrow> (redis_error, reply list) result \<times> 's"
  w_call :: "redis_cmd \<Rightarrow> 's \<Rightarrow> reply \<times> 's"
  w_eval :: "('s \<Rightarrow> reply \<times> 's) \<Rightarrow> 's \<Rightarrow> reply \<times> 's"
  w_now :: "'s \<Rightarrow> u64 \<times> 's"

definition type_error :: redis_error where
  "type_error = \<lparr>err_kind = OtherKind, err_code = None, err_text = ''response was of incompatible type''\<rparr>"

text \<open>The commands of a pipeline, run by the server one after the other.\<close>

fun run_cmds :: "('c \<Rightarrow> 's \<Rightarrow> 'r \<times> 's) \<Rightarrow> 'c list \<Rightarrow> 's \<Rightarrow> 'r list \<times> 's" where
  "run_cmds f [] s = ([], s)"
| "run_cmds f (c # cs) s = (let (r, s1) = f c s; (rs, s2) = run_cmds f cs s1 in (r # rs, s2))"

lemma length_run_cmds [simp]: "length (fst (run_cmds f cs s)) = length cs"
  by (induction cs arbitrary: s) (auto simp: Let_def split: prod.splits, (metis fst_conv)+)

lemma run_cmds_append:
  "run_cmds f (cs @ ds) s =
     (let (rs, s1) = run_cmds f cs s; (qs, s2) = run_cmds f ds s1 in (rs @ qs, s2))"
  by (induction cs arbitrary: s) (auto simp: Let_def split: prod.splits)

subsection \<open>What the client library promises\<close>

text \<open>
  \<open>env s t\<close>: other clients of the same server can take its state from \<open>s\<close> to \<open>t\<close>. A successful
  query means the server ran the command, after any activity of others. A failed one may or may
  not have run. A pipeline's replies are those of its commands in order; others may run between
  them. A script runs atomically.
\<close>

locale redis_conn =
  fixes W :: "'s world" and env :: "'s \<Rightarrow> 's \<Rightarrow> bool"
  assumes env_refl: "env s s"
    and env_trans: "env s t \<Longrightarrow> env t u \<Longrightarrow> env s u"
    and query_ok: "w_query W c s = (Inr v, s') \<Longrightarrow> \<exists>t. env s t \<and> w_call W c t = (Inr v, s')"
    and query_err: "w_query W c s = (Inl e, s') \<Longrightarrow>
          env s s' \<or> (\<exists>t. env s t \<and> s' = snd (w_call W c t))"
    and pipe_len: "w_pipe W cs s = (Inr vs, s') \<Longrightarrow> length vs = length cs"
    and eval_ok: "w_eval W f s = (Inr v, s') \<Longrightarrow> \<exists>t. env s t \<and> f t = (Inr v, s')"
    and eval_err: "w_eval W f s = (Inl e, s') \<Longrightarrow>
          env s s' \<or> (\<exists>t. env s t \<and> s' = snd (f t))"

text \<open>Sorted set and stream, as the delayed mover uses them: \<open>zscore\<close> is the score of a member,
  \<open>backlog\<close> the field lists of a stream's entries in order.\<close>

locale delayed_store = redis_conn W env for W :: "'s world" and env +
  fixes zscore :: "'s \<Rightarrow> string \<Rightarrow> string \<Rightarrow> u64 option"
    and backlog :: "'s \<Rightarrow> string \<Rightarrow> (string \<times> string) list list"
  assumes zrange_ok: "w_call W (ZRANGEBYSCORE k mx n) s = (Inr v, s') \<Longrightarrow>
      s' = s \<and> (\<exists>due. v = RList due \<and> distinct due
        \<and> set due \<subseteq> {e. \<exists>sc. zscore s k e = Some sc \<and> sc \<le> mx}
        \<and> length due \<le> n
        \<and> (length due < n \<longrightarrow> {e. \<exists>sc. zscore s k e = Some sc \<and> sc \<le> mx} \<subseteq> set due))"
    and zrange_err: "w_call W (ZRANGEBYSCORE k mx n) s = (Inl e, s') \<Longrightarrow> s' = s"
    and xadd_ok: "w_call W (XADD k fs) s = (Inr v, s') \<Longrightarrow>
      zscore s' = zscore s \<and> backlog s' = (backlog s)(k := backlog s k @ [fs])"
    and xadd_err: "w_call W (XADD k fs) s = (Inl e, s') \<Longrightarrow> s' = s"
    and zrem_ok: "w_call W (ZREM k m) s = (Inr v, s') \<Longrightarrow>
      zscore s' = (zscore s)(k := (zscore s k)(m := None)) \<and> backlog s' = backlog s"
    and zrem_err: "w_call W (ZREM k m) s = (Inl e, s') \<Longrightarrow> s' = s"

text \<open>String keys with a lifetime: \<open>held s k\<close> is the live value.\<close>

locale lease_store = redis_conn W env for W :: "'s world" and env +
  fixes held :: "'s \<Rightarrow> string \<Rightarrow> string option"
  assumes set_nx_ok: "w_call W (SET_NX_EX k v ttl) s = (Inr r, s') \<Longrightarrow>
      (case held s k of
         None \<Rightarrow> r \<noteq> RNil \<and> held s' = (held s)(k := Some v)
       | Some _ \<Rightarrow> r = RNil \<and> held s' = held s)"
    and get_ok: "w_call W (GET k) s = (Inr r, s') \<Longrightarrow>
      held s' = held s \<and> r = (case held s k of None \<Rightarrow> RNil | Some v \<Rightarrow> RStr v)"
    and pexpire_ok: "w_call W (PEXPIRE k ms) s = (Inr r, s') \<Longrightarrow> held s' = held s"
    and set_nx_err: "w_call W (SET_NX_EX k v ttl) s = (Inl e, s') \<Longrightarrow> held s' = held s"
    and get_err: "w_call W (GET k) s = (Inl e, s') \<Longrightarrow> held s' = held s"
    and pexpire_err: "w_call W (PEXPIRE k ms) s = (Inl e, s') \<Longrightarrow> held s' = held s"

text \<open>
  The consumer group of a queue's stream: its entry ids, the last delivered id and the pending
  entries. Delivery only moves forward: an id becomes pending only by being delivered past the
  last delivered id. Trimming removes exactly the ids below the boundary.
\<close>

locale group_store = redis_conn W env for W :: "'s world" and env +
  fixes entries :: "'s \<Rightarrow> string \<Rightarrow> stream_id set"
    and last_delivered :: "'s \<Rightarrow> string \<Rightarrow> stream_id"
    and pending :: "'s \<Rightarrow> string \<Rightarrow> stream_id set"
  assumes pending_delivered: "i \<in> pending s k \<Longrightarrow> i \<le> last_delivered s k"
    and env_last: "env s t \<Longrightarrow> last_delivered s k \<le> last_delivered t k"
    and env_pending: "env s t \<Longrightarrow> i \<in> pending t k \<Longrightarrow> i \<in> pending s k \<or> last_delivered s k < i"
    and info_ok: "w_call W (XINFO_GROUPS k) s = (Inr v, s') \<Longrightarrow>
      s' = s \<and> (\<exists>gs. v = RGroups gs \<and>
        (\<forall>g lid. List.find (\<lambda>g. fst g = ''cauli'') gs = Some (g, lid) \<longrightarrow> lid = show_sid (last_delivered s k)))"
    and xpending_ok: "w_call W (XPENDING k ''cauli'' ''-'' ''+'' 1) s = (Inr v, s') \<Longrightarrow>
      s' = s \<and> (\<exists>ps. v = RPending ps \<and>
        (case ps of [] \<Rightarrow> pending s k = {}
         | p # _ \<Rightarrow> \<exists>i. fst p = show_sid i \<and> i \<in> pending s k \<and> (\<forall>j\<in>pending s k. i \<le> j)))"
    and trim_ok: "w_call W (XTRIM_MINID k (show_sid b)) s = (Inr v, s') \<Longrightarrow>
      entries s' k = {i \<in> entries s k. b \<le> i} \<and> last_delivered s' k = last_delivered s k
        \<and> pending s' k = pending s k"
    and trim_err: "w_call W (XTRIM_MINID k txt) s = (Inl e, s') \<Longrightarrow> s' = s"

text \<open>Delivery to a consumer: \<open>COUNT\<close> bounds what one stream returns, and only the streams asked for
  return anything.\<close>

locale group_reader = redis_conn W env for W :: "'s world" and env +
  assumes read_ok: "w_call W (XREADGROUP g c ks n b) s = (Inr (RStreams rs), s') \<Longrightarrow>
      length rs \<le> length ks \<and> (\<forall>r\<in>set rs. length (snd r) \<le> n)"

end
