(* ===== verification/Redis_Mem.thy ===== *)
theory Redis_Mem
  imports Redis
begin

section \<open>An in-memory broker\<close>

text \<open>
  An executable server that satisfies the contracts of Redis.thy, one queue group named
  \<open>cauli\<close> per stream. It instantiates the \<open>'s world\<close> parameter where the development evaluates
  the worker on a concrete broker, and its interpretations show that the contracts can hold
  together. It is not a model of any code of this repository.
\<close>

record mstream =
  ms_entries :: "(stream_id \<times> (string \<times> string) list) list"
  ms_top :: stream_id
  ms_group :: "stream_id option"
  ms_pel :: "(stream_id \<times> string \<times> u64 \<times> u64) list"

record mem =
  mm_str :: "string \<Rightarrow> string option"
  mm_zset :: "string \<Rightarrow> (string \<times> u64) list"
  mm_stream :: "string \<Rightarrow> mstream"
  mm_clock :: u64

definition empty_stream :: mstream where
  "empty_stream = \<lparr>ms_entries = [], ms_top = (0, 0), ms_group = None, ms_pel = []\<rparr>"

definition empty_mem :: "u64 \<Rightarrow> mem" where
  "empty_mem now = \<lparr>mm_str = (\<lambda>_. None), mm_zset = (\<lambda>_. []), mm_stream = (\<lambda>_. empty_stream),
     mm_clock = now\<rparr>"

definition read_sid :: "string \<Rightarrow> stream_id option" where
  "read_sid t = (case split_once CHR ''-'' t of
      None \<Rightarrow> None
    | Some (a, b) \<Rightarrow> (case (parse_u64 a, parse_u64 b) of (Some x, Some y) \<Rightarrow> Some (x, y) | _ \<Rightarrow> None))"

lemma read_show_sid [simp]: "read_sid (show_sid i) = Some i"
  by (simp add: read_sid_def show_sid_def text_simps show_nat_no_dash)

definition server_error :: "string \<Rightarrow> redis_error" where
  "server_error code = \<lparr>err_kind = OtherKind, err_code = Some code, err_text = code\<rparr>"

abbreviation up_stream :: "string \<Rightarrow> (mstream \<Rightarrow> mstream) \<Rightarrow> mem \<Rightarrow> mem" where
  "up_stream k f s \<equiv> s\<lparr>mm_stream := (mm_stream s)(k := f (mm_stream s k))\<rparr>"

definition fresh_id :: "u64 \<Rightarrow> mstream \<Rightarrow> stream_id" where
  "fresh_id now st = (if fst (ms_top st) < now then (now, 0) else (fst (ms_top st), snd (ms_top st) + 1))"

definition mem_xadd :: "string \<Rightarrow> (string \<times> string) list \<Rightarrow> mem \<Rightarrow> reply \<times> mem" where
  "mem_xadd k fs s =
     (let i = fresh_id (mm_clock s) (mm_stream s k)
      in (Inr (RStr (show_sid i)),
          up_stream k (\<lambda>st. st\<lparr>ms_entries := ms_entries st @ [(i, fs)], ms_top := i\<rparr>) s))"

definition zrem :: "string \<Rightarrow> (string \<times> u64) list \<Rightarrow> (string \<times> u64) list" where
  "zrem m z = filter (\<lambda>p. fst p \<noteq> m) z"

definition zdue :: "u64 \<Rightarrow> (string \<times> u64) list \<Rightarrow> string list" where
  "zdue mx z = filter (\<lambda>m. case map_of z m of Some sc \<Rightarrow> sc \<le> mx | None \<Rightarrow> False) (remdups (map fst z))"

definition pel_of :: "mstream \<Rightarrow> (stream_id \<times> string \<times> u64 \<times> u64) list" where
  "pel_of st = sort_key fst (case ms_group st of None \<Rightarrow> []
     | Some g \<Rightarrow> filter (\<lambda>p. fst p \<le> g) (ms_pel st))"

text \<open>The two ends of a range: an id, an exclusive id, or the end of the stream.\<close>

definition past :: "string \<Rightarrow> stream_id \<Rightarrow> bool" where
  "past lo i \<longleftrightarrow>
     (if lo = ''-'' then True
      else case lo of
             [] \<Rightarrow> False
           | c # r \<Rightarrow> if c = CHR ''('' then (case read_sid r of None \<Rightarrow> False | Some j \<Rightarrow> j < i)
                      else (case read_sid lo of None \<Rightarrow> False | Some j \<Rightarrow> j \<le> i))"

definition up_to :: "string \<Rightarrow> stream_id \<Rightarrow> bool" where
  "up_to hi i \<longleftrightarrow> (if hi = ''+'' then True else case read_sid hi of None \<Rightarrow> False | Some j \<Rightarrow> i \<le> j)"

text \<open>A claim moves a pending entry that was idle long enough to the new consumer and returns it.\<close>

definition mem_claim :: "string \<Rightarrow> string \<Rightarrow> u64 \<Rightarrow> stream_id \<Rightarrow> mem \<Rightarrow> (string \<times> (string \<times> string) list) list \<times> mem" where
  "mem_claim k c idle i s =
     (let st = mm_stream s k
      in if list_ex (\<lambda>(j, _, d, _). j = i \<and> idle \<le> d) (ms_pel st)
         then (map (\<lambda>e. (show_sid (fst e), snd e)) (filter (\<lambda>e. fst e = i) (ms_entries st)),
               up_stream k (\<lambda>st. st\<lparr>ms_pel := map (\<lambda>(j, c', d, m). if j = i then (j, c, 0, m + 1) else (j, c', d, m)) (ms_pel st)\<rparr>) s)
         else ([], s))"

text \<open>Delivery: per stream the entries past the group's position, which become pending.\<close>

fun mem_read :: "string \<Rightarrow> nat \<Rightarrow> string list \<Rightarrow> mem
    \<Rightarrow> (string \<times> (string \<times> (string \<times> string) list) list) list \<times> mem" where
  "mem_read c n [] s = ([], s)"
| "mem_read c n (k # ks) s =
     (let st = mm_stream s k;
          fresh = (case ms_group st of None \<Rightarrow> [] | Some g \<Rightarrow> take n (filter (\<lambda>e. g < fst e) (ms_entries st)))
      in if fresh = [] then mem_read c n ks s
         else let (rs, s') = mem_read c n ks
                    (up_stream k (\<lambda>st. st\<lparr>ms_group := Some (fst (last fresh)),
                       ms_pel := ms_pel st @ map (\<lambda>e. (fst e, c, 0, 1)) fresh\<rparr>) s)
              in ((k, map (\<lambda>e. (show_sid (fst e), snd e)) fresh) # rs, s'))"

lemma mem_read_bounded: "mem_read c n ks s = (rs, s') \<Longrightarrow> length rs \<le> length ks \<and> (\<forall>r\<in>set rs. length (snd r) \<le> n)"
proof (induction ks arbitrary: s rs s')
  case (Cons k ks)
  then show ?case by (fastforce simp: Let_def split: prod.splits if_splits option.splits)
qed simp

fun mem_call :: "redis_cmd \<Rightarrow> mem \<Rightarrow> reply \<times> mem" where
  "mem_call (ZADD k sc m) s =
     (Inr (RInt 1), s\<lparr>mm_zset := (mm_zset s)(k := insort_key snd (m, sc) (zrem m (mm_zset s k)))\<rparr>)"
| "mem_call (ZRANGEBYSCORE k mx n) s = (Inr (RList (take n (zdue mx (mm_zset s k)))), s)"
| "mem_call (ZREM k m) s = (Inr (RInt 1), s\<lparr>mm_zset := (mm_zset s)(k := zrem m (mm_zset s k))\<rparr>)"
| "mem_call (XADD k fs) s = mem_xadd k fs s"
| "mem_call (XADD_MAXLEN k n fs) s = mem_xadd k fs s"
| "mem_call (SET_EX k v ttl) s = (Inr ROk, s\<lparr>mm_str := (mm_str s)(k := Some v)\<rparr>)"
| "mem_call (SET_NX_EX k v ttl) s =
     (case mm_str s k of
        None \<Rightarrow> (Inr ROk, s\<lparr>mm_str := (mm_str s)(k := Some v)\<rparr>)
      | Some _ \<Rightarrow> (Inr RNil, s))"
| "mem_call (GET k) s = (Inr (case mm_str s k of None \<Rightarrow> RNil | Some v \<Rightarrow> RStr v), s)"
| "mem_call (EXPIRE k ttl) s = (Inr (RInt 1), s)"
| "mem_call (PEXPIRE k ttl) s = (Inr (RInt 1), s)"
| "mem_call (XACK k g ids) s =
     (Inr (RInt (int (length ids))),
      up_stream k (\<lambda>st. st\<lparr>ms_pel := filter (\<lambda>p. Some (fst p) \<notin> set (map read_sid ids)) (ms_pel st)\<rparr>) s)"
| "mem_call (XDEL k ids) s =
     (Inr (RInt (int (length ids))),
      up_stream k (\<lambda>st. st\<lparr>ms_entries := filter (\<lambda>p. Some (fst p) \<notin> set (map read_sid ids)) (ms_entries st)\<rparr>) s)"
| "mem_call (XGROUP_CREATE k g i mk) s =
     (case ms_group (mm_stream s k) of
        None \<Rightarrow> (Inr ROk, up_stream k (\<lambda>st. st\<lparr>ms_group := Some (0, 0)\<rparr>) s)
      | Some _ \<Rightarrow> (Inl (server_error ''BUSYGROUP''), s))"
| "mem_call (XINFO_GROUPS k) s =
     (Inr (RGroups (case ms_group (mm_stream s k) of None \<Rightarrow> [] | Some l \<Rightarrow> [(''cauli'', show_sid l)])), s)"
| "mem_call (XPENDING k g lo hi n) s =
     (Inr (RPending (take n (map (\<lambda>(i, r). (show_sid i, r)) (pel_of (mm_stream s k))))), s)"
| "mem_call (XTRIM_MINID k b) s =
     (case read_sid b of
        None \<Rightarrow> (Inl (server_error ''ERR''), s)
      | Some m \<Rightarrow> (Inr (RInt (int (length (filter (\<lambda>p. fst p < m) (ms_entries (mm_stream s k)))))),
          up_stream k (\<lambda>st. st\<lparr>ms_entries := filter (\<lambda>p. m \<le> fst p) (ms_entries st)\<rparr>) s))"
| "mem_call (XREADGROUP g c ks n b) s =
     (if list_ex (\<lambda>k. ms_group (mm_stream s k) = None) ks then (Inl (server_error ''NOGROUP''), s)
      else let (rs, s') = mem_read c n ks s in (Inr (if rs = [] then RNil else RStreams rs), s'))"
| "mem_call (XPENDING_IDLE k g idle lo hi n) s =
     (Inr (RPending (take n (map (\<lambda>(i, r). (show_sid i, r))
        (filter (\<lambda>(i, _, d, _). idle \<le> d \<and> past lo i \<and> up_to hi i) (pel_of (mm_stream s k)))))), s)"
| "mem_call (XRANGE k lo hi cnt) s =
     (let es = map (\<lambda>e. (show_sid (fst e), snd e)) (filter (\<lambda>e. past lo (fst e) \<and> up_to hi (fst e)) (ms_entries (mm_stream s k)))
      in (Inr (REntries (case cnt of None \<Rightarrow> es | Some n \<Rightarrow> take n es)), s))"
| "mem_call (XCLAIM k g c idle i) s =
     (case read_sid i of
        None \<Rightarrow> (Inl (server_error ''ERR''), s)
      | Some j \<Rightarrow> (let (es, s') = mem_claim k c idle j s in (Inr (REntries es), s')))"
| "mem_call TIME s = (Inr (RTime (uint (mm_clock s) div 1000) ((uint (mm_clock s) mod 1000) * 1000)), s)"
| "mem_call _ s = (Inl (server_error ''ERR''), s)"

definition mem_world :: "mem world" where
  "mem_world = \<lparr>w_query = mem_call, w_pipe = (\<lambda>cs s. let (rs, s') = run_cmds mem_call cs s in (Inr rs, s')),
     w_call = mem_call, w_eval = (\<lambda>f s. f s), w_now = (\<lambda>s. (mm_clock s, s))\<rparr>"

definition mem_last :: "mem \<Rightarrow> string \<Rightarrow> stream_id" where
  "mem_last s k = (case ms_group (mm_stream s k) of None \<Rightarrow> (0, 0) | Some g \<Rightarrow> g)"

definition mem_pending :: "mem \<Rightarrow> string \<Rightarrow> stream_id set" where
  "mem_pending s k = fst ` set (pel_of (mm_stream s k))"

text \<open>What other clients may do: deliver forward, acknowledge, add string keys.\<close>

definition mem_env :: "mem \<Rightarrow> mem \<Rightarrow> bool" where
  "mem_env s t \<longleftrightarrow> mm_str s \<subseteq>\<^sub>m mm_str t \<and>
     (\<forall>k. mem_last s k \<le> mem_last t k
        \<and> (\<forall>i\<in>mem_pending t k. i \<in> mem_pending s k \<or> mem_last s k < i))"

lemma mem_env_refl [simp]: "mem_env s s"
  by (simp add: mem_env_def)

interpretation mem_conn: redis_conn mem_world mem_env
proof
  fix s t u assume "mem_env s t" "mem_env t u"
  then show "mem_env s u"
    unfolding mem_env_def by (meson order_trans le_less_trans map_le_trans)
next
  fix cs s vs s' assume "w_pipe mem_world cs s = (Inr vs, s')"
  then have "run_cmds mem_call cs s = (vs, s')"
    by (simp add: mem_world_def Let_def split: prod.splits)
  then show "length vs = length cs" by (metis fst_conv length_run_cmds)
qed (auto simp: mem_world_def intro: mem_env_refl)

lemma zdue_set: "set (zdue mx z) = {m. \<exists>sc. map_of z m = Some sc \<and> sc \<le> mx}"
  by (force simp: zdue_def split: option.splits dest: map_of_SomeD)

lemma map_of_zrem: "map_of (zrem m z) = (map_of z)(m := None)"
  by (induction z) (auto simp: zrem_def fun_eq_iff)

interpretation mem_delayed: delayed_store mem_world mem_env
  "\<lambda>s k. map_of (mm_zset s k)" "\<lambda>s k. map snd (ms_entries (mm_stream s k))"
proof unfold_locales
  fix k mx n s v s'
  assume a: "w_call mem_world (ZRANGEBYSCORE k mx n) s = (Inr v, s')"
  let ?d = "zdue mx (mm_zset s k)"
  have "distinct (take n ?d)" by (simp add: zdue_def)
  moreover have "set (take n ?d) \<subseteq> set ?d" by (rule set_take_subset)
  moreover have "length (take n ?d) < n \<Longrightarrow> take n ?d = ?d" by simp
  ultimately show "s' = s \<and> (\<exists>due. v = RList due \<and> distinct due
        \<and> set due \<subseteq> {e. \<exists>sc. map_of (mm_zset s k) e = Some sc \<and> sc \<le> mx}
        \<and> length due \<le> n
        \<and> (length due < n \<longrightarrow> {e. \<exists>sc. map_of (mm_zset s k) e = Some sc \<and> sc \<le> mx} \<subseteq> set due))"
    using a by (intro conjI exI [of _ "take n ?d"]) (auto simp: mem_world_def zdue_set)
qed (auto simp: mem_world_def mem_xadd_def Let_def map_of_zrem fun_eq_iff)

interpretation mem_lease: lease_store mem_world mem_env mm_str
  by unfold_locales (auto simp: mem_world_def split: option.splits)

lemma pel_of_sorted: "sorted (map fst (pel_of st))"
  by (simp add: pel_of_def)

interpretation mem_group: group_store mem_world mem_env
  "\<lambda>s k. fst ` set (ms_entries (mm_stream s k))" mem_last mem_pending
proof unfold_locales
  fix k s v s'
  assume "w_call mem_world (XPENDING k ''cauli'' ''-'' ''+'' 1) s = (Inr v, s')"
  then show "s' = s \<and> (\<exists>ps. v = RPending ps \<and>
        (case ps of [] \<Rightarrow> mem_pending s k = {}
         | p # _ \<Rightarrow> \<exists>i. fst p = show_sid i \<and> i \<in> mem_pending s k \<and> (\<forall>j\<in>mem_pending s k. i \<le> j)))"
    using pel_of_sorted [of "mm_stream s k"]
    by (cases "pel_of (mm_stream s k)")
      (auto simp: mem_world_def mem_pending_def simp del: less_eq_prod_simp intro!: exI [where P = "\<lambda>i. _ i \<and> _ i"])
next
  fix i s k assume "i \<in> mem_pending s k"
  then show "i \<le> mem_last s k"
    by (auto simp: mem_pending_def mem_last_def pel_of_def split: option.splits)
next
  fix s t k assume "mem_env s t"
  then show "mem_last s k \<le> mem_last t k" unfolding mem_env_def by blast
next
  fix s t i k assume "mem_env s t" "i \<in> mem_pending t k"
  then show "i \<in> mem_pending s k \<or> mem_last s k < i" unfolding mem_env_def by blast
next
  fix k s v s' assume "w_call mem_world (XINFO_GROUPS k) s = (Inr v, s')"
  then show "s' = s \<and> (\<exists>gs. v = RGroups gs \<and>
      (\<forall>g lid. List.find (\<lambda>g. fst g = ''cauli'') gs = Some (g, lid) \<longrightarrow> lid = show_sid (mem_last s k)))"
    by (auto simp: mem_world_def mem_last_def split: option.splits)
next
  fix k b s v s' assume "w_call mem_world (XTRIM_MINID k (show_sid b)) s = (Inr v, s')"
  then have s': "s' = up_stream k (\<lambda>st. st\<lparr>ms_entries := filter (\<lambda>p. b \<le> fst p) (ms_entries st)\<rparr>) s"
    by (simp add: mem_world_def)
  have "fst ` set (filter (\<lambda>p. b \<le> fst p) xs) = {i \<in> fst ` set xs. b \<le> i}"
    for xs :: "(stream_id \<times> (string \<times> string) list) list"
    by (auto simp del: less_eq_prod_simp)
  then show "fst ` set (ms_entries (mm_stream s' k)) =
      {i \<in> fst ` set (ms_entries (mm_stream s k)). b \<le> i}
      \<and> mem_last s' k = mem_last s k \<and> mem_pending s' k = mem_pending s k"
    unfolding s' by (simp add: mem_last_def mem_pending_def pel_of_def)
next
  fix k b s e s' assume "w_call mem_world (XTRIM_MINID k b) s = (Inl e, s')"
  then show "s' = s" by (auto simp: mem_world_def split: option.splits)
qed

interpretation mem_reader: group_reader mem_world mem_env
proof unfold_locales
  fix g c ks n b s rs s' assume "w_call mem_world (XREADGROUP g c ks n b) s = (Inr (RStreams rs), s')"
  then have "mem_read c n ks s = (rs, s')" by (auto simp: mem_world_def Let_def split: prod.splits if_splits)
  then show "length rs \<le> length ks \<and> (\<forall>r\<in>set rs. length (snd r) \<le> n)" by (rule mem_read_bounded)
qed

end
