(* ===== verification/Broker.thy ===== *)
theory Broker
  imports Redis_Mem
begin

section \<open>Broker primitives (broker.rs)\<close>

text \<open>
  Key layout, consumer group setup, the delayed mover script, the idempotency guard, the
  buffered completion writes and the trim boundary. The two Lua scripts are part of the source
  and are modelled statement by statement over \<open>w_call\<close>: \<open>redis.call\<close> raises on an error reply and
  the writes already made stay. The SHA-256 of the \<open>ring\<close> crate is the parameter \<open>sha256\<close>.
\<close>

subsection \<open>Keys\<close>

definition q_key :: "string \<Rightarrow> string" where
  "q_key queue = ''cauli:q:'' @ queue"

definition delayed_key :: "string \<Rightarrow> string" where
  "delayed_key queue = ''cauli:delayed:'' @ queue"

definition dlq_key :: "string \<Rightarrow> string" where
  "dlq_key queue = ''cauli:dlq:'' @ queue"

definition result_key :: "string \<Rightarrow> string" where
  "result_key i = ''cauli:result:'' @ i"

definition HEX :: string where
  "HEX = ''0123456789abcdef''"

definition idemp_digest_hex :: "(string \<Rightarrow> u8 list) \<Rightarrow> string \<Rightarrow> string" where
  "idemp_digest_hex sha256 s =
     concat (map (\<lambda>b. [HEX ! unat (drop_bit 4 b), HEX ! unat (b AND 15)]) (take 16 (sha256 s)))"

definition idemp_key :: "(string \<Rightarrow> u8 list) \<Rightarrow> string \<Rightarrow> string" where
  "idemp_key sha256 key = ''cauli:idemp:'' @ idemp_digest_hex sha256 key"

subsection \<open>Consumer groups\<close>

datatype broker_error = RedisErr redis_error | Msg string

definition is_crossslot :: "broker_error \<Rightarrow> bool" where
  "is_crossslot e = (case e of RedisErr re \<Rightarrow> err_kind re = CrossSlot | Msg _ \<Rightarrow> False)"

definition is_nogroup :: "redis_error \<Rightarrow> bool" where
  "is_nogroup e \<longleftrightarrow> err_code e = Some ''NOGROUP''"

fun contains_text :: "string \<Rightarrow> string \<Rightarrow> bool" where
  "contains_text pat [] = (pat = [])"
| "contains_text pat (c # cs) = (strip_prefix pat (c # cs) \<noteq> None \<or> contains_text pat cs)"

fun ensure_groups :: "'s world \<Rightarrow> string list \<Rightarrow> 's \<Rightarrow> (broker_error, unit) result \<times> 's" where
  "ensure_groups W [] s = (Inr (), s)"
| "ensure_groups W (q # qs) s =
     (case w_query W (XGROUP_CREATE (q_key q) ''cauli'' ''0'' True) s of
        (Inr _, s1) \<Rightarrow> ensure_groups W qs s1
      | (Inl e, s1) \<Rightarrow> if contains_text ''BUSYGROUP'' (err_text e) then ensure_groups W qs s1
                      else (Inl (RedisErr e), s1))"

subsection \<open>The delayed mover\<close>

fun mover_moves :: "(redis_cmd \<Rightarrow> 's \<Rightarrow> reply \<times> 's) \<Rightarrow> string \<Rightarrow> string \<Rightarrow> string list \<Rightarrow> 's
    \<Rightarrow> redis_error option \<times> 's" where
  "mover_moves call k1 k2 [] s = (None, s)"
| "mover_moves call k1 k2 (e # es) s =
     (case call (XADD k2 [(''e'', e)]) s of
        (Inl err, s1) \<Rightarrow> (Some err, s1)
      | (Inr _, s1) \<Rightarrow>
          (case call (ZREM k1 e) s1 of
             (Inl err, s2) \<Rightarrow> (Some err, s2)
           | (Inr _, s2) \<Rightarrow> mover_moves call k1 k2 es s2))"

definition MOVER_LUA :: "(redis_cmd \<Rightarrow> 's \<Rightarrow> reply \<times> 's) \<Rightarrow> string \<Rightarrow> string \<Rightarrow> u64 \<Rightarrow> nat \<Rightarrow> 's
    \<Rightarrow> reply \<times> 's" where
  "MOVER_LUA call k1 k2 now_ms limit s =
     (case call (ZRANGEBYSCORE k1 now_ms limit) s of
        (Inl err, s1) \<Rightarrow> (Inl err, s1)
      | (Inr (RList due), s1) \<Rightarrow>
          (case mover_moves call k1 k2 due s1 of
             (Some err, s2) \<Rightarrow> (Inl err, s2)
           | (None, s2) \<Rightarrow> (Inr (RInt (int (length due))), s2))
      | (Inr _, s1) \<Rightarrow> (Inl type_error, s1))"

definition run_mover :: "'s world \<Rightarrow> string \<Rightarrow> u64 \<Rightarrow> nat \<Rightarrow> 's \<Rightarrow> (broker_error, int) result \<times> 's" where
  "run_mover W queue now_ms limit s =
     (case w_eval W (MOVER_LUA (w_call W) (delayed_key queue) (q_key queue) now_ms limit) s of
        (Inr (RInt n), s') \<Rightarrow> (Inr n, s')
      | (Inr _, s') \<Rightarrow> (Inl (RedisErr type_error), s')
      | (Inl e, s') \<Rightarrow> (Inl (RedisErr e), s'))"

subsection \<open>The idempotency guard\<close>

datatype idemp_claim_outcome = Fresh | MineAgain | Duplicate string

definition BACKSTOP_GRACE_MS :: u64 where
  "BACKSTOP_GRACE_MS = 2000"

definition IDEMP_CLAIM_LUA :: "(redis_cmd \<Rightarrow> 's \<Rightarrow> reply \<times> 's) \<Rightarrow> string \<Rightarrow> string \<Rightarrow> u64 \<Rightarrow> u64 \<Rightarrow> 's
    \<Rightarrow> reply \<times> 's" where
  "IDEMP_CLAIM_LUA call key task_id ttl_s ttl_ms s =
     (case call (SET_NX_EX key task_id ttl_s) s of
        (Inl e, s1) \<Rightarrow> (Inl e, s1)
      | (Inr ok, s1) \<Rightarrow>
          if ok \<noteq> RNil then (Inr (RPair 1 ''''), s1)
          else (case call (GET key) s1 of
                  (Inl e, s2) \<Rightarrow> (Inl e, s2)
                | (Inr cur, s2) \<Rightarrow>
                    if cur = RStr task_id
                    then (case call (PEXPIRE key ttl_ms) s2 of
                            (Inl e, s3) \<Rightarrow> (Inl e, s3)
                          | (Inr _, s3) \<Rightarrow> (Inr (RPair 2 ''''), s3))
                    else (Inr (RPair 0 (case cur of RStr h \<Rightarrow> h | _ \<Rightarrow> '''')), s2)))"

definition claim_ttl_s :: "u64 \<Rightarrow> u64 \<Rightarrow> u64" where
  "claim_ttl_s idemp_ttl_s timeout_ms =
     max idemp_ttl_s (div_ceil (sat_add timeout_ms BACKSTOP_GRACE_MS) 1000)"

definition idemp_claim :: "'s world \<Rightarrow> (string \<Rightarrow> u8 list) \<Rightarrow> string \<Rightarrow> string \<Rightarrow> u64 \<Rightarrow> u64 \<Rightarrow> 's
    \<Rightarrow> (broker_error, idemp_claim_outcome) result \<times> 's" where
  "idemp_claim W sha256 key task_id idemp_ttl_s timeout_ms s =
     (let ttl_s = claim_ttl_s idemp_ttl_s timeout_ms
      in case w_eval W (IDEMP_CLAIM_LUA (w_call W) (idemp_key sha256 key) task_id ttl_s (sat_mul ttl_s 1000)) s of
           (Inr (RPair code holder), s') \<Rightarrow>
             (Inr (if code = 1 then Fresh else if code = 2 then MineAgain else Duplicate holder), s')
         | (Inr _, s') \<Rightarrow> (Inl (RedisErr type_error), s')
         | (Inl e, s') \<Rightarrow> (Inl (RedisErr e), s'))"

subsection \<open>Completion buffers\<close>

record ack_req =
  ar_stream_id :: string
  ar_extra :: "redis_cmd list"

type_synonym flush_outcome = "(redis_error, unit) result"

definition ack_pipeline :: "string \<Rightarrow> string list \<Rightarrow> redis_cmd list" where
  "ack_pipeline queue stream_ids =
     [XACK (q_key queue) ''cauli'' stream_ids, XDEL (q_key queue) stream_ids]"

text \<open>\<open>query_async::<()>\<close> on a pipeline: the first error reply, if any, is the result.\<close>

fun first_error :: "reply list \<Rightarrow> redis_error option" where
  "first_error [] = None"
| "first_error (Inl e # rs) = Some e"
| "first_error (Inr _ # rs) = first_error rs"

definition outcome_of :: "reply list \<Rightarrow> flush_outcome" where
  "outcome_of rs = (case first_error rs of None \<Rightarrow> Inr () | Some e \<Rightarrow> Inl e)"

text \<open>The reply loop: \<open>owner\<close> names the request each command belongs to, the first error of a
  request sticks.\<close>

fun mark_replies :: "(nat \<times> reply) list \<Rightarrow> flush_outcome list \<Rightarrow> flush_outcome list" where
  "mark_replies [] outs = outs"
| "mark_replies ((i, reply) # rest) outs =
     mark_replies rest
       (case (reply, outs ! i) of (Inl e, Inr _) \<Rightarrow> outs[i := Inl e] | _ \<Rightarrow> outs)"

fun owners :: "nat \<Rightarrow> ack_req list \<Rightarrow> nat list" where
  "owners i [] = []"
| "owners i (r # rs) = replicate (length (ar_extra r)) i @ owners (Suc i) rs"

definition flush_batch :: "'s world \<Rightarrow> string \<Rightarrow> ack_req list \<Rightarrow> 's \<Rightarrow> flush_outcome list \<times> 's" where
  "flush_batch W queue batch s =
     (let writes = concat (map ar_extra batch);
          owner = owners 0 batch;
          reqs = replicate (length batch) (Inr ());
          (reqs, s1) =
            (if owner = [] then (reqs, s)
             else case w_pipe W writes s of
                    (Inr replies, s1) \<Rightarrow> (mark_replies (zip owner replies) reqs, s1)
                  | (Inl e, s1) \<Rightarrow> (map (\<lambda>_. Inl e) reqs, s1));
          written = map (ar_stream_id \<circ> fst) (filter (\<lambda>p. snd p = Inr ()) (zip batch reqs))
      in if written = [] then (reqs, s1)
         else let (r, s2) = w_pipe W (ack_pipeline queue written) s1;
                  outcome = (case r of Inl e \<Rightarrow> Inl e | Inr rs \<Rightarrow> outcome_of rs)
              in (map (\<lambda>o1. if o1 = Inr () then outcome else o1) reqs, s2))"

text \<open>What the flusher task receives: a request, the end of the flush window, or the end of all
  senders. \<open>fill_batch\<close> is its inner loop, \<open>flusher\<close> the outer one; it returns the batches flushed.\<close>

datatype 'a recv = Arrived 'a | Window | SendersGone

fun fill_batch :: "nat \<Rightarrow> 'a list \<Rightarrow> 'a recv list \<Rightarrow> 'a list \<times> 'a recv list" where
  "fill_batch max_batch batch [] = (batch, [])"
| "fill_batch max_batch batch (ev # evs) =
     (if length batch < max_batch
      then (case ev of
              Arrived r \<Rightarrow> fill_batch max_batch (batch @ [r]) evs
            | Window \<Rightarrow> (batch, evs)
            | SendersGone \<Rightarrow> (batch, ev # evs))
      else (batch, ev # evs))"

lemma fill_batch_length: "length (snd (fill_batch m b evs)) \<le> length evs"
  by (induction m b evs rule: fill_batch.induct) (auto split: recv.splits)

function flusher :: "'s world \<Rightarrow> string \<Rightarrow> nat \<Rightarrow> ack_req recv list \<Rightarrow> 's
    \<Rightarrow> (ack_req list \<times> flush_outcome list) list \<times> 's" where
  "flusher W queue max_batch [] s = ([], s)"
| "flusher W queue max_batch (SendersGone # evs) s = ([], s)"
| "flusher W queue max_batch (Window # evs) s = flusher W queue max_batch evs s"
| "flusher W queue max_batch (Arrived first # evs) s =
     (let (batch, rest) = fill_batch max_batch [first] evs;
          (outs, s1) = flush_batch W queue batch s;
          (more, s2) = flusher W queue max_batch rest s1
      in ((batch, outs) # more, s2))"
  by pat_completeness auto
termination
proof (relation "measure (\<lambda>(W, q, m, evs, s). length evs)", goal_cases)
  case (3 W queue max_batch first evs s x xa y)
  then have "length y \<le> length evs" by (metis fill_batch_length snd_conv)
  then show ?case by simp
qed auto

text \<open>
  \<open>AckBufs\<close>: one flusher per queue. A submitted completion is flushed as part of some batch;
  \<open>ab_peers\<close> gives the requests ahead of it and behind it in that batch. \<open>AckBufs::start\<close> clamps
  the batch size and sizes the channel.
\<close>

record 's ack_bufs =
  ab_queues :: "string list"
  ab_batch :: nat
  ab_channel :: nat
  ab_peers :: "string \<Rightarrow> 's \<Rightarrow> ack_req list \<times> ack_req list"

definition AckBufs_start :: "(string \<Rightarrow> 's \<Rightarrow> ack_req list \<times> ack_req list) \<Rightarrow> string list \<Rightarrow> nat \<Rightarrow> 's ack_bufs" where
  "AckBufs_start peers queues batch =
     (let batch = max batch 1
      in \<lparr>ab_queues = queues, ab_batch = batch, ab_channel = max (min (batch * 4) (2 ^ 64 - 1)) 256,
          ab_peers = peers\<rparr>)"

definition submit :: "'s world \<Rightarrow> 's ack_bufs \<Rightarrow> string \<Rightarrow> string \<Rightarrow> redis_cmd list \<Rightarrow> 's
    \<Rightarrow> (broker_error, unit) result \<times> 's" where
  "submit W bufs queue stream_id extra s =
     (if queue \<notin> set (ab_queues bufs)
      then (Inl (Msg (''no completion buffer for queue '' @ queue)), s)
      else let (ahead, behind) = ab_peers bufs queue s;
               req = \<lparr>ar_stream_id = stream_id, ar_extra = extra\<rparr>;
               (outs, s1) = flush_batch W queue (ahead @ req # behind) s
           in (case outs ! length ahead of
                 Inr _ \<Rightarrow> Inr ()
               | Inl e \<Rightarrow> Inl (Msg (''completion flush failed: '' @ err_text e)), s1))"

subsection \<open>Completions\<close>

text \<open>
  The \<open>finish_*\<close> functions build an outcome's own writes and hand them to the completion buffer,
  which is their parameter \<open>sub\<close> (the \<open>submit\<close> above): queue, stream id, commands.
\<close>

type_synonym 's submitter = "string \<Rightarrow> string \<Rightarrow> redis_cmd list \<Rightarrow> 's \<Rightarrow> (broker_error, unit) result \<times> 's"

definition finish_success :: "'s submitter \<Rightarrow> string \<Rightarrow> string \<Rightarrow> string \<Rightarrow> string option \<Rightarrow> u64 \<Rightarrow> 's
    \<Rightarrow> (broker_error, unit) result \<times> 's" where
  "finish_success sub queue stream_id task_id result_json result_ttl_s =
     sub queue stream_id
       (case result_json of None \<Rightarrow> [] | Some rj \<Rightarrow> [SET_EX (result_key task_id) rj result_ttl_s])"

definition finish_duplicate :: "'s submitter \<Rightarrow> string \<Rightarrow> string \<Rightarrow> string \<Rightarrow> string option \<Rightarrow> u64 \<Rightarrow> 's
    \<Rightarrow> (broker_error, unit) result \<times> 's" where
  "finish_duplicate sub queue stream_id task_id result_json result_ttl_s =
     finish_success sub queue stream_id task_id result_json result_ttl_s"

definition finish_retry :: "'s submitter \<Rightarrow> string \<Rightarrow> string \<Rightarrow> string \<Rightarrow> u64 \<Rightarrow> 's
    \<Rightarrow> (broker_error, unit) result \<times> 's" where
  "finish_retry sub queue stream_id envelope_json fire_at_ms =
     sub queue stream_id [ZADD (delayed_key queue) fire_at_ms envelope_json]"

definition DLQ_MAXLEN :: u64 where
  "DLQ_MAXLEN = 1000"

definition DLQ_TTL_S :: u64 where
  "DLQ_TTL_S = 7 * 24 * 60 * 60"

text \<open>\<open>error_field\<close> is the serialized error object, empty when there is none.\<close>

definition finish_dlq :: "'s submitter \<Rightarrow> string \<Rightarrow> string \<Rightarrow> string \<Rightarrow> string \<Rightarrow> string
    \<Rightarrow> (string \<times> string \<times> u64) option \<Rightarrow> 's \<Rightarrow> (broker_error, unit) result \<times> 's" where
  "finish_dlq sub queue stream_id envelope_json reason error_field store =
     sub queue stream_id
       ([XADD_MAXLEN (dlq_key queue) DLQ_MAXLEN
           [(''e'', envelope_json), (''reason'', reason), (''error'', error_field)],
         EXPIRE (dlq_key queue) DLQ_TTL_S]
        @ (case store of None \<Rightarrow> [] | Some (task_id, rj, ttl) \<Rightarrow> [SET_EX (result_key task_id) rj ttl]))"

subsection \<open>Stream ids and the trim boundary\<close>

text \<open>\<open>parse_stream_id\<close> (ctx.rs) and \<open>stream_id_after\<close>.\<close>

definition parse_stream_id :: "string \<Rightarrow> stream_id option" where
  "parse_stream_id i =
     (case split_once CHR ''-'' i of
        None \<Rightarrow> None
      | Some (ms, sq) \<Rightarrow>
          (case parse_u64 ms of
             None \<Rightarrow> None
           | Some m \<Rightarrow> (case parse_u64 sq of None \<Rightarrow> None | Some q \<Rightarrow> Some (m, q))))"

definition stream_id_after :: "string \<Rightarrow> string option" where
  "stream_id_after i =
     (case parse_stream_id i of
        None \<Rightarrow> None
      | Some (ms, sq) \<Rightarrow>
          Some (case checked_add sq 1 of
                  Some nxt \<Rightarrow> show_u64 ms @ ''-'' @ show_u64 nxt
                | None \<Rightarrow> i))"

definition oldest_pending_id :: "'s world \<Rightarrow> string \<Rightarrow> 's \<Rightarrow> (broker_error, string option) result \<times> 's" where
  "oldest_pending_id W queue s =
     (case w_query W (XPENDING (q_key queue) ''cauli'' ''-'' ''+'' 1) s of
        (Inr (RPending r), s') \<Rightarrow> (Inr (case r of [] \<Rightarrow> None | p # _ \<Rightarrow> Some (fst p)), s')
      | (Inr _, s') \<Rightarrow> (Inl (RedisErr type_error), s')
      | (Inl e, s') \<Rightarrow> (Inl (RedisErr e), s'))"

definition acked_below :: "'s world \<Rightarrow> string \<Rightarrow> 's \<Rightarrow> (broker_error, string option) result \<times> 's" where
  "acked_below W queue s =
     (case w_query W (XINFO_GROUPS (q_key queue)) s of
        (Inl e, s1) \<Rightarrow> (Inl (RedisErr e), s1)
      | (Inr (RGroups groups), s1) \<Rightarrow>
          (case List.find (\<lambda>g. fst g = ''cauli'') groups of
             None \<Rightarrow> (Inr None, s1)
           | Some (_, last_delivered_id) \<Rightarrow>
               (case oldest_pending_id W queue s1 of
                  (Inl e, s2) \<Rightarrow> (Inl e, s2)
                | (Inr (Some oldest), s2) \<Rightarrow> (Inr (Some oldest), s2)
                | (Inr None, s2) \<Rightarrow>
                    if last_delivered_id = ''0-0'' then (Inr None, s2)
                    else (Inr (stream_id_after last_delivered_id), s2)))
      | (Inr _, s1) \<Rightarrow> (Inl (RedisErr type_error), s1))"

definition trim_acked :: "'s world \<Rightarrow> string \<Rightarrow> string \<Rightarrow> 's \<Rightarrow> (broker_error, int) result \<times> 's" where
  "trim_acked W queue boundary s =
     (case w_query W (XTRIM_MINID (q_key queue) boundary) s of
        (Inr (RInt n), s') \<Rightarrow> (Inr n, s')
      | (Inr _, s') \<Rightarrow> (Inl (RedisErr type_error), s')
      | (Inl e, s') \<Rightarrow> (Inl (RedisErr e), s'))"

definition oldest_undelivered_id :: "'s world \<Rightarrow> string \<Rightarrow> 's \<Rightarrow> (broker_error, string option) result \<times> 's" where
  "oldest_undelivered_id W queue s =
     (case w_query W (XINFO_GROUPS (q_key queue)) s of
        (Inl e, s1) \<Rightarrow> (Inl (RedisErr e), s1)
      | (Inr (RGroups groups), s1) \<Rightarrow>
          (case List.find (\<lambda>g. fst g = ''cauli'') groups of
             None \<Rightarrow> (Inr None, s1)
           | Some (_, last_delivered_id) \<Rightarrow>
               (case w_query W (XRANGE (q_key queue) (''('' @ last_delivered_id) ''+'' (Some 1)) s1 of
                  (Inr (REntries es), s2) \<Rightarrow> (Inr (case es of [] \<Rightarrow> None | e # _ \<Rightarrow> Some (fst e)), s2)
                | (Inr _, s2) \<Rightarrow> (Inl (RedisErr type_error), s2)
                | (Inl e, s2) \<Rightarrow> (Inl (RedisErr e), s2)))
      | (Inr _, s1) \<Rightarrow> (Inl (RedisErr type_error), s1))"

subsection \<open>Recovery reads\<close>

definition xpending_idle :: "'s world \<Rightarrow> string \<Rightarrow> u64 \<Rightarrow> string \<Rightarrow> nat \<Rightarrow> 's
    \<Rightarrow> (broker_error, (string \<times> string \<times> u64 \<times> u64) list) result \<times> 's" where
  "xpending_idle W queue min_idle_ms start count s =
     (case w_query W (XPENDING_IDLE (q_key queue) ''cauli'' min_idle_ms start ''+'' count) s of
        (Inr (RPending r), s') \<Rightarrow> (Inr r, s')
      | (Inr _, s') \<Rightarrow> (Inl (RedisErr type_error), s')
      | (Inl e, s') \<Rightarrow> (Inl (RedisErr e), s'))"

definition raw_e_field :: "(string \<times> string) list \<Rightarrow> string option" where
  "raw_e_field fs = map_of (rev fs) ''e''"

text \<open>Per entry of a pipelined reply: absent, or present with its \<open>e\<close> field if it has one.\<close>

fun reply_entries :: "reply list \<Rightarrow> (redis_error, (string \<times> (string \<times> string) list) list list) result" where
  "reply_entries [] = Inr []"
| "reply_entries (Inl e # rs) = Inl e"
| "reply_entries (Inr (REntries es) # rs) =
     (case reply_entries rs of Inl e \<Rightarrow> Inl e | Inr ess \<Rightarrow> Inr (es # ess))"
| "reply_entries (Inr _ # rs) = Inl type_error"

definition pick_entry :: "string \<Rightarrow> (string \<times> (string \<times> string) list) list \<Rightarrow> string option option" where
  "pick_entry entry_id es =
     map_option (\<lambda>e. raw_e_field (snd e)) (List.find (\<lambda>e. fst e = entry_id) es)"

definition entries_of_pipe :: "'s world \<Rightarrow> redis_cmd list \<Rightarrow> string list \<Rightarrow> 's
    \<Rightarrow> (broker_error, string option option list) result \<times> 's" where
  "entries_of_pipe W cmds entry_ids s =
     (case w_pipe W cmds s of
        (Inl e, s') \<Rightarrow> (Inl (RedisErr e), s')
      | (Inr rs, s') \<Rightarrow>
          (case reply_entries rs of
             Inl e \<Rightarrow> (Inl (RedisErr e), s')
           | Inr ess \<Rightarrow> (Inr (map (\<lambda>(i, es). pick_entry i es) (zip entry_ids ess)), s')))"

definition peek_entries :: "'s world \<Rightarrow> string \<Rightarrow> string list \<Rightarrow> 's
    \<Rightarrow> (broker_error, string option option list) result \<times> 's" where
  "peek_entries W queue entry_ids s =
     (if entry_ids = [] then (Inr [], s)
      else entries_of_pipe W (map (\<lambda>i. XRANGE (q_key queue) i i None) entry_ids) entry_ids s)"

definition xclaim_entries :: "'s world \<Rightarrow> string \<Rightarrow> string \<Rightarrow> u64 \<Rightarrow> string list \<Rightarrow> 's
    \<Rightarrow> (broker_error, string option option list) result \<times> 's" where
  "xclaim_entries W queue consumer min_idle_ms entry_ids s =
     entries_of_pipe W
       (map (\<lambda>i. XCLAIM (q_key queue) ''cauli'' consumer min_idle_ms i) entry_ids) entry_ids s"

section \<open>Correctness of the broker primitives\<close>

subsection \<open>Flushing a batch\<close>

text \<open>The replies of a batch, cut into each request's own; the reference reading of a flush.\<close>

fun split_replies :: "ack_req list \<Rightarrow> reply list \<Rightarrow> reply list list" where
  "split_replies [] rs = []"
| "split_replies (r # b) rs =
     take (length (ar_extra r)) rs # split_replies b (drop (length (ar_extra r)) rs)"

lemma length_split_replies [simp]: "length (split_replies b rs) = length b"
  by (induction b arbitrary: rs) auto

lemma length_owners: "length (owners i b) = length (concat (map ar_extra b))"
  by (induction b arbitrary: i) auto

lemma owners_Nil: "owners i b = [] \<longleftrightarrow> concat (map ar_extra b) = []"
  by (metis length_0_conv length_owners)

lemma mark_replies_append: "mark_replies (xs @ ys) outs = mark_replies ys (mark_replies xs outs)"
  by (induction xs arbitrary: outs) auto

lemma mark_replies_stuck:
  "i < length outs \<Longrightarrow> outs ! i = Inl e \<Longrightarrow>
     mark_replies (zip (replicate n i) rs) outs = outs"
proof (induction n arbitrary: rs)
  case (Suc n)
  then show ?case by (cases rs) (auto split: sum.splits)
qed simp

lemma mark_replies_one:
  assumes "i < length outs" "outs ! i = Inr ()"
  shows "mark_replies (zip (replicate n i) rs) outs = outs[i := outcome_of (take n rs)]"
  using assms
proof (induction n arbitrary: rs outs)
  case 0
  then show ?case using list_update_id [of outs i] by (simp add: outcome_of_def)
next
  case (Suc n)
  show ?case
  proof (cases rs)
    case Nil
    then show ?thesis using Suc.prems list_update_id [of outs i] by (simp add: outcome_of_def)
  next
    case (Cons r rest)
    show ?thesis
    proof (cases r)
      case (Inl e)
      then have "mark_replies (zip (replicate n i) rest) (outs[i := Inl e]) = outs[i := Inl e]"
        using Suc.prems by (intro mark_replies_stuck [of _ _ e]) auto
      then show ?thesis using Cons Inl Suc.prems by (simp add: outcome_of_def)
    next
      case (Inr v)
      then show ?thesis using Cons Suc by (simp add: outcome_of_def)
    qed
  qed
qed

lemma mark_replies_batch:
  assumes "length rs = length (concat (map ar_extra b))" "length done = i"
  shows "mark_replies (zip (owners i b) rs) (done @ replicate (length b) (Inr ()))
         = done @ map outcome_of (split_replies b rs)"
  using assms
proof (induction b arbitrary: i rs "done")
  case (Cons r b)
  let ?n = "length (ar_extra r)"
  have "zip (owners i (r # b)) rs =
      zip (replicate ?n i) (take ?n rs) @ zip (owners (Suc i) b) (drop ?n rs)"
    using Cons.prems by (subst append_take_drop_id [of ?n rs, symmetric], subst owners.simps)
      (simp add: zip_append2 flip: append_take_drop_id)
  moreover have "mark_replies (zip (replicate ?n i) (take ?n rs)) (done @ Inr () # replicate (length b) (Inr ()))
      = (done @ [outcome_of (take ?n rs)]) @ replicate (length b) (Inr ())"
    using Cons.prems by (subst mark_replies_one) (auto simp: nth_append list_update_append)
  ultimately show ?case
    using Cons.IH [of "drop ?n rs" "done @ [outcome_of (take ?n rs)]" "Suc i"] Cons.prems
    by (simp add: mark_replies_append)
qed simp

text \<open>
  The same world, with every pipeline it is asked to send recorded in order.
\<close>

definition logged :: "'s world \<Rightarrow> ('s \<times> redis_cmd list list) world" where
  "logged W =
     \<lparr>w_query = (\<lambda>c (s, l). let (r, s') = w_query W c s in (r, (s', l @ [[c]]))),
      w_pipe = (\<lambda>cs (s, l). let (r, s') = w_pipe W cs s in (r, (s', l @ [cs]))),
      w_call = (\<lambda>c (s, l). let (r, s') = w_call W c s in (r, (s', l))),
      w_eval = (\<lambda>f (s, l). f (s, l)),
      w_now = (\<lambda>(s, l). let (t, s') = w_now W s in (t, (s', l)))\<rparr>"

definition landed :: "ack_req list \<Rightarrow> flush_outcome list \<Rightarrow> string list" where
  "landed batch outs = map (ar_stream_id \<circ> fst) (filter (\<lambda>p. snd p = Inr ()) (zip batch outs))"

text \<open>The second round trip, given each request's own outcome.\<close>

definition flush_tail :: "'s world \<Rightarrow> string \<Rightarrow> ack_req list \<Rightarrow> flush_outcome list \<Rightarrow> 's
    \<Rightarrow> flush_outcome list \<times> 's" where
  "flush_tail W queue batch own s1 =
     (if landed batch own = [] then (own, s1)
      else let (r, s2) = w_pipe W (ack_pipeline queue (landed batch own)) s1;
               outcome = (case r of Inl e \<Rightarrow> Inl e | Inr rs \<Rightarrow> outcome_of rs)
           in (map (\<lambda>o1. if o1 = Inr () then outcome else o1) own, s2))"

lemma flush_batch_unfold:
  "flush_batch W queue batch s =
     (let writes = concat (map ar_extra batch)
      in if writes = [] then flush_tail W queue batch (replicate (length batch) (Inr ())) s
         else case w_pipe W writes s of
                (Inl e, s1) \<Rightarrow> (replicate (length batch) (Inl e), s1)
              | (Inr replies, s1) \<Rightarrow>
                  flush_tail W queue batch (mark_replies (zip (owners 0 batch) replies) (replicate (length batch) (Inr ()))) s1)"
proof -
  have none: "landed batch (replicate (length batch) (Inl e)) = []" for e
    by (auto simp: landed_def zip_replicate2)
  show ?thesis
    unfolding flush_batch_def flush_tail_def landed_def [symmetric] owners_Nil Let_def
    using none by (auto simp: landed_def comp_def split: prod.splits sum.splits)
qed

lemma flush_batch_replies:
  assumes "w_pipe W (concat (map ar_extra batch)) s = (Inr replies, s1)"
    and "length replies = length (concat (map ar_extra batch))"
    and "concat (map ar_extra batch) \<noteq> []"
  shows "flush_batch W queue batch s =
           flush_tail W queue batch (map outcome_of (split_replies batch replies)) s1"
  using mark_replies_batch [OF assms(2), of "[]" 0] assms(3)
  by (simp only: flush_batch_unfold Let_def assms(1) if_False prod.case sum.case list.size append_Nil)

lemma flush_tail_length [simp]: "length (fst (flush_tail W q b own s)) = length own"
  by (auto simp: flush_tail_def Let_def split: prod.splits)

lemma flush_tail_Inl: "i < length own \<Longrightarrow> own ! i = Inl e \<Longrightarrow> fst (flush_tail W q b own s) ! i = Inl e"
  by (auto simp: flush_tail_def Let_def split: prod.splits)

lemma mark_replies_length [simp]: "length (mark_replies rs outs) = length outs"
  by (induction rs arbitrary: outs) (auto split: sum.splits)

lemma flush_batch_length: "length (fst (flush_batch W q batch s)) = length batch"
  by (auto simp: flush_batch_unfold Let_def split: prod.splits sum.splits)

lemma outcome_of_ok: "outcome_of rs = Inr () \<longleftrightarrow> (\<forall>r\<in>set rs. \<not> isl r)"
  by (induction rs rule: first_error.induct) (auto simp: outcome_of_def)

lemma landed_replicate: "landed batch (replicate (length batch) (Inr ())) = map ar_stream_id batch"
  by (induction batch) (auto simp: landed_def)

lemma landed_outcomes:
  "landed batch (map outcome_of (split_replies batch rs)) =
     map (ar_stream_id \<circ> fst) (filter (\<lambda>p. \<forall>r\<in>set (snd p). \<not> isl r) (zip batch (split_replies batch rs)))"
  by (simp add: landed_def zip_map2 filter_map comp_def outcome_of_ok case_prod_beta)

lemma logged_pipe [simp]:
  "w_pipe (logged W) cs (s, l) = (let (r, s') = w_pipe W cs s in (r, (s', l @ [cs])))"
  by (simp add: logged_def)

lemma flush_tail_logged:
  "snd (snd (flush_tail (logged W) q batch own (s, l))) =
     l @ (if landed batch own = [] then [] else [ack_pipeline q (landed batch own)])"
  by (auto simp: flush_tail_def Let_def split: prod.splits)

text \<open>
  C2. A flush sends at most two pipelines, in this order: first the buffered completions' own
  writes; then one \<open>XACK\<close> followed by one \<open>XDEL\<close>, which name exactly the entries whose own writes
  were all accepted. When the first pipeline fails as a whole nothing is acknowledged, so every
  entry stays pending for redelivery. No entry is acknowledged before its retry, dead letter or
  result write has been answered.
\<close>

theorem flush_acks_exactly_the_written:
  assumes conn: "redis_conn W env"
  shows "snd (snd (flush_batch (logged W) queue batch (s, []))) =
    (let writes = concat (map ar_extra batch);
         ack = (\<lambda>ids. if ids = [] then []
                      else [[XACK (q_key queue) ''cauli'' ids, XDEL (q_key queue) ids]])
     in if writes = [] then ack (map ar_stream_id batch)
        else case fst (w_pipe W writes s) of
               Inl e \<Rightarrow> [writes]
             | Inr replies \<Rightarrow> [writes] @
                 ack (map (ar_stream_id \<circ> fst)
                        (filter (\<lambda>p. \<forall>r\<in>set (snd p). \<not> isl r) (zip batch (split_replies batch replies)))))"
proof -
  let ?ws = "concat (map ar_extra batch)"
  obtain r s1 where p: "w_pipe W ?ws s = (r, s1)" by fastforce
  show ?thesis
  proof (cases "?ws = []")
    case True
    then show ?thesis
      by (simp only: flush_batch_unfold Let_def if_True flush_tail_logged landed_replicate
          ack_pipeline_def append_Nil simp_thms)
  next
    case False
    show ?thesis
    proof (cases r)
      case (Inl e)
      with p False show ?thesis
        by (simp only: flush_batch_unfold Let_def if_False logged_pipe prod.case sum.case fst_conv snd_conv append_Nil)
    next
      case (Inr replies)
      have len: "length replies = length ?ws" using redis_conn.pipe_len [OF conn] p Inr by blast
      have "w_pipe (logged W) ?ws (s, []) = (Inr replies, (s1, [?ws]))" using p Inr by simp
      from flush_batch_replies [OF this len False] show ?thesis
        using p Inr False
        by (simp only: flush_tail_logged landed_outcomes Let_def if_False fst_conv sum.case ack_pipeline_def)
    qed
  qed
qed

definition demo_batch :: "ack_req list" where
  "demo_batch = [\<lparr>ar_stream_id = ''5-0'', ar_extra = [ZADD ''cauli:delayed:q'' 9 ''{}'']\<rparr>,
                 \<lparr>ar_stream_id = ''6-0'', ar_extra = [GET ''x'', TIME]\<rparr>]"

theorem flush_acks_exactly_the_written_witness:
  "snd (snd (flush_batch (logged mem_world) ''q'' demo_batch (empty_mem 7, []))) =
     [[ZADD ''cauli:delayed:q'' 9 ''{}'', GET ''x'', TIME],
      [XACK ''cauli:q:q'' ''cauli'' [''5-0'', ''6-0''], XDEL ''cauli:q:q'' [''5-0'', ''6-0'']]]"
  unfolding flush_acks_exactly_the_written [OF mem_conn.redis_conn_axioms]
  by (simp add: demo_batch_def mem_world_def Let_def q_key_def)

text \<open>
  Every buffered completion is answered exactly once, and with success only when its own
  writes were all accepted and the acknowledging pipeline reported no error; otherwise it gets
  its own first error, or the error of the acknowledgement.
\<close>

theorem flush_answers_truthfully:
  assumes conn: "redis_conn W env" and "i < length batch"
    and pipe: "w_pipe W (concat (map ar_extra batch)) s = (Inr replies, s1)"
    and nonempty: "concat (map ar_extra batch) \<noteq> []"
  shows "length (fst (flush_batch W queue batch s)) = length batch
    \<and> fst (flush_batch W queue batch s) ! i =
        (case outcome_of (split_replies batch replies ! i) of
           Inl e \<Rightarrow> Inl e
         | Inr _ \<Rightarrow>
             (case fst (w_pipe W (ack_pipeline queue (landed batch (map outcome_of (split_replies batch replies)))) s1) of
                Inl e \<Rightarrow> Inl e
              | Inr rs \<Rightarrow> outcome_of rs))"
proof -
  let ?own = "map outcome_of (split_replies batch replies)"
  have len: "length replies = length (concat (map ar_extra batch))"
    using redis_conn.pipe_len [OF conn pipe] .
  have fb: "flush_batch W queue batch s = flush_tail W queue batch ?own s1"
    using flush_batch_replies [OF pipe len nonempty] .
  have ne: "landed batch ?own \<noteq> []" if "outcome_of (split_replies batch replies ! i) = Inr ()"
  proof -
    have "(batch ! i, ?own ! i) \<in> set (zip batch ?own)"
      using assms(2) by (intro in_set_zip [THEN iffD2]) (auto intro!: exI [of _ i])
    then show ?thesis using that assms(2) by (force simp: landed_def filter_empty_conv)
  qed
  show ?thesis
    unfolding fb using assms(2) ne
    by (auto simp: flush_tail_def Let_def split: prod.splits sum.splits)
qed

theorem flush_answers_truthfully_witness:
  "length (fst (flush_batch mem_world ''q'' demo_batch (empty_mem 7))) = 2
   \<and> fst (flush_batch mem_world ''q'' demo_batch (empty_mem 7)) ! 1 = Inr ()"
proof -
  have "w_pipe mem_world (concat (map ar_extra demo_batch)) (empty_mem 7)
      = (Inr [Inr (RInt 1), Inr RNil, Inr (RTime 0 7000)],
         snd (w_pipe mem_world (concat (map ar_extra demo_batch)) (empty_mem 7)))"
    by (simp add: demo_batch_def mem_world_def empty_mem_def)
  from flush_answers_truthfully [OF mem_conn.redis_conn_axioms _ this, of 1 "''q''"]
  show ?thesis
    by (simp add: demo_batch_def outcome_of_def mem_world_def ack_pipeline_def Let_def)
qed

subsection \<open>The flusher\<close>

fun arrivals :: "'a recv list \<Rightarrow> 'a list" where
  "arrivals [] = []"
| "arrivals (Arrived r # evs) = r # arrivals evs"
| "arrivals (Window # evs) = arrivals evs"
| "arrivals (SendersGone # evs) = []"

lemma fill_batch_keeps:
  "fill_batch m b evs = (b', rest) \<Longrightarrow>
     b' @ arrivals rest = b @ arrivals evs \<and> length b' \<le> max m (length b) \<and> length b \<le> length b'"
proof (induction m b evs rule: fill_batch.induct)
  case (2 m b ev evs)
  then show ?case by (cases ev) (fastforce split: if_splits)+
qed simp

text \<open>
  The flusher loses and reorders nothing: the batches it flushes, joined, are the requests it
  received before its senders went away, in order; no batch is empty or exceeds the batch size,
  and every request in a batch gets an answer.
\<close>

theorem flusher_partitions_requests:
  assumes "0 < max_batch"
  shows "concat (map fst (fst (flusher W queue max_batch evs s))) = arrivals evs
    \<and> (\<forall>(batch, outs)\<in>set (fst (flusher W queue max_batch evs s)).
          batch \<noteq> [] \<and> length batch \<le> max_batch \<and> length outs = length batch)"
  using assms
proof (induction W queue max_batch evs s rule: flusher.induct)
  case (4 W queue max_batch first evs s)
  obtain batch rest where fb: "fill_batch max_batch [first] evs = (batch, rest)" by fastforce
  obtain outs s1 where fl: "flush_batch W queue batch s = (outs, s1)" by fastforce
  obtain more s2 where rec: "flusher W queue max_batch rest s1 = (more, s2)" by fastforce
  have eq: "fst (flusher W queue max_batch (Arrived first # evs) s) = (batch, outs) # more"
    by (simp add: fb fl rec)
  have outs: "length outs = length batch" using flush_batch_length [of W queue batch s] fl by simp
  have fk: "batch @ arrivals rest = first # arrivals evs" "batch \<noteq> []" "length batch \<le> max_batch"
    using fill_batch_keeps [OF fb] "4.prems" by auto
  note IH = "4.IH" [OF fb [symmetric] refl fl [symmetric] refl "4.prems", unfolded rec fst_conv]
  show ?case unfolding eq using IH fk outs by auto
qed auto

theorem flusher_partitions_requests_witness:
  "concat (map fst (fst (flusher mem_world ''q'' 2
      [Arrived (demo_batch ! 0), Arrived (demo_batch ! 1), Arrived (demo_batch ! 0), Window] (empty_mem 7))))
   = [demo_batch ! 0, demo_batch ! 1, demo_batch ! 0]"
  using flusher_partitions_requests [of 2 mem_world "''q''"
      "[Arrived (demo_batch ! 0), Arrived (demo_batch ! 1), Arrived (demo_batch ! 0), Window]" "empty_mem 7"]
  by simp

subsection \<open>The delayed mover loses nothing\<close>

context delayed_store
begin

definition carries :: "'s \<Rightarrow> string \<Rightarrow> string \<Rightarrow> string \<Rightarrow> bool" where
  "carries s k1 k2 e \<longleftrightarrow> zscore s k1 e \<noteq> None \<or> [(''e'', e)] \<in> set (backlog s k2)"

lemma mover_moves_keeps:
  "mover_moves (w_call W) k1 k2 due s = (r, s') \<Longrightarrow> carries s k1 k2 e \<Longrightarrow> carries s' k1 k2 e"
proof (induction due arbitrary: s)
  case (Cons d due)
  obtain a s1 where x: "w_call W (XADD k2 [(''e'', d)]) s = (a, s1)" by fastforce
  show ?case
  proof (cases a)
    case (Inl err)
    then have "s' = s" using Cons.prems x xadd_err by auto
    then show ?thesis using Cons.prems by simp
  next
    case (Inr v)
    note x1 = xadd_ok [OF x [unfolded Inr]]
    obtain b s2 where z: "w_call W (ZREM k1 d) s1 = (b, s2)" by fastforce
    show ?thesis
    proof (cases b)
      case (Inl err)
      then have "s' = s1" using Cons.prems x \<open>a = Inr v\<close> z zrem_err by auto
      then show ?thesis using Cons.prems x1 by (auto simp: carries_def)
    next
      case (Inr w)
      have "carries s2 k1 k2 e"
        using Cons.prems(2) x1 zrem_ok [OF z [unfolded Inr]] by (auto simp: carries_def)
      then show ?thesis using Cons x z \<open>a = Inr v\<close> Inr by auto
    qed
  qed
qed simp

lemma mover_moves_done:
  "mover_moves (w_call W) k1 k2 due s = (None, s') \<Longrightarrow>
     zscore s' = (zscore s)(k1 := \<lambda>m. if m \<in> set due then None else zscore s k1 m)
     \<and> backlog s' = (backlog s)(k2 := backlog s k2 @ map (\<lambda>e. [(''e'', e)]) due)"
proof (induction due arbitrary: s)
  case (Cons d due)
  obtain a s1 where x: "w_call W (XADD k2 [(''e'', d)]) s = (a, s1)" by fastforce
  obtain v where a: "a = Inr v" using Cons.prems x by (cases a) auto
  obtain b s2 where z: "w_call W (ZREM k1 d) s1 = (b, s2)" by fastforce
  obtain w where b: "b = Inr w" using Cons.prems x z a by (cases b) auto
  have "mover_moves (w_call W) k1 k2 due s2 = (None, s')" using Cons.prems x z a b by simp
  from Cons.IH [OF this] xadd_ok [OF x [unfolded a]] zrem_ok [OF z [unfolded b]]
  show ?case by (auto simp: fun_eq_iff)
qed (auto simp: fun_eq_iff)

lemma MOVER_LUA_keeps:
  assumes "MOVER_LUA (w_call W) k1 k2 now limit s = (r, s')" "carries s k1 k2 e"
  shows "carries s' k1 k2 e"
proof -
  obtain a s1 where z: "w_call W (ZRANGEBYSCORE k1 now limit) s = (a, s1)" by fastforce
  show ?thesis
  proof (cases a)
    case (Inl err)
    then have "s' = s" using assms(1) z zrange_err [OF z [unfolded Inl]] by (simp add: MOVER_LUA_def)
    then show ?thesis using assms(2) by simp
  next
    case (Inr v)
    with zrange_ok [OF z [unfolded Inr]] obtain due where d: "s1 = s" "v = RList due" by auto
    obtain x s2 where m: "mover_moves (w_call W) k1 k2 due s = (x, s2)" by fastforce
    have "s' = s2" using assms z Inr d m by (auto simp: MOVER_LUA_def split: option.splits)
    then show ?thesis using mover_moves_keeps [OF m assms(2)] by simp
  qed
qed

lemma MOVER_LUA_moves:
  assumes "MOVER_LUA (w_call W) k1 k2 now limit s = (Inr (RInt n), s')"
  obtains due where "n = int (length due)" "distinct due" "length due \<le> limit"
    "set due \<subseteq> {e. \<exists>sc. zscore s k1 e = Some sc \<and> sc \<le> now}"
    "length due < limit \<longrightarrow> {e. \<exists>sc. zscore s' k1 e = Some sc \<and> sc \<le> now} = {}"
    "zscore s' k1 = (\<lambda>m. if m \<in> set due then None else zscore s k1 m)"
    "backlog s' k2 = backlog s k2 @ map (\<lambda>e. [(''e'', e)]) due"
proof -
  obtain a s1 where z: "w_call W (ZRANGEBYSCORE k1 now limit) s = (a, s1)" by fastforce
  then obtain v where a: "a = Inr v" using assms by (cases a) (auto simp: MOVER_LUA_def)
  from zrange_ok [OF z [unfolded a]] obtain due where d: "s1 = s" "v = RList due" "distinct due"
    "set due \<subseteq> {e. \<exists>sc. zscore s k1 e = Some sc \<and> sc \<le> now}" "length due \<le> limit"
    "length due < limit \<longrightarrow> {e. \<exists>sc. zscore s k1 e = Some sc \<and> sc \<le> now} \<subseteq> set due" by auto
  obtain x s2 where m: "mover_moves (w_call W) k1 k2 due s = (x, s2)" by fastforce
  have x: "x = None" "s' = s2" "n = int (length due)"
    using assms z a d m by (auto simp: MOVER_LUA_def split: option.splits)
  note post = mover_moves_done [OF m [unfolded x(1)]]
  show ?thesis
    by (rule that [of due]) (use d post x in auto)
qed

end

definition demo_delayed :: mem where
  "demo_delayed = snd (run_cmds mem_call
     [ZADD (delayed_key ''q'') 5 ''a'', ZADD (delayed_key ''q'') 7 ''b'', ZADD (delayed_key ''q'') 99 ''c''] (empty_mem 7))"

text \<open>
  C17. A mover run that reports \<open>n\<close> took at most \<open>limit\<close> members off the delayed set, every one of
  them due, appended each exactly once to the queue's stream, and left the rest of the set alone;
  below the limit it leaves nothing due behind.
\<close>

theorem mover_moves_exactly_the_due:
  assumes store: "delayed_store W env zscore backlog"
    and run: "run_mover W queue now_ms limit s = (Inr n, s')"
  shows "\<exists>t due. env s t \<and> n = int (length due) \<and> distinct due \<and> length due \<le> limit
    \<and> set due \<subseteq> {e. \<exists>sc. zscore t (delayed_key queue) e = Some sc \<and> sc \<le> now_ms}
    \<and> (length due < limit \<longrightarrow> {e. \<exists>sc. zscore s' (delayed_key queue) e = Some sc \<and> sc \<le> now_ms} = {})
    \<and> zscore s' (delayed_key queue) = (\<lambda>m. if m \<in> set due then None else zscore t (delayed_key queue) m)
    \<and> backlog s' (q_key queue) = backlog t (q_key queue) @ map (\<lambda>e. [(''e'', e)]) due"
proof -
  let ?f = "MOVER_LUA (w_call W) (delayed_key queue) (q_key queue) now_ms limit"
  have "w_eval W ?f s = (Inr (RInt n), s')"
    using run by (auto simp: run_mover_def split: prod.splits sum.splits redis_value.splits)
  then obtain t where "env s t" and t: "?f t = (Inr (RInt n), s')"
    using redis_conn.eval_ok [OF delayed_store.axioms(1) [OF store]] by blast
  show ?thesis
  proof (rule delayed_store.MOVER_LUA_moves [OF store t], goal_cases)
    case (1 due)
    then show ?case using \<open>env s t\<close> by (intro exI [of _ t] exI [of _ due] conjI)
  qed
qed

theorem mover_moves_exactly_the_due_witness:
  "\<exists>s' t due. run_mover mem_world ''q'' 7 10 demo_delayed = (Inr 2, s') \<and> length due = 2
     \<and> mem_env demo_delayed t
     \<and> set due \<subseteq> {e. \<exists>sc. map_of (mm_zset t (delayed_key ''q'')) e = Some sc \<and> sc \<le> 7}
     \<and> map snd (ms_entries (mm_stream s' (q_key ''q''))) = map (\<lambda>e. [(''e'', e)]) [''a'', ''b'']
     \<and> map_of (mm_zset s' (delayed_key ''q'')) ''c'' = Some 99"
proof -
  obtain s' where r: "run_mover mem_world ''q'' 7 10 demo_delayed = (Inr 2, s')"
    "map snd (ms_entries (mm_stream s' (q_key ''q''))) = [[(''e'', ''a'')], [(''e'', ''b'')]]"
    "map_of (mm_zset s' (delayed_key ''q'')) ''c'' = Some 99"
    by (simp add: run_mover_def mem_world_def MOVER_LUA_def demo_delayed_def zdue_def zrem_def empty_mem_def
        empty_stream_def mem_xadd_def Let_def q_key_def delayed_key_def)
  from mover_moves_exactly_the_due [OF mem_delayed.delayed_store_axioms r(1)]
  obtain t due where "mem_env demo_delayed t" "2 = int (length due)"
    "set due \<subseteq> {e. \<exists>sc. map_of (mm_zset t (delayed_key ''q'')) e = Some sc \<and> sc \<le> 7}" by blast
  with r show ?thesis by (intro exI [of _ s'] exI [of _ t] exI [of _ due]) simp
qed

text \<open>
  C18. Whatever a mover run returns, the broker's errors in the middle of the script and a lost
  reply included, every task on the delayed set or in the stream is afterwards still on one of
  them: the append comes before the removal.
\<close>

theorem mover_never_loses:
  assumes store: "delayed_store W env zscore backlog"
    and run: "run_mover W queue now_ms limit s = (r, s')"
  shows "\<exists>t. env s t \<and> (\<forall>e.
      zscore t (delayed_key queue) e \<noteq> None \<or> [(''e'', e)] \<in> set (backlog t (q_key queue)) \<longrightarrow>
      zscore s' (delayed_key queue) e \<noteq> None \<or> [(''e'', e)] \<in> set (backlog s' (q_key queue)))"
proof -
  let ?f = "MOVER_LUA (w_call W) (delayed_key queue) (q_key queue) now_ms limit"
  note conn = delayed_store.axioms(1) [OF store]
  obtain x where "w_eval W ?f s = (x, s')"
    using run by (cases "w_eval W ?f s") (auto simp: run_mover_def split: sum.splits redis_value.splits)
  then have "env s s' \<or> (\<exists>t x. env s t \<and> ?f t = (x, s'))"
    using redis_conn.eval_ok [OF conn] redis_conn.eval_err [OF conn]
    by (cases x) (metis prod.exhaust_sel)+
  then show ?thesis
    using delayed_store.MOVER_LUA_keeps [OF store] unfolding delayed_store.carries_def [OF store] by meson
qed

theorem mover_never_loses_witness:
  "\<exists>t. mem_env demo_delayed t \<and> (\<forall>e.
      map_of (mm_zset t (delayed_key ''q'')) e \<noteq> None \<or> [(''e'', e)] \<in> set (map snd (ms_entries (mm_stream t (q_key ''q'')))) \<longrightarrow>
      map_of (mm_zset (snd (run_mover mem_world ''q'' 7 1 demo_delayed)) (delayed_key ''q'')) e \<noteq> None
      \<or> [(''e'', e)] \<in> set (map snd (ms_entries (mm_stream (snd (run_mover mem_world ''q'' 7 1 demo_delayed)) (q_key ''q'')))))"
  by (rule mover_never_loses [OF mem_delayed.delayed_store_axioms prod.collapse [symmetric]])

subsection \<open>The idempotency guard\<close>

context lease_store
begin

lemma IDEMP_CLAIM_LUA_held:
  "IDEMP_CLAIM_LUA (w_call W) k task_id ttl_s ttl_ms s = (r, s') \<Longrightarrow> held s k = Some h \<Longrightarrow> held s' k = Some h"
  by (auto simp: IDEMP_CLAIM_LUA_def dest!: set_nx_ok set_nx_err get_ok get_err pexpire_ok pexpire_err
      split: prod.splits sum.splits option.splits if_splits)

lemma IDEMP_CLAIM_LUA_ok:
  assumes "IDEMP_CLAIM_LUA (w_call W) k task_id ttl_s ttl_ms s = (Inr v, s')"
  shows "v = (case held s k of None \<Rightarrow> RPair 1 ''''
              | Some h \<Rightarrow> if h = task_id then RPair 2 '''' else RPair 0 h)
    \<and> held s' = (held s)(k := Some (case held s k of None \<Rightarrow> task_id | Some h \<Rightarrow> h))"
  using assms
  by (auto simp: IDEMP_CLAIM_LUA_def dest!: set_nx_ok get_ok pexpire_ok
      split: prod.splits sum.splits option.splits if_splits)

lemma idemp_claim_keeps:
  assumes "idemp_claim W sha key task_id ttl tmo s = (r, s')"
    and keeps: "\<And>s t h. env s t \<Longrightarrow> held s (idemp_key sha key) = Some h \<Longrightarrow> held t (idemp_key sha key) = Some h"
    and "held s (idemp_key sha key) = Some h"
  shows "held s' (idemp_key sha key) = Some h"
proof -
  let ?f = "IDEMP_CLAIM_LUA (w_call W) (idemp_key sha key) task_id (claim_ttl_s ttl tmo) (sat_mul (claim_ttl_s ttl tmo) 1000)"
  obtain x where "w_eval W ?f s = (x, s')"
    using assms(1) by (cases "w_eval W ?f s") (auto simp: idemp_claim_def Let_def split: sum.splits redis_value.splits)
  then have "env s s' \<or> (\<exists>t x. env s t \<and> ?f t = (x, s'))"
    using eval_ok eval_err by (cases x) (metis prod.exhaust_sel)+
  then show ?thesis using keeps assms(3) IDEMP_CLAIM_LUA_held by blast
qed

lemma idemp_claim_ok:
  assumes "idemp_claim W sha key task_id ttl tmo s = (Inr out, s')"
  obtains t where "env s t"
    and "out = (case held t (idemp_key sha key) of None \<Rightarrow> Fresh
              | Some h \<Rightarrow> if h = task_id then MineAgain else Duplicate h)"
    and "held s' = (held t)(idemp_key sha key := Some (case held t (idemp_key sha key) of None \<Rightarrow> task_id | Some h \<Rightarrow> h))"
proof -
  let ?f = "IDEMP_CLAIM_LUA (w_call W) (idemp_key sha key) task_id (claim_ttl_s ttl tmo) (sat_mul (claim_ttl_s ttl tmo) 1000)"
  from assms obtain code h where e: "w_eval W ?f s = (Inr (RPair code h), s')"
    and out: "out = (if code = 1 then Fresh else if code = 2 then MineAgain else Duplicate h)"
    by (auto simp: idemp_claim_def Let_def split: prod.splits sum.splits redis_value.splits)
  from eval_ok [OF e] obtain t where "env s t" "?f t = (Inr (RPair code h), s')" by blast
  with IDEMP_CLAIM_LUA_ok [OF this(2)] out show ?thesis
    by (intro that [of t]) (auto split: option.splits if_splits)
qed

end

text \<open>A run of claims of one key, by the given tasks in order.\<close>

fun claims :: "'s world \<Rightarrow> (string \<Rightarrow> u8 list) \<Rightarrow> string \<Rightarrow> (string \<times> u64 \<times> u64) list \<Rightarrow> 's
    \<Rightarrow> (broker_error, idemp_claim_outcome) result list \<times> 's" where
  "claims W sha256 key [] s = ([], s)"
| "claims W sha256 key ((task_id, ttl, tmo) # cs) s =
     (let (r, s1) = idemp_claim W sha256 key task_id ttl tmo s; (rs, s2) = claims W sha256 key cs s1
      in (r # rs, s2))"

text \<open>
  C20. The guard's verdict is decided by the holder of the key when the script runs: nobody gives
  \<open>Fresh\<close> and the key becomes the caller's; the caller itself gives \<open>MineAgain\<close>; another task gives
  \<open>Duplicate\<close> with its id. A key that is held never changes hands.
\<close>

theorem idemp_claim_verdict:
  assumes "lease_store W env held"
    and "idemp_claim W sha256 key task_id ttl tmo s = (Inr out, s')"
  shows "\<exists>t. env s t
    \<and> out = (case held t (idemp_key sha256 key) of None \<Rightarrow> Fresh
              | Some h \<Rightarrow> if h = task_id then MineAgain else Duplicate h)
    \<and> held s' = (held t)(idemp_key sha256 key :=
         Some (case held t (idemp_key sha256 key) of None \<Rightarrow> task_id | Some h \<Rightarrow> h))"
  using lease_store.idemp_claim_ok [OF assms] by metis

definition demo_sha :: "string \<Rightarrow> u8 list" where
  "demo_sha s = replicate 32 (of_nat (length s))"

lemma demo_claims:
  "claims mem_world demo_sha ''k'' [(''t1'', 60, 500), (''t2'', 60, 500), (''t1'', 60, 500)] (empty_mem 7)
   = ([Inr Fresh, Inr (Duplicate ''t1''), Inr MineAgain],
      (empty_mem 7)\<lparr>mm_str := (\<lambda>_. None)(idemp_key demo_sha ''k'' := Some ''t1'')\<rparr>)"
  by (simp add: idemp_claim_def mem_world_def IDEMP_CLAIM_LUA_def empty_mem_def Let_def)

theorem idemp_claim_verdict_witness:
  "\<exists>t. mem_env (empty_mem 7) t
    \<and> Fresh = (case mm_str t (idemp_key demo_sha ''k'') of None \<Rightarrow> Fresh
              | Some h \<Rightarrow> if h = ''t1'' then MineAgain else Duplicate h)"
proof -
  obtain s' where "idemp_claim mem_world demo_sha ''k'' ''t1'' 60 500 (empty_mem 7) = (Inr Fresh, s')"
    by (simp add: idemp_claim_def mem_world_def IDEMP_CLAIM_LUA_def empty_mem_def Let_def)
  from idemp_claim_verdict [OF mem_lease.lease_store_axioms this] show ?thesis by auto
qed

lemma claims_after_owner:
  assumes "lease_store W env held" "held s (idemp_key sha key) = Some h"
    and "\<And>s t h. env s t \<Longrightarrow> held s (idemp_key sha key) = Some h \<Longrightarrow> held t (idemp_key sha key) = Some h"
    and "(c, Inr out) \<in> set (zip cs (fst (claims W sha key cs s)))"
  shows "out = (if fst c = h then MineAgain else Duplicate h)"
  using assms(2,4)
proof (induction cs arbitrary: s)
  case (Cons d cs)
  obtain task_id ttl tmo where d: "d = (task_id, ttl, tmo)" by (cases d)
  obtain r s1 where r: "idemp_claim W sha key task_id ttl tmo s = (r, s1)" by fastforce
  have s1: "held s1 (idemp_key sha key) = Some h"
    using lease_store.idemp_claim_keeps [OF assms(1) r _ Cons.prems(1)] assms(3) by blast
  show ?case
  proof (cases "c = d \<and> r = Inr out")
    case True
    with r d have "idemp_claim W sha key (fst c) ttl tmo s = (Inr out, s1)" by simp
    then obtain t where t: "env s t"
      "out = (case held t (idemp_key sha key) of None \<Rightarrow> Fresh
              | Some h \<Rightarrow> if h = fst c then MineAgain else Duplicate h)"
      by (rule lease_store.idemp_claim_ok [OF assms(1)])
    then show ?thesis using assms(3) [OF t(1) Cons.prems(1)] by auto
  next
    case False
    then show ?thesis using Cons.IH [OF s1] Cons.prems(2) r d by (auto simp: Let_def split: prod.splits)
  qed
qed simp

text \<open>
  C21. Exclusivity: as long as no claim of the key expires, at most one task among any sequence of
  claimants is ever told to run (\<open>Fresh\<close> or, on redelivery, \<open>MineAgain\<close>), whatever claims failed in
  between and even when a failed claim took the key.
\<close>

theorem idemp_exclusive:
  assumes store: "lease_store W env held"
    and keeps: "\<And>s t h. env s t \<Longrightarrow> held s (idemp_key sha256 key) = Some h
                  \<Longrightarrow> held t (idemp_key sha256 key) = Some h"
    and "(c, Inr oc) \<in> set (zip cs (fst (claims W sha256 key cs s)))" "oc \<in> {Fresh, MineAgain}"
    and "(d, Inr od) \<in> set (zip cs (fst (claims W sha256 key cs s)))" "od \<in> {Fresh, MineAgain}"
  shows "fst c = fst d"
  using assms(3-)
proof (induction cs arbitrary: s)
  case (Cons a cs)
  obtain task_id ttl tmo where a: "a = (task_id, ttl, tmo)" by (cases a)
  obtain r s1 where r: "idemp_claim W sha256 key task_id ttl tmo s = (r, s1)" by fastforce
  have cl: "fst (claims W sha256 key (a # cs) s) = r # fst (claims W sha256 key cs s1)"
    using r a by (simp add: Let_def split: prod.splits)
  have owner: "fst e = task_id"
    if "r = Inr out" "out \<in> {Fresh, MineAgain}" "(e, Inr o3) \<in> set (zip cs (fst (claims W sha256 key cs s1)))"
      "o3 \<in> {Fresh, MineAgain}" for e out o3
  proof -
    have "held s1 (idemp_key sha256 key) = Some task_id"
      by (rule lease_store.idemp_claim_ok [OF store r [unfolded that(1)]])
        (use that(2) in \<open>auto split: option.splits if_splits\<close>)
    from claims_after_owner [OF store this _ that(3)] keeps that(4) show ?thesis
      by (metis idemp_claim_outcome.distinct(4) idemp_claim_outcome.distinct(6) insert_iff singletonD)
  qed
  have mem: "(e, Inr o3) \<in> set (zip (a # cs) (r # fst (claims W sha256 key cs s1))) \<longleftrightarrow>
      e = a \<and> r = Inr o3 \<or> (e, Inr o3) \<in> set (zip cs (fst (claims W sha256 key cs s1)))" for e o3
    by auto
  have "fst a = task_id" by (simp add: a)
  with Cons.prems Cons.IH [of s1] owner show ?case unfolding cl mem by metis
qed simp

theorem idemp_exclusive_witness:
  "fst (''t1'', 60 :: u64, 500 :: u64) = fst (''t1'', 60 :: u64, 500 :: u64)
   \<and> fst (claims mem_world demo_sha ''k'' [(''t1'', 60, 500), (''t2'', 60, 500), (''t1'', 60, 500)] (empty_mem 7))
     = [Inr Fresh, Inr (Duplicate ''t1''), Inr MineAgain]"
proof -
  have keeps: "mem_env s t \<Longrightarrow> mm_str s k = Some h \<Longrightarrow> mm_str t k = Some h" for s t k h
    unfolding mem_env_def map_le_def by (metis domI)
  show ?thesis
    using idemp_exclusive [OF mem_lease.lease_store_axioms keeps, where
        c = "(''t1'', 60, 500)" and oc = Fresh and d = "(''t1'', 60, 500)" and od = MineAgain
        and cs = "[(''t1'', 60, 500), (''t2'', 60, 500), (''t1'', 60, 500)]" and s = "empty_mem 7"]
    by (simp add: demo_claims del: claims.simps)
qed

text \<open>
  A claim outlives the execution it guards: its lifetime is at least the configured one and at
  least the task's time limit plus the backstop grace, rounded up to whole seconds.
\<close>

lemma claim_outlives_execution:
  assumes "unat timeout_ms + 2000 < 2 ^ 64"
  shows "unat timeout_ms + 2000 \<le> unat (claim_ttl_s idemp_ttl_s timeout_ms) * 1000
    \<and> idemp_ttl_s \<le> claim_ttl_s idemp_ttl_s timeout_ms
    \<and> claim_ttl_s idemp_ttl_s timeout_ms \<in> {idemp_ttl_s, of_nat ((unat timeout_ms + 2999) div 1000)}"
proof -
  let ?d = "div_ceil (sat_add timeout_ms BACKSTOP_GRACE_MS) 1000 :: u64"
  have d: "unat ?d = (unat timeout_ms + 2999) div 1000"
    using assms by (simp add: unat_div_ceil unat_sat_add BACKSTOP_GRACE_MS_def)
  have "?d = of_nat (unat ?d)" by simp
  then have "?d = of_nat ((unat timeout_ms + 2999) div 1000)" by (simp only: d)
  moreover have "unat timeout_ms + 2000 \<le> unat ?d * 1000"
    unfolding d using div_mult_mod_eq [of "unat timeout_ms + 2999" 1000] mod_less_divisor [of 1000 "unat timeout_ms + 2999"]
    by linarith
  moreover have "unat ?d \<le> unat (claim_ttl_s idemp_ttl_s timeout_ms)"
    by (simp add: claim_ttl_s_def unat_max)
  ultimately show ?thesis by (simp add: claim_ttl_s_def max_def)
qed

lemma claim_outlives_execution_demo:
  "unat (500 :: u64) + 2000 \<le> unat (claim_ttl_s 1 500) * 1000"
  using claim_outlives_execution [of 500 1] by simp

subsection \<open>The idempotency key\<close>

lemma HEX_inj: "i < 16 \<Longrightarrow> j < 16 \<Longrightarrow> HEX ! i = HEX ! j \<Longrightarrow> i = j"
  by (rule nth_eq_iff_index_eq [THEN iffD1, of HEX]) (simp_all add: HEX_def)

lemma nibbles:
  fixes b :: u8
  shows "unat (drop_bit 4 b) < 16" "unat (b AND 15) < 16"
    "unat b = 16 * unat (drop_bit 4 b) + unat (b AND 15)"
proof -
  have hi: "unat (drop_bit 4 b) = unat b div 16" by (simp add: drop_bit_eq_div unat_div)
  have "b AND 15 = take_bit 4 b" by (simp add: take_bit_eq_mask mask_eq_exp_minus_1)
  then have lo: "unat (b AND 15) = unat b mod 16" by (simp add: take_bit_eq_mod unat_mod)
  show "unat (drop_bit 4 b) < 16" using unsigned_less [of b, where ?'a = nat] by (simp add: hi)
  show "unat (b AND 15) < 16" by (simp add: lo)
  show "unat b = 16 * unat (drop_bit 4 b) + unat (b AND 15)" by (simp add: hi lo)
qed

lemma hex_byte_inj:
  fixes a b :: u8
  assumes "HEX ! unat (drop_bit 4 a) = HEX ! unat (drop_bit 4 b)" "HEX ! unat (a AND 15) = HEX ! unat (b AND 15)"
  shows "a = b"
  using HEX_inj [OF nibbles(1) nibbles(1) assms(1)] HEX_inj [OF nibbles(2) nibbles(2) assms(2)]
    nibbles(3) [of a] nibbles(3) [of b] by (metis word_unat_eq_iff)

lemma hex_bytes_inj:
  "concat (map (\<lambda>b :: u8. [HEX ! unat (drop_bit 4 b), HEX ! unat (b AND 15)]) xs) =
   concat (map (\<lambda>b. [HEX ! unat (drop_bit 4 b), HEX ! unat (b AND 15)]) ys) \<longleftrightarrow> xs = ys"
proof (induction xs arbitrary: ys)
  case (Cons x xs)
  then show ?case by (cases ys) (auto intro: hex_byte_inj)
qed (auto simp: concat_eq_Nil_conv)

lemma HEX_range: "i < 16 \<Longrightarrow> HEX ! i \<in> set HEX"
  by (rule nth_mem) (simp add: HEX_def)

text \<open>
  The idempotency key of a task is the fixed prefix and 32 lowercase hexadecimal digits, so it
  is safe as a Redis key whatever the caller's text; two texts share a key exactly when the first
  16 bytes of their digests agree.
\<close>

theorem idemp_key_shape:
  assumes "\<And>s. length (sha256 s) = 32"
  shows "strip_prefix ''cauli:idemp:'' (idemp_key sha256 key) = Some (idemp_digest_hex sha256 key)
    \<and> length (idemp_digest_hex sha256 key) = 32
    \<and> set (idemp_digest_hex sha256 key) \<subseteq> set ''0123456789abcdef''
    \<and> (idemp_key sha256 key = idemp_key sha256 key' \<longleftrightarrow> take 16 (sha256 key) = take 16 (sha256 key'))"
proof -
  have "sum_list (map (\<lambda>_ :: u8. Suc (Suc 0)) xs) = 2 * length xs" for xs
    by (induction xs) auto
  then have "length (idemp_digest_hex sha256 key) = 32"
    using assms by (simp add: idemp_digest_hex_def length_concat comp_def)
  moreover have "set (idemp_digest_hex sha256 key) \<subseteq> set HEX"
    using HEX_range [OF nibbles(1)] HEX_range [OF nibbles(2)] by (auto simp: idemp_digest_hex_def)
  ultimately show ?thesis
    by (simp add: idemp_key_def hex_bytes_inj [folded] idemp_digest_hex_def HEX_def [symmetric])
qed

theorem idemp_key_shape_witness:
  "length (idemp_digest_hex demo_sha ''abc'') = 32 \<and> (idemp_key demo_sha ''abc'' \<noteq> idemp_key demo_sha ''abcd'')"
  using idemp_key_shape [of demo_sha "''abc''" "''abcd''"] by (simp add: demo_sha_def)

subsection \<open>Trimming\<close>

lemma read_sid_show: "parse_stream_id (show_sid i) = Some i"
  by (simp add: parse_stream_id_def show_sid_def text_simps show_nat_no_dash)

lemma show_sid_inj: "show_sid i = show_sid j \<longleftrightarrow> i = j"
  by (metis read_sid_show option.inject)

text \<open>The successor of an id is the least id above it, or the id itself at the very end.\<close>

lemma stream_id_after_least:
  "\<exists>b. stream_id_after (show_sid i) = Some (show_sid b) \<and> i \<le> b \<and> (\<forall>j. i < j \<longrightarrow> b \<le> j)"
proof (cases "checked_add (snd i) 1")
  case None
  then show ?thesis
    by (intro exI [of _ i]) (cases i, auto simp: stream_id_after_def read_sid_show)
next
  case (Some n)
  then have n: "unat n = unat (snd i) + 1" by (simp add: checked_add_Some)
  have le: "\<And>x. snd i < x \<Longrightarrow> n \<le> x" "snd i \<le> n" using n by (simp_all add: word_less_nat_alt word_le_nat_alt)
  have "stream_id_after (show_sid i) = Some (show_sid (fst i, n))"
    using Some by (cases i) (simp add: stream_id_after_def read_sid_show, simp add: show_sid_def)
  then show ?thesis
    using le by (intro exI [of _ "(fst i, n)"]) (auto simp: less_eq_prod_def less_prod_def)
qed

context group_store
begin

text \<open>A boundary is safe in a state when every pending and every undelivered id is at or above it.\<close>

definition safe_boundary :: "stream_id \<Rightarrow> string \<Rightarrow> 's \<Rightarrow> bool" where
  "safe_boundary b k s \<longleftrightarrow> (\<forall>i\<in>pending s k. b \<le> i) \<and> (\<forall>i. last_delivered s k < i \<longrightarrow> b \<le> i)"

lemma safe_boundary_env: "safe_boundary b k s \<Longrightarrow> env s t \<Longrightarrow> safe_boundary b k t"
  unfolding safe_boundary_def by (meson env_last env_pending le_less_trans)

lemma oldest_pending_id_ok:
  assumes "oldest_pending_id W queue s = (Inr r, s')"
  shows "env s s' \<and> (case r of
      None \<Rightarrow> pending s' (q_key queue) = {}
    | Some o1 \<Rightarrow> \<exists>i\<in>pending s' (q_key queue). o1 = show_sid i \<and> (\<forall>j\<in>pending s' (q_key queue). i \<le> j))"
proof -
  from assms obtain ps where q: "w_query W (XPENDING (q_key queue) ''cauli'' ''-'' ''+'' 1) s = (Inr (RPending ps), s')"
    and r: "r = (case ps of [] \<Rightarrow> None | p # _ \<Rightarrow> Some (fst p))"
    by (auto simp: oldest_pending_id_def split: prod.splits sum.splits redis_value.splits)
  from query_ok [OF q] obtain t where "env s t"
    and t: "w_call W (XPENDING (q_key queue) ''cauli'' ''-'' ''+'' 1) t = (Inr (RPending ps), s')" by blast
  from xpending_ok [OF t] \<open>env s t\<close> show ?thesis unfolding r by (auto split: list.splits)
qed

lemma acked_below_safe:
  assumes "acked_below W queue s = (Inr (Some txt), s')"
  obtains b where "txt = show_sid b" "safe_boundary b (q_key queue) s'"
proof -
  let ?k = "q_key queue"
  obtain x s1 where q: "w_query W (XINFO_GROUPS ?k) s = (x, s1)" by fastforce
  obtain gs where x: "x = Inr (RGroups gs)"
    using assms q by (auto simp: acked_below_def split: sum.splits redis_value.splits)
  from query_ok [OF q [unfolded x]] obtain t where "env s t" "w_call W (XINFO_GROUPS ?k) t = (Inr (RGroups gs), s1)"
    by blast
  note info = info_ok [OF this(2)]
  obtain g lid where f: "List.find (\<lambda>g. fst g = ''cauli'') gs = Some (g, lid)"
    using assms q x by (cases "List.find (\<lambda>g. fst g = ''cauli'') gs") (auto simp: acked_below_def)
  have lid: "lid = show_sid (last_delivered s1 ?k)" using info f by auto
  obtain r where o1: "oldest_pending_id W queue s1 = (Inr r, s')"
    and r: "txt = (case r of Some o1 \<Rightarrow> o1 | None \<Rightarrow> the (stream_id_after lid))"
    using assms q x f by (auto simp: acked_below_def split: prod.splits sum.splits option.splits if_splits)
  note ok = oldest_pending_id_ok [OF o1]
  show ?thesis
  proof (cases r)
    case None
    obtain b where b: "stream_id_after lid = Some (show_sid b)" "\<forall>j. last_delivered s1 ?k < j \<longrightarrow> b \<le> j"
      using stream_id_after_least [of "last_delivered s1 ?k"] lid by auto
    have "safe_boundary b ?k s'"
      using ok None b(2) env_last by (fastforce simp: safe_boundary_def dest: le_less_trans)
    then show ?thesis using that b r None by simp
  next
    case (Some o1)
    with ok obtain i where i: "i \<in> pending s' ?k" "o1 = show_sid i" "\<forall>j\<in>pending s' ?k. i \<le> j" by auto
    have "safe_boundary i ?k s'"
      using i pending_delivered [OF i(1)] unfolding safe_boundary_def by (meson less_imp_le order_trans)
    then show ?thesis using that i r Some by simp
  qed
qed

lemma trim_acked_safe:
  assumes "safe_boundary b (q_key queue) s" "trim_acked W queue (show_sid b) s = (r, s')"
  shows "\<exists>t. env s t \<and> (\<forall>i\<in>entries t (q_key queue).
    i \<in> pending t (q_key queue) \<or> last_delivered t (q_key queue) < i \<longrightarrow> i \<in> entries s' (q_key queue))"
proof -
  let ?c = "XTRIM_MINID (q_key queue) (show_sid b)"
  obtain x where q: "w_query W ?c s = (x, s')"
    using assms(2) by (cases "w_query W ?c s") (auto simp: trim_acked_def split: sum.splits redis_value.splits)
  then have "env s s' \<or> (\<exists>t y. env s t \<and> w_call W ?c t = (y, s'))"
    using query_ok query_err by (cases x) (metis prod.exhaust_sel)+
  then show ?thesis
  proof (elim disjE exE conjE)
    fix t y assume t: "env s t" "w_call W ?c t = (y, s')"
    have safe: "safe_boundary b (q_key queue) t" using safe_boundary_env assms(1) t(1) by blast
    show ?thesis
    proof (cases y)
      case (Inl e)
      then show ?thesis using t trim_err [OF t(2) [unfolded Inl]] by auto
    next
      case (Inr v)
      then show ?thesis using t trim_ok [OF t(2) [unfolded Inr]] safe
        by (intro exI [of _ t]) (auto simp: safe_boundary_def simp del: less_eq_prod_simp less_prod_simp)
    qed
  qed auto
qed

end

text \<open>
  C4. Trimming never drops live work, however other workers interleave: a boundary computed by
  \<open>acked_below\<close> and applied any time later removes no entry that is pending or not yet delivered
  at the moment the trim runs.
\<close>

theorem trim_never_drops_live_entries:
  assumes store: "group_store W env entries last_delivered pending"
    and "acked_below W queue s = (Inr (Some boundary), s1)"
    and "env s1 s2"
    and "trim_acked W queue boundary s2 = (r, s3)"
  shows "\<exists>t. env s2 t \<and> (\<forall>i\<in>entries t (q_key queue).
    i \<in> pending t (q_key queue) \<or> last_delivered t (q_key queue) < i \<longrightarrow> i \<in> entries s3 (q_key queue))"
proof -
  obtain b where b: "boundary = show_sid b" "group_store.safe_boundary last_delivered pending b (q_key queue) s1"
    using group_store.acked_below_safe [OF store assms(2)] by blast
  from group_store.safe_boundary_env [OF store b(2) assms(3)]
  show ?thesis using group_store.trim_acked_safe [OF store] assms(4) b(1) by blast
qed

definition demo_group :: mem where
  "demo_group = up_stream (q_key ''q'')
     (\<lambda>st. st\<lparr>ms_entries := [((1, 0), []), ((2, 0), []), ((3, 0), [])], ms_top := (3, 0),
              ms_group := Some (2, 0), ms_pel := [((2, 0), ''w1'', 0, 1)]\<rparr>) (empty_mem 7)"

theorem trim_never_drops_live_entries_witness:
  "\<exists>s1 s3. acked_below mem_world ''q'' demo_group = (Inr (Some ''2-0''), s1)
    \<and> trim_acked mem_world ''q'' ''2-0'' s1 = (Inr 1, s3)
    \<and> map fst (ms_entries (mm_stream s3 (q_key ''q''))) = [(2, 0), (3, 0)]
    \<and> (\<exists>t. mem_env s1 t \<and> (\<forall>i\<in>fst ` set (ms_entries (mm_stream t (q_key ''q''))).
        i \<in> mem_pending t (q_key ''q'') \<or> mem_last t (q_key ''q'') < i \<longrightarrow>
        i \<in> fst ` set (ms_entries (mm_stream s3 (q_key ''q'')))))"
proof -
  have two: "show_sid (2, 0) = ''2-0''"
    by (simp add: show_sid_def show_nat.simps digit_char_def char_of_def bit_Suc_0_iff)
  have two': "read_sid ''2-0'' = Some (2, 0)" using read_show_sid [of "(2, 0)"] unfolding two .
  have a: "acked_below mem_world ''q'' demo_group = (Inr (Some ''2-0''), demo_group)"
    by (simp add: acked_below_def oldest_pending_id_def mem_world_def demo_group_def pel_of_def two)
  obtain s3 where t: "trim_acked mem_world ''q'' ''2-0'' demo_group = (Inr 1, s3)"
      "map fst (ms_entries (mm_stream s3 (q_key ''q''))) = [(2, 0), (3, 0)]"
    by (simp add: trim_acked_def mem_world_def demo_group_def two' word_le_nat_alt word_less_nat_alt)
  note live = trim_never_drops_live_entries [OF mem_group.group_store_axioms a mem_env_refl t(1)]
  show ?thesis by (rule exI [of _ demo_group], rule exI [of _ s3], intro conjI a t live)
qed

end
