(* ===== verification/Texts.thy ===== *)
theory Texts
  imports Prelude
begin

section \<open>Text operations of the standard library\<close>

text \<open>
  What several components use of Rust's \<open>str\<close>: splitting at patterns, lines, trimming. Text is its UTF-8
  bytes.
\<close>

text \<open>First occurrence of a pattern, last occurrence of a byte.\<close>

fun split_once_str :: "string \<Rightarrow> string \<Rightarrow> (string \<times> string) option" where
  "split_once_str pat [] = (if pat = [] then Some ([], []) else None)"
| "split_once_str pat (c # cs) =
     (case strip_prefix pat (c # cs) of
        Some rest \<Rightarrow> Some ([], rest)
      | None \<Rightarrow> map_option (\<lambda>(a, b). (c # a, b)) (split_once_str pat cs))"

definition rsplit_once :: "'a \<Rightarrow> 'a list \<Rightarrow> ('a list \<times> 'a list) option" where
  "rsplit_once c s = map_option (\<lambda>(a, b). (rev b, rev a)) (split_once c (rev s))"

text \<open>\<open>str::lines\<close>: split at line feeds, no last empty line, one carriage return dropped per line.\<close>

definition drop_cr :: "string \<Rightarrow> string" where
  "drop_cr l = (if l \<noteq> [] \<and> last l = CHR 0x0D then butlast l else l)"

definition text_lines :: "string \<Rightarrow> string list" where
  "text_lines s =
     (let ls = split_on CHR 0x0A s
      in map drop_cr (butlast ls) @ (if last ls = [] then [] else [last ls]))"

text \<open>\<open>str::trim\<close>: the white space characters of Unicode in UTF-8, removed at both ends.\<close>

definition WHITESPACE :: "string list" where
  "WHITESPACE =
     map (\<lambda>n. [char_of n]) [9 :: nat, 10, 11, 12, 13, 32]
     @ map (map char_of)
         ([[0xC2 :: nat, 0x85], [0xC2, 0xA0], [0xE1, 0x9A, 0x80], [0xE2, 0x80, 0xA8], [0xE2, 0x80, 0xA9],
           [0xE2, 0x80, 0xAF], [0xE2, 0x81, 0x9F], [0xE3, 0x80, 0x80]]
          @ map (\<lambda>n. [0xE2, 0x80, n]) [0x80 ..< 0x8B])"

fun strip_any :: "string list \<Rightarrow> string \<Rightarrow> string option" where
  "strip_any [] s = None"
| "strip_any (w # ws) s = (case strip_prefix w s of Some r \<Rightarrow> Some r | None \<Rightarrow> strip_any ws s)"

lemma strip_any_shorter: "[] \<notin> set ws \<Longrightarrow> strip_any ws s = Some r \<Longrightarrow> length r < length s"
  by (induction ws s rule: strip_any.induct) (auto split: option.splits dest!: strip_prefix_Some)

lemma strip_any_le: "strip_any ws s = Some r \<Longrightarrow> length r \<le> length s"
  by (induction ws s rule: strip_any.induct) (auto split: option.splits dest!: strip_prefix_Some)

function trim_with :: "string list \<Rightarrow> string \<Rightarrow> string" where
  "trim_with ws s =
     (case strip_any ws s of
        None \<Rightarrow> s
      | Some r \<Rightarrow> if length r < length s then trim_with ws r else s)"
  by pat_completeness auto
termination by (relation "measure (length \<circ> snd)") auto

declare trim_with.simps [simp del]

definition trim :: "string \<Rightarrow> string" where
  "trim s = rev (trim_with (map rev WHITESPACE) (rev (trim_with WHITESPACE s)))"

text \<open>\<open>str::trim_end_matches\<close> with a text pattern.\<close>

function strip_suffixes :: "string \<Rightarrow> string \<Rightarrow> string" where
  "strip_suffixes suf s =
     (if suf \<noteq> [] \<and> length suf \<le> length s \<and> drop (length s - length suf) s = suf
      then strip_suffixes suf (take (length s - length suf) s) else s)"
  by pat_completeness auto
termination
proof (relation "measure (\<lambda>(suf, s). length s)", goal_cases)
  case (2 suf s)
  then show ?case by (cases suf) auto
qed simp

declare strip_suffixes.simps [simp del]

end
