(* ===== verification/Stats.thy ===== *)
theory Stats
  imports Texts
begin

section \<open>Counters, latency histograms and the stats line (stats.rs)\<close>

text \<open>
  The worker's counters, the log2 latency histograms with their interpolated percentiles, the edge
  logging of the cpu backlog, the resident set size reader and the stats line. Unsigned counters
  wrap at 64 bits as the atomics do; the three gauges are signed and are kept as \<open>int\<close>, since
  they move by one per task in flight. The process id, the host name and the files of \<open>/proc\<close> are
  parameters.
\<close>

subsection \<open>Latency histograms\<close>

definition LAT_BUCKETS :: nat where
  "LAT_BUCKETS = 24"

type_synonym latency_hist = "u64 list"

definition LatencyHist_default :: latency_hist where
  "LatencyHist_default = replicate LAT_BUCKETS 0"

text \<open>\<open>63 - leading_zeros\<close> of a positive word is the position of its highest bit.\<close>

function log2_floor :: "nat \<Rightarrow> nat" where
  "log2_floor n = (if n < 2 then 0 else Suc (log2_floor (n div 2)))"
  by pat_completeness auto
termination
  by (relation "measure (\<lambda>n. n)") auto

declare log2_floor.simps [simp del]

definition lat_bucket :: "u64 \<Rightarrow> nat" where
  "lat_bucket ms = min (log2_floor (unat (max ms 1))) (LAT_BUCKETS - 1)"

definition lat_bucket_edges :: "nat \<Rightarrow> u64 \<times> u64" where
  "lat_bucket_edges i = (if i = 0 then 0 else push_bit i 1, push_bit (i + 1) 1)"

definition record_latency :: "u64 \<Rightarrow> latency_hist \<Rightarrow> latency_hist" where
  "record_latency ms h = h[lat_bucket ms := h ! lat_bucket ms + 1]"

text \<open>The scan of \<open>percentile\<close>: bucket index, rank reached so far, remaining counts.\<close>

fun percentile_scan :: "u64 \<Rightarrow> nat \<Rightarrow> u64 \<Rightarrow> u64 list \<Rightarrow> u64" where
  "percentile_scan target i cum [] = snd (lat_bucket_edges (LAT_BUCKETS - 1))"
| "percentile_scan target i cum (c # cs) =
     (if c = 0 then percentile_scan target (Suc i) cum cs
      else if target \<le> cum + c
      then let (lo, hi) = lat_bucket_edges i in lo + (hi - lo) * (target - cum) div c
      else percentile_scan target (Suc i) (cum + c) cs)"

definition percentile :: "u64 list \<Rightarrow> u64 \<Rightarrow> u64" where
  "percentile counts pct =
     (let total = sum_list counts
      in if total = 0 then 0
         else percentile_scan (max (sat_add (sat_mul total pct) 99 div 100) 1) 0 0 counts)"

definition take_p50_p99 :: "latency_hist \<Rightarrow> (u64 \<times> u64) \<times> latency_hist" where
  "take_p50_p99 h = ((percentile h 50, percentile h 99), replicate LAT_BUCKETS 0)"

subsection \<open>Counters\<close>

record counters =
  c_fetched :: u64
  c_ok :: u64
  c_failed :: u64
  c_retried :: u64
  c_dlq :: u64
  c_duplicate :: u64
  c_expired :: u64
  c_cpu_lost :: u64
  c_inflight_io :: int
  c_inflight_cpu :: int
  c_inflight_total :: int
  c_backlog_warned :: bool
  c_backlog_since_ms :: u64
  c_lat_sync :: latency_hist
  c_lat_async :: latency_hist
  c_lat_cpu :: latency_hist

definition counters_default :: counters where
  "counters_default = \<lparr>c_fetched = 0, c_ok = 0, c_failed = 0, c_retried = 0, c_dlq = 0, c_duplicate = 0,
     c_expired = 0, c_cpu_lost = 0, c_inflight_io = 0, c_inflight_cpu = 0, c_inflight_total = 0,
     c_backlog_warned = False, c_backlog_since_ms = 0, c_lat_sync = LatencyHist_default,
     c_lat_async = LatencyHist_default, c_lat_cpu = LatencyHist_default\<rparr>"

datatype backlog_log = BacklogFull nat | BacklogCleared u64

definition note_cpu_backlog :: "nat \<Rightarrow> u64 \<Rightarrow> counters \<Rightarrow> backlog_log list \<times> counters" where
  "note_cpu_backlog depth now_ms c =
     (if depth > 0
      then (if \<not> c_backlog_warned c
            then ([BacklogFull depth], c\<lparr>c_backlog_warned := True, c_backlog_since_ms := now_ms\<rparr>)
            else ([], c\<lparr>c_backlog_warned := True\<rparr>))
      else if c_backlog_warned c
      then ([BacklogCleared (sat_sub now_ms (c_backlog_since_ms c))], c\<lparr>c_backlog_warned := False\<rparr>)
      else ([], c\<lparr>c_backlog_warned := False\<rparr>))"

subsection \<open>The stats line\<close>

text \<open>The host name arrives as its Unicode scalar values.\<close>

definition host_safe :: "nat \<Rightarrow> bool" where
  "host_safe c \<longleftrightarrow> 48 \<le> c \<and> c \<le> 57 \<or> 65 \<le> c \<and> c \<le> 90 \<or> 97 \<le> c \<and> c \<le> 122 \<or> c = 46 \<or> c = 45 \<or> c = 95"

definition host :: "nat list \<Rightarrow> string" where
  "host raw =
     (let safe = map (\<lambda>c. if host_safe c then char_of c else CHR ''_'') raw
      in if safe = [] then ''unknown'' else safe)"

definition show_int :: "int \<Rightarrow> string" where
  "show_int i = (if i < 0 then ''-'' @ show_nat (nat (- i)) else show_nat (nat i))"

definition stats_fields :: "u32 \<Rightarrow> nat list \<Rightarrow> u64 \<Rightarrow> counters \<Rightarrow> (string \<times> string) list" where
  "stats_fields pid hostname rss c =
     (let (sync_p50, sync_p99) = fst (take_p50_p99 (c_lat_sync c));
          (async_p50, async_p99) = fst (take_p50_p99 (c_lat_async c));
          (cpu_p50, cpu_p99) = fst (take_p50_p99 (c_lat_cpu c))
      in [(''pid'', show_nat (unat pid)), (''host'', host hostname), (''fetched'', show_u64 (c_fetched c)),
          (''ok'', show_u64 (c_ok c)), (''failed'', show_u64 (c_failed c)), (''retried'', show_u64 (c_retried c)),
          (''dlq'', show_u64 (c_dlq c)), (''expired'', show_u64 (c_expired c)),
          (''duplicate'', show_u64 (c_duplicate c)), (''cpu_lost'', show_u64 (c_cpu_lost c)),
          (''inflight_io'', show_int (c_inflight_io c)), (''inflight_cpu'', show_int (c_inflight_cpu c)),
          (''rss_mb'', show_u64 rss), (''sync_p50'', show_u64 sync_p50), (''sync_p99'', show_u64 sync_p99),
          (''async_p50'', show_u64 async_p50), (''async_p99'', show_u64 async_p99),
          (''cpu_p50'', show_u64 cpu_p50), (''cpu_p99'', show_u64 cpu_p99)])"

definition stats_line :: "u32 \<Rightarrow> nat list \<Rightarrow> u64 \<Rightarrow> counters \<Rightarrow> string \<times> counters" where
  "stats_line pid hostname rss c =
     (''stats:'' @ concat (map (\<lambda>(k, x). '' '' @ k @ ''='' @ x) (stats_fields pid hostname rss c)),
      c\<lparr>c_lat_sync := snd (take_p50_p99 (c_lat_sync c)), c_lat_async := snd (take_p50_p99 (c_lat_async c)),
        c_lat_cpu := snd (take_p50_p99 (c_lat_cpu c))\<rparr>)"

subsection \<open>Resident set size\<close>

text \<open>\<open>read_file\<close> is the file system.\<close>

fun rss_of_lines :: "string list \<Rightarrow> u64" where
  "rss_of_lines [] = 0"
| "rss_of_lines (l # ls) =
     (case strip_prefix ''VmRSS:'' l of
        None \<Rightarrow> rss_of_lines ls
      | Some rest \<Rightarrow>
          (case parse_u64 (trim (strip_suffixes ''kB'' (trim rest))) of None \<Rightarrow> 0 | Some kb \<Rightarrow> kb) div 1024)"

definition rss_mb_at :: "(string \<Rightarrow> string option) \<Rightarrow> string \<Rightarrow> u64" where
  "rss_mb_at read_file path = (case read_file path of None \<Rightarrow> 0 | Some s \<Rightarrow> rss_of_lines (text_lines s))"

definition rss_mb :: "(string \<Rightarrow> string option) \<Rightarrow> u64" where
  "rss_mb read_file = rss_mb_at read_file ''/proc/self/status''"

definition cpu_rss_mb :: "(string \<Rightarrow> string option) \<Rightarrow> u32 list \<Rightarrow> u64" where
  "cpu_rss_mb read_file pids =
     sum_list (map (\<lambda>pid. rss_mb_at read_file (''/proc/'' @ show_nat (unat pid) @ ''/status'')) pids)"

section \<open>Correctness of the statistics\<close>

lemma log2_floor_bounds: "0 < n \<Longrightarrow> 2 ^ log2_floor n \<le> n \<and> n < 2 ^ (log2_floor n + 1)"
proof (induction n rule: log2_floor.induct)
  case (1 n)
  show ?case
  proof (cases "n < 2")
    case True
    then show ?thesis using 1 by (simp add: log2_floor.simps)
  next
    case False
    define p :: nat where "p = 2 ^ log2_floor (n div 2)"
    have "p \<le> n div 2 \<and> n div 2 < 2 * p" using 1 False by (simp add: p_def)
    then have "2 * p \<le> n \<and> n < 4 * p" by linarith
    then show ?thesis using False by (subst (1 2) log2_floor.simps) (simp add: p_def)
  qed
qed

lemma unat_push_bit_1: "i < 64 \<Longrightarrow> unat (push_bit i 1 :: u64) = 2 ^ i"
proof -
  assume "i < 64"
  then have "(2::nat) ^ i < 2 ^ 64" by (intro power_strict_increasing) simp_all
  then show ?thesis by (simp only: unsigned_push_bit_eq) (simp add: take_bit_eq_mod)
qed

lemma edges:
  assumes "i < LAT_BUCKETS"
  shows "unat (fst (lat_bucket_edges i)) = (if i = 0 then 0 else 2 ^ i)" "unat (snd (lat_bucket_edges i)) = 2 ^ (i + 1)"
  using assms unat_push_bit_1 [of i] unat_push_bit_1 [of "i + 1"]
  by (auto simp: lat_bucket_edges_def LAT_BUCKETS_def)

text \<open>
  Every duration falls in exactly the bucket whose edges enclose it; only durations past the
  top edge, \<open>2 ^ 24\<close> ms, are folded into the last bucket.
\<close>

theorem lat_bucket_encloses:
  "lat_bucket ms < LAT_BUCKETS \<and> fst (lat_bucket_edges (lat_bucket ms)) \<le> ms
   \<and> (ms < snd (lat_bucket_edges (lat_bucket ms)) \<or> lat_bucket ms = LAT_BUCKETS - 1 \<and> 2 ^ 24 \<le> unat ms)"
proof -
  let ?n = "unat (max ms 1)" and ?i = "lat_bucket ms"
  have n: "?n = max (unat ms) 1" by (simp add: unat_max)
  have i: "?i < LAT_BUCKETS" by (simp add: lat_bucket_def LAT_BUCKETS_def)
  have b: "2 ^ log2_floor ?n \<le> ?n" "?n < 2 ^ (log2_floor ?n + 1)" using log2_floor_bounds [of ?n] n by auto
  have le: "2 ^ ?i \<le> ?n"
    using b(1) power_increasing [of ?i "log2_floor ?n" "2::nat"] unfolding lat_bucket_def
    by (meson le_trans min.cobounded1 one_le_numeral power_increasing)
  have up: "?n < 2 ^ (?i + 1) \<or> ?i = LAT_BUCKETS - 1 \<and> 2 ^ 24 \<le> ?n"
  proof (cases "log2_floor ?n \<le> LAT_BUCKETS - 1")
    case True
    then show ?thesis using b(2) by (simp add: lat_bucket_def)
  next
    case False
    then have "(2::nat) ^ 24 \<le> 2 ^ log2_floor ?n" by (intro power_increasing) (simp_all add: LAT_BUCKETS_def)
    then show ?thesis using b(1) False by (auto simp: lat_bucket_def)
  qed
  have two: "?i \<noteq> 0 \<Longrightarrow> 2 \<le> (2::nat) ^ ?i" using power_increasing [of 1 ?i "2::nat"] by simp
  show ?thesis
    using i le up n two by (auto simp: word_le_nat_alt word_less_nat_alt edges [OF i] max_def split: if_splits)
qed

subsection \<open>Percentiles\<close>

definition interp :: "nat \<Rightarrow> nat \<Rightarrow> nat \<Rightarrow> nat" where
  "interp i r c = unat (fst (lat_bucket_edges i))
     + (unat (snd (lat_bucket_edges i)) - unat (fst (lat_bucket_edges i))) * r div c"

lemma edges_mono:
  assumes "i < LAT_BUCKETS"
  shows "unat (fst (lat_bucket_edges i)) \<le> unat (snd (lat_bucket_edges i))"
    "unat (snd (lat_bucket_edges i)) \<le> 2 ^ 24"
proof -
  show "unat (fst (lat_bucket_edges i)) \<le> unat (snd (lat_bucket_edges i))" using assms by (simp add: edges)
  have "(2::nat) ^ (i + 1) \<le> 2 ^ 24" using assms by (intro power_increasing) (simp_all add: LAT_BUCKETS_def)
  then show "unat (snd (lat_bucket_edges i)) \<le> 2 ^ 24" using assms by (simp only: edges)
qed

lemma interp_le: "i < LAT_BUCKETS \<Longrightarrow> r \<le> c \<Longrightarrow> interp i r c \<le> unat (snd (lat_bucket_edges i))"
proof -
  assume i: "i < LAT_BUCKETS" and rc: "r \<le> c"
  let ?d = "unat (snd (lat_bucket_edges i)) - unat (fst (lat_bucket_edges i))"
  have "?d * r div c \<le> ?d"
    using div_le_mono [OF mult_le_mono2 [OF rc], of ?d c] by (cases "c = 0") simp_all
  then show ?thesis using edges_mono(1) [OF i] by (simp add: interp_def)
qed

lemma interp_word:
  fixes t cum c :: u64
  assumes i: "i < LAT_BUCKETS" and c: "unat c < 2 ^ 40" "cum \<le> t" "t \<le> cum + c" "unat cum + unat c < 2 ^ 64"
  shows "unat (let (lo, hi) = lat_bucket_edges i in lo + (hi - lo) * (t - cum) div c)
       = interp i (unat t - unat cum) (unat c)"
proof -
  obtain lo hi where e: "lat_bucket_edges i = (lo, hi)" by fastforce
  have lh: "lo \<le> hi" "unat hi \<le> 2 ^ 24" using edges_mono [OF i] e by (simp_all add: word_le_nat_alt)
  have d: "unat (hi - lo) = unat hi - unat lo" "unat (t - cum) = unat t - unat cum"
    using lh c by (simp_all add: unat_sub)
  have tc: "unat t - unat cum \<le> unat c"
    using c(3,4) by (simp add: word_le_nat_alt unat_add_lem [THEN iffD1])
  have "(unat hi - unat lo) * (unat t - unat cum) \<le> 2 ^ 24 * unat c"
    using lh(2) tc by (intro mult_le_mono) simp_all
  also have "\<dots> < 2 ^ 64" using c(1) by simp
  finally have m: "unat ((hi - lo) * (t - cum)) = (unat hi - unat lo) * (unat t - unat cum)"
    using d by (subst unat_mult_lem [THEN iffD1]) simp_all
  have "interp i (unat t - unat cum) (unat c) \<le> 2 ^ 24"
    using interp_le [OF i tc] edges_mono(2) [OF i] by simp
  then show ?thesis
    unfolding e Let_def prod.case interp_def fst_conv snd_conv
    by (subst unat_add_lem [THEN iffD1]) (simp_all add: m unat_div)
qed

lemma scan_ge:
  assumes "i + length cs = LAT_BUCKETS" "unat cum + sum_list (map unat cs) < 2 ^ 40" "cum \<le> t"
  shows "j \<le> i \<Longrightarrow> j < LAT_BUCKETS \<Longrightarrow> unat (fst (lat_bucket_edges j)) \<le> unat (percentile_scan t i cum cs)"
  using assms
proof (induction cs arbitrary: i cum)
  case Nil
  have "unat (fst (lat_bucket_edges j)) \<le> unat (snd (lat_bucket_edges (LAT_BUCKETS - 1)))"
    using Nil.prems(2) power_increasing [of j 24 "2::nat"] edges(1) [of j] edges(2) [of "LAT_BUCKETS - 1"]
    by (auto simp: LAT_BUCKETS_def)
  then show ?case by simp
next
  case (Cons c cs)
  have i: "i < LAT_BUCKETS" using Cons.prems(3) by simp
  have c: "unat c < 2 ^ 40" "unat cum + unat c < 2 ^ 64" using Cons.prems(4) by auto
  then have cc: "unat (cum + c) = unat cum + unat c" by (simp add: unat_add_lem [THEN iffD1])
  show ?case
  proof (cases "c = 0 \<or> \<not> t \<le> cum + c")
    case True
    then show ?thesis using Cons cc by (auto simp: not_le)
  next
    case False
    have "unat (fst (lat_bucket_edges j)) \<le> unat (fst (lat_bucket_edges i))"
      using Cons.prems(1,2) power_increasing [of j i "2::nat"] edges(1) [OF i] edges(1) [of j] by auto
    also have "\<dots> \<le> interp i (unat t - unat cum) (unat c)" by (simp add: interp_def)
    finally show ?thesis
      using False interp_word [OF i c(1) Cons.prems(5) _ c(2)] by (simp only: percentile_scan.simps) simp
  qed
qed

lemma scan_mono:
  assumes "i + length cs = LAT_BUCKETS" "unat cum + sum_list (map unat cs) < 2 ^ 40" "cum \<le> t1" "t1 \<le> t2"
    "unat t2 \<le> unat cum + sum_list (map unat cs)"
  shows "unat (percentile_scan t1 i cum cs) \<le> unat (percentile_scan t2 i cum cs)"
  using assms
proof (induction cs arbitrary: i cum)
  case (Cons c cs)
  have i: "i < LAT_BUCKETS" using Cons.prems(1) by simp
  have c: "unat c < 2 ^ 40" "unat cum + unat c < 2 ^ 64" using Cons.prems(2) by auto
  then have cc: "unat (cum + c) = unat cum + unat c" by (simp add: unat_add_lem [THEN iffD1])
  note w = interp_word [OF i c(1) _ _ c(2)]
  have t2: "cum \<le> t2" using Cons.prems by simp
  consider "c = 0" | "c \<noteq> 0" "t2 \<le> cum + c" | "c \<noteq> 0" "t1 \<le> cum + c" "cum + c < t2" | "c \<noteq> 0" "cum + c < t1"
    by (meson not_le)
  then show ?case
  proof cases
    case 1
    then show ?thesis using Cons by simp
  next
    case 2
    have "interp i (unat t1 - unat cum) (unat c) \<le> interp i (unat t2 - unat cum) (unat c)"
      using Cons.prems(4) by (auto simp: interp_def word_le_nat_alt intro!: div_le_mono mult_le_mono2 diff_le_mono)
    then show ?thesis
      using 2 Cons.prems(4) w [OF Cons.prems(3) order_trans [OF Cons.prems(4) 2(2)]] w [OF t2 2(2)]
      by (simp add: order_trans [OF Cons.prems(4) 2(2)])
  next
    case 3
    have rest: "cs \<noteq> []" using 3 Cons.prems(5) cc by (auto simp: word_less_nat_alt)
    then have si: "Suc i < LAT_BUCKETS" using Cons.prems(1) by (cases cs) auto
    have "unat t1 - unat cum \<le> unat c" using 3(2) cc by (simp add: word_le_nat_alt)
    then have "interp i (unat t1 - unat cum) (unat c) \<le> unat (snd (lat_bucket_edges i))" by (rule interp_le [OF i])
    also have "\<dots> = unat (fst (lat_bucket_edges (Suc i)))" by (simp only: edges [OF i] edges [OF si]) simp
    also have "\<dots> \<le> unat (percentile_scan t2 (Suc i) (cum + c) cs)"
      using Cons.prems 3 si cc by (intro scan_ge) auto
    finally have le: "interp i (unat t1 - unat cum) (unat c) \<le> unat (percentile_scan t2 (Suc i) (cum + c) cs)" .
    have "\<not> t2 \<le> cum + c" using 3(3) by (simp only: not_le)
    with le show ?thesis using 3(1,2) w [OF Cons.prems(3) 3(2)] by simp
  next
    case 4
    then have "\<not> t1 \<le> cum + c" "\<not> t2 \<le> cum + c" using Cons.prems(4) by auto
    moreover have "unat (percentile_scan t1 (Suc i) (cum + c) cs) \<le> unat (percentile_scan t2 (Suc i) (cum + c) cs)"
      using Cons.prems 4 cc by (intro Cons.IH) auto
    ultimately show ?thesis using 4(1) by simp
  qed
qed simp

lemma sum_list_unat:
  "sum_list (map unat cs) < 2 ^ 64 \<Longrightarrow> unat (sum_list cs :: u64) = sum_list (map unat cs)"
  by (induction cs) (auto simp: unat_add_lem [THEN iffD1])

text \<open>
  The reported percentiles are ordered: the 50th never exceeds the 99th, and neither exceeds the
  top edge of the histogram, for every histogram with fewer than \<open>2 ^ 40\<close> samples.
\<close>

theorem p50_le_p99:
  assumes len: "length h = LAT_BUCKETS" and small: "sum_list (map unat h) < 2 ^ 40"
  shows "fst (fst (take_p50_p99 h)) \<le> snd (fst (take_p50_p99 h))"
proof -
  let ?T = "sum_list h" and ?n = "sum_list (map unat h)"
  have T: "unat ?T = ?n" using small by (intro sum_list_unat) simp
  have tgt: "unat (max (sat_add (sat_mul ?T p) 99 div 100) 1) = max ((?n * unat p + 99) div 100) 1"
    if "p \<le> 100" for p :: u64
  proof -
    have "unat p \<le> 100" using that by (simp add: word_le_nat_alt)
    then have "?n * unat p \<le> ?n * 100" by (rule mult_le_mono2)
    moreover have "?n * 100 + 99 < 2 ^ 64" using small by simp
    ultimately have "?n * unat p + 99 < 2 ^ 64" by linarith
    then show ?thesis using T by (simp add: unat_max unat_div unat_sat_add unat_sat_mul)
  qed
  show ?thesis
  proof (cases "?T = 0")
    case False
    then have "0 < ?n" using T by (metis gr0I unat_eq_zero)
    then show ?thesis
      using False len small tgt [of 50] tgt [of 99]
      by (auto simp: take_p50_p99_def percentile_def Let_def word_le_nat_alt intro!: scan_mono)
  qed (simp add: take_p50_p99_def percentile_def)
qed

theorem p50_le_p99_witness:
  "fst (fst (take_p50_p99 (replicate LAT_BUCKETS 7))) \<le> snd (fst (take_p50_p99 (replicate LAT_BUCKETS 7)))"
  by (rule p50_le_p99) (simp_all add: sum_list_replicate LAT_BUCKETS_def)

subsection \<open>Edge logging and the stats line\<close>

text \<open>A sequence of backlog readings, with what each one logs.\<close>

fun note_all :: "(nat \<times> u64) list \<Rightarrow> counters \<Rightarrow> backlog_log list" where
  "note_all [] c = []"
| "note_all ((d, now) # rs) c = (let (l, c') = note_cpu_backlog d now c in l @ note_all rs c')"

definition is_full :: "backlog_log \<Rightarrow> bool" where
  "is_full l = (case l of BacklogFull _ \<Rightarrow> True | BacklogCleared _ \<Rightarrow> False)"

text \<open>
  However often the backlog is polled, exactly one line is logged per edge between empty and
  full: the logged kinds are the reading sequence with every repetition removed, starting from the
  state of the last reading.
\<close>

theorem backlog_logged_once_per_edge:
  "c_backlog_warned c # map is_full (note_all rs c) = remdups_adj (c_backlog_warned c # map (\<lambda>r. 0 < fst r) rs)"
proof (induction rs arbitrary: c)
  case (Cons r rs)
  obtain d now where r: "r = (d, now)" by fastforce
  obtain l c' where n: "note_cpu_backlog d now c = (l, c')" by fastforce
  have "c_backlog_warned c' = (0 < d)"
    "c_backlog_warned c # map is_full l = remdups_adj [c_backlog_warned c, 0 < d]"
    using n by (auto simp: note_cpu_backlog_def is_full_def split: if_splits)
  with Cons [of c'] show ?case
    by (auto simp: r n split: if_splits)
qed simp

text \<open>
  The stats line stays one logfmt record whatever the host is called: the host field is never
  empty and contains no blank, and printing the line drains all three latency histograms.
\<close>

theorem stats_line_wellformed:
  "host raw \<noteq> [] \<and> set (host raw) \<subseteq> {c. host_safe (of_char c)}
   \<and> c_lat_sync (snd (stats_line pid raw rss c)) = LatencyHist_default
   \<and> c_lat_async (snd (stats_line pid raw rss c)) = LatencyHist_default
   \<and> c_lat_cpu (snd (stats_line pid raw rss c)) = LatencyHist_default"
proof -
  have us: "host_safe (of_char CHR ''_'')" by (simp add: host_safe_def)
  have ch: "host_safe n \<Longrightarrow> of_char (char_of n :: char) = n" for n
    by (auto simp: host_safe_def)
  have unk: "set ''unknown'' \<subseteq> {c. host_safe (of_char c)}" by (simp add: host_safe_def)
  show ?thesis
    using us ch unk by (auto simp: host_def Let_def stats_line_def take_p50_p99_def LatencyHist_default_def)
qed

end
