(* ===== verification/Clock.thy ===== *)
theory Clock
  imports Redis "HOL-Library.Signed_Division"
begin

section \<open>The Redis anchored clock (clock.rs, and the local clock of ctx.rs)\<close>

text \<open>
  Absolute instants are read from one clock for the whole fleet: Redis \<open>TIME\<close>, sampled, and
  extrapolated in between by the host's monotonic clock. A signed 64 bit integer is an \<open>int\<close> with
  the saturation or wrap-around of the source written out. The monotonic clock is the argument \<open>m\<close>
  (milliseconds since an arbitrary origin), the host's wall clock the argument \<open>local\<close>; the global
  \<open>CLOCK\<close> cell is an option, empty until the first sample.
\<close>

definition i64_sat :: "int \<Rightarrow> int" where
  "i64_sat x = max (- (2 ^ 63)) (min x (2 ^ 63 - 1))"

definition i64_wrap :: "int \<Rightarrow> int" where
  "i64_wrap x = sint (word_of_int x :: u64)"

definition SAMPLE_BASE_S :: u64 where
  "SAMPLE_BASE_S = 15"

definition SAMPLE_SPREAD_S :: u64 where
  "SAMPLE_SPREAD_S = 15"

definition STALE_AFTER_MS :: int where
  "STALE_AFTER_MS = 90000"

definition SKEW_WARN_MS :: int where
  "SKEW_WARN_MS = 1000"

text \<open>\<open>ctx::now_ms_from\<close>: milliseconds since the epoch, or 0 with a warning given once.\<close>

definition now_ms_from :: "nat option \<Rightarrow> bool \<Rightarrow> u64 \<times> bool \<times> bool" where
  "now_ms_from since_epoch warned =
     (case since_epoch of
        Some ms \<Rightarrow> (of_nat ms, warned, False)
      | None \<Rightarrow> (0, True, \<not> warned))"

record redis_clock =
  rc_anchor_ms :: int
  rc_base :: int
  rc_sampled_at_ms :: int

definition anchored :: "int \<Rightarrow> int \<Rightarrow> redis_clock" where
  "anchored redis_ms m = \<lparr>rc_anchor_ms = redis_ms, rc_base = m, rc_sampled_at_ms = 0\<rparr>"

definition elapsed_ms :: "redis_clock \<Rightarrow> int \<Rightarrow> int" where
  "elapsed_ms clock m = i64_wrap (m - rc_base clock)"

definition clock_now_ms :: "redis_clock \<Rightarrow> int \<Rightarrow> u64" where
  "clock_now_ms clock m = word_of_int (max (i64_sat (rc_anchor_ms clock + elapsed_ms clock m)) 0)"

definition apply_sample :: "redis_clock \<Rightarrow> int \<Rightarrow> int \<Rightarrow> redis_clock" where
  "apply_sample clock redis_ms m =
     (let elapsed = elapsed_ms clock m
      in clock\<lparr>rc_anchor_ms := i64_sat (redis_ms - elapsed), rc_sampled_at_ms := elapsed\<rparr>)"

definition staleness_ms :: "redis_clock \<Rightarrow> int \<Rightarrow> int" where
  "staleness_ms clock m = i64_wrap (elapsed_ms clock m - rc_sampled_at_ms clock)"

definition clock_read :: "redis_clock option \<Rightarrow> int \<Rightarrow> u64 \<Rightarrow> u64" where
  "clock_read CLOCK m local = (case CLOCK of Some clock \<Rightarrow> clock_now_ms clock m | None \<Rightarrow> local)"

definition time_reply_to_ms :: "int \<Rightarrow> int \<Rightarrow> int" where
  "time_reply_to_ms secs micros = i64_sat (i64_sat (secs * 1000) + micros sdiv 1000)"

definition clock_sample :: "'s world \<Rightarrow> 's \<Rightarrow> (redis_error, int) result \<times> 's" where
  "clock_sample W s =
     (case w_query W TIME s of
        (Inr (RTime secs micros), s') \<Rightarrow> (Inr (time_reply_to_ms secs micros), s')
      | (Inr _, s') \<Rightarrow> (Inl type_error, s')
      | (Inl e, s') \<Rightarrow> (Inl e, s'))"

text \<open>\<open>raced\<close> is the clock another thread installed after this one saw the cell empty.\<close>

definition record_sample :: "redis_clock option \<Rightarrow> redis_clock option \<Rightarrow> int \<Rightarrow> int \<Rightarrow> redis_clock option" where
  "record_sample CLOCK raced redis_ms m =
     (case CLOCK of
        Some clock \<Rightarrow> Some (apply_sample clock redis_ms m)
      | None \<Rightarrow>
          (case raced of
             None \<Rightarrow> Some (anchored redis_ms m)
           | Some clock \<Rightarrow> Some (apply_sample clock redis_ms m)))"

datatype clock_log = SkewWarn int | ClockAnchored int | TimeFailed | StaleWarn int | StillFailing | Reanchored

definition clock_init :: "'s world \<Rightarrow> int \<Rightarrow> u64 \<Rightarrow> redis_clock option \<Rightarrow> 's
    \<Rightarrow> clock_log \<times> redis_clock option \<times> 's" where
  "clock_init W m local CLOCK s =
     (case clock_sample W s of
        (Inr redis_ms, s') \<Rightarrow>
          (let skew_ms = i64_wrap (redis_ms - sint local)
           in (if SKEW_WARN_MS \<le> i64_wrap \<bar>skew_ms\<bar> then SkewWarn skew_ms else ClockAnchored skew_ms,
               record_sample CLOCK None redis_ms m, s'))
      | (Inl _, s') \<Rightarrow> (TimeFailed, CLOCK, s'))"

definition sample_period :: "u32 \<Rightarrow> u64" where
  "sample_period pid = SAMPLE_BASE_S + ucast pid mod SAMPLE_SPREAD_S"

text \<open>One tick of \<open>sampler_loop\<close>: the clock cell and the outage flag.\<close>

definition sampler_tick :: "(redis_error, int) result \<Rightarrow> int \<Rightarrow> redis_clock option \<times> bool
    \<Rightarrow> clock_log list \<times> redis_clock option \<times> bool" where
  "sampler_tick r m st =
     (case st of (CLOCK, warned) \<Rightarrow>
        case r of
          Inr redis_ms \<Rightarrow>
            (if warned then [Reanchored] else [], record_sample CLOCK None redis_ms m, False)
        | Inl _ \<Rightarrow>
            (let stale_ms = (case CLOCK of None \<Rightarrow> 2 ^ 63 - 1 | Some clock \<Rightarrow> staleness_ms clock m)
             in if STALE_AFTER_MS \<le> stale_ms
                then (if warned then [] else [case CLOCK of Some _ \<Rightarrow> StaleWarn stale_ms | None \<Rightarrow> StillFailing],
                      CLOCK, True)
                else ([], CLOCK, warned)))"

fun sampler_ticks :: "((redis_error, int) result \<times> int) list \<Rightarrow> redis_clock option \<times> bool
    \<Rightarrow> clock_log list \<times> redis_clock option \<times> bool" where
  "sampler_ticks [] st = ([], st)"
| "sampler_ticks ((r, m) # ts) st =
     (let (l, st1) = sampler_tick r m st; (ls, st2) = sampler_ticks ts st1 in (l @ ls, st2))"

section \<open>Correctness of the clock\<close>

definition i64_ok :: "int \<Rightarrow> bool" where
  "i64_ok x \<longleftrightarrow> - (2 ^ 63) \<le> x \<and> x < 2 ^ 63"

lemma i64_wrap_id: "i64_ok x \<Longrightarrow> i64_wrap x = x"
  unfolding i64_ok_def i64_wrap_def sint_sbintrunc' by (intro signed_take_bit_int_eq_self) simp_all

lemma i64_sat_id: "i64_ok x \<Longrightarrow> i64_sat x = x"
  by (auto simp: i64_ok_def i64_sat_def)

text \<open>
  Between samples the clock shows the last sampled Redis time plus the monotonic time since,
  exactly: it starts on the sample, never runs backwards, and advances with the monotonic clock
  only. This holds for the first sample, which installs an anchored clock, for every later one,
  and when another thread installed its clock in between.
\<close>

theorem clock_extrapolates_last_sample:
  assumes rec: "record_sample CLOCK raced redis_ms m = Some clock"
    and base: "case CLOCK of Some c \<Rightarrow> rc_base c \<le> m | None \<Rightarrow> (case raced of Some c \<Rightarrow> rc_base c \<le> m | None \<Rightarrow> True)"
    and later: "m \<le> m'" and range: "m' - rc_base clock < 2 ^ 63" "0 \<le> redis_ms" "redis_ms + (m' - m) < 2 ^ 63"
  shows "uint (clock_now_ms clock m') = redis_ms + (m' - m)"
proof -
  have mb: "rc_base clock \<le> m"
    using rec base by (auto simp: record_sample_def anchored_def apply_sample_def Let_def split: option.splits)
  have el: "elapsed_ms clock x = x - rc_base clock" if "m \<le> x" "x \<le> m'" for x
    using mb that range unfolding elapsed_ms_def by (intro i64_wrap_id) (simp add: i64_ok_def)
  have base_eq: "elapsed_ms c m = elapsed_ms clock m" if "clock = apply_sample c redis_ms m" for c
    using that by (simp add: elapsed_ms_def apply_sample_def Let_def)
  have anchor: "rc_anchor_ms clock = redis_ms - (m - rc_base clock)"
  proof -
    have "i64_sat (redis_ms - (m - rc_base clock)) = redis_ms - (m - rc_base clock)"
      using mb later range by (intro i64_sat_id) (simp add: i64_ok_def)
    then have ap: "rc_anchor_ms (apply_sample c redis_ms m) = redis_ms - (m - rc_base clock)"
      if "clock = apply_sample c redis_ms m" for c
      using base_eq [OF that] el [of m] later by (simp add: apply_sample_def Let_def)
    from rec consider c where "clock = apply_sample c redis_ms m" | "clock = anchored redis_ms m"
      by (auto simp: record_sample_def split: option.splits)
    then show ?thesis
    proof cases
      case 1
      from ap [OF 1] show ?thesis by (subst 1)
    qed (simp add: anchored_def)
  qed
  have "i64_sat (rc_anchor_ms clock + elapsed_ms clock m') = redis_ms + (m' - m)"
    unfolding anchor using el [of m'] later range by (subst i64_sat_id) (simp_all add: i64_ok_def)
  moreover have "uint (word_of_int x :: u64) = x" if "0 \<le> x" "x < 2 ^ 63" for x :: int
    using that by (simp add: uint_word_of_int take_bit_int_eq_self_iff)
  ultimately show ?thesis
    using later range unfolding clock_now_ms_def by (simp only: max_absorb1)
qed

theorem clock_extrapolates_last_sample_witness:
  "uint (clock_now_ms (apply_sample (anchored 5000 100) 9000 300) 450) = 9150"
  using clock_extrapolates_last_sample [of "Some (anchored 5000 100)" None 9000 300 "apply_sample (anchored 5000 100) 9000 300" 450]
  by (simp add: record_sample_def anchored_def apply_sample_def Let_def)

definition is_outage :: "clock_log \<Rightarrow> bool" where
  "is_outage l = (case l of StaleWarn _ \<Rightarrow> True | StillFailing \<Rightarrow> True | _ \<Rightarrow> False)"

text \<open>
  The sampler logs one warning per outage and one line per recovery: over any sequence of
  sample results the logged lines alternate, starting from the outage flag, and the flag ends up
  at the last line logged.
\<close>

theorem sampler_logs_alternate:
  "successively (\<noteq>) (snd st # map is_outage (fst (sampler_ticks ts st)))
   \<and> snd (snd (sampler_ticks ts st)) = last (snd st # map is_outage (fst (sampler_ticks ts st)))"
proof (induction ts arbitrary: st)
  case (Cons t ts)
  obtain r m where t: "t = (r, m)" by fastforce
  obtain l st1 where s: "sampler_tick r m st = (l, st1)" by (cases "sampler_tick r m st") blast
  have step: "l = [] \<and> snd st1 = snd st \<or> (\<exists>x. l = [x] \<and> is_outage x \<noteq> snd st \<and> snd st1 = is_outage x)"
    using s by (auto simp: sampler_tick_def is_outage_def Let_def split: prod.splits sum.splits option.splits if_splits)
  obtain ls st2 where rest: "sampler_ticks ts st1 = (ls, st2)" by (cases "sampler_ticks ts st1") blast
  from step Cons [of st1] rest s show ?case by (auto simp: t)
qed simp

text \<open>The resampling period lies between 15 and 29 seconds for every process id.\<close>

theorem sample_period_bounds: "15 \<le> unat (sample_period pid) \<and> unat (sample_period pid) < 30"
proof -
  have "unat (ucast pid mod SAMPLE_SPREAD_S :: u64) < 15"
    by (simp add: unat_mod SAMPLE_SPREAD_S_def)
  then show ?thesis unfolding sample_period_def SAMPLE_BASE_S_def
    by (subst (1 2) unat_add_lem [THEN iffD1]) simp_all
qed

end
