(* ===== verification/Envelope.thy ===== *)
theory Envelope
  imports F64 "HOL-Library.Monad_Syntax" "HOL-Library.Char_ord" "HOL-Library.List_Lexorder"
begin

section \<open>Task envelopes (envelope.rs)\<close>

text \<open>
  The task envelope, its deserialisation field by field (the \<open>derive\<close>d visitor with every
  \<open>default\<close> and \<open>deserialize_with\<close> of the source), its serialisation, the deadlines computed from
  it and the result values. Rust's \<open>str\<close> is its list of UTF-8 bytes, one \<open>char\<close> each.

  JSON text is read and written by the serde_json crate: the parameter \<open>json_lib\<close>. \<open>jl_members\<close>
  gives the members of an object text in order, each with its key and its value's own text;
  \<open>jl_tree\<close> is a full parse of a value (it refuses more than the raw capture does), \<open>jl_show\<close> the
  compact printer, \<open>jl_object\<close> an object printed from member texts, \<open>jl_f64\<close> and \<open>jl_show_f64\<close> the
  conversion between number text and \<open>f64\<close>, \<open>jl_elems\<close> the elements of an array text, \<open>jl_describe\<close> the
  message for a text that cannot be read. With the crate's \<open>arbitrary_precision\<close> feature a
  number is its text.
\<close>

subsection \<open>JSON values\<close>

datatype jval =
    JNull
  | JBool bool
  | JNum string
  | JStr string
  | JArr "jval list"
  | JObj "(string \<times> jval) list"

record json_lib =
  jl_members :: "string \<Rightarrow> (string \<times> string) list option"
  jl_elems :: "string \<Rightarrow> string list option"
  jl_tree :: "string \<Rightarrow> jval option"
  jl_show :: "jval \<Rightarrow> string"
  jl_object :: "(string \<times> string) list \<Rightarrow> string"
  jl_f64 :: "string \<Rightarrow> f64 option"
  jl_show_f64 :: "f64 \<Rightarrow> string"
  jl_describe :: "string \<Rightarrow> string"

text \<open>\<open>str::parse::<f64>\<close> on the JSON number grammar, correctly rounded: sign, digits, fraction,
  exponent.\<close>

fun take_digits :: "string \<Rightarrow> string \<times> string" where
  "take_digits [] = ([], [])"
| "take_digits (c # cs) =
     (if is_digit c then let (a, b) = take_digits cs in (c # a, b) else ([], c # cs))"

definition take_sign :: "string \<Rightarrow> bool \<times> string" where
  "take_sign s = (case s of
      [] \<Rightarrow> (False, [])
    | c # cs \<Rightarrow> if c = CHR ''-'' then (True, cs) else if c = CHR ''+'' then (False, cs) else (False, s))"

definition parse_exponent :: "string \<Rightarrow> int option" where
  "parse_exponent s = (case s of
      [] \<Rightarrow> Some 0
    | c # cs \<Rightarrow>
        if c = CHR ''e'' \<or> c = CHR ''E''
        then let (neg, ds) = take_sign cs
             in if ds = [] then None
                else map_option (\<lambda>n. if neg then - int n else int n) (parse_digits 0 ds)
        else None)"

definition parse_decimal :: "string \<Rightarrow> rat option" where
  "parse_decimal s =
     (let (neg, s1) = take_sign s;
          (ip, s2) = take_digits s1;
          (fp, s3) = (case s2 of [] \<Rightarrow> ([], []) | c # cs \<Rightarrow> if c = CHR ''.'' then take_digits cs else ([], s2))
      in if ip = [] then None
         else do {
           ex \<leftarrow> parse_exponent s3;
           m \<leftarrow> parse_digits 0 (ip @ fp);
           Some ((if neg then -1 else 1) * of_nat m * 10 powi (ex - int (length fp)))
         })"

definition parse_f64 :: "string \<Rightarrow> f64 option" where
  "parse_f64 s = map_option f64_of_rat (parse_decimal s)"

text \<open>\<open>Number::as_u64\<close> and \<open>Number::as_f64\<close> on number text.\<close>

definition as_f64 :: "string \<Rightarrow> f64 option" where
  "as_f64 n = (case parse_f64 n of Some f \<Rightarrow> if is_finite f then Some f else None | None \<Rightarrow> None)"

subsection \<open>Reading a field\<close>

datatype de_error = NotANumber jval | NotWhole string | OutOfRangeU32 u64

definition value_to_u64 :: "jval \<Rightarrow> (de_error, u64) result" where
  "value_to_u64 v =
     (case v of
        JNum n \<Rightarrow>
          (case parse_u64 n of
             Some u \<Rightarrow> Inr u
           | None \<Rightarrow>
               (case as_f64 n of
                  Some f \<Rightarrow>
                    if is_finite f \<and> f64_is_whole f \<and> f64_le (Fin 0) f
                       \<and> f64_less f (f64_of_u64 (- 1))
                    then Inr (f64_as_u64 f) else Inl (NotWhole n)
                | None \<Rightarrow> Inl (NotWhole n)))
      | other \<Rightarrow> Inl (NotANumber other))"

definition MAX_TIMEOUT_MS :: u64 where
  "MAX_TIMEOUT_MS = 86400000"

definition ok :: "('e, 'a) result \<Rightarrow> 'a option" where
  "ok r = (case r of Inl _ \<Rightarrow> None | Inr a \<Rightarrow> Some a)"

definition deserialize_flexible_u64 :: "json_lib \<Rightarrow> string \<Rightarrow> u64 option" where
  "deserialize_flexible_u64 L raw = jl_tree L raw \<bind> (\<lambda>v. ok (value_to_u64 v))"

definition deserialize_flexible_u32 :: "json_lib \<Rightarrow> string \<Rightarrow> u32 option" where
  "deserialize_flexible_u32 L raw =
     do {
       v \<leftarrow> jl_tree L raw;
       n \<leftarrow> ok (value_to_u64 v);
       if n < 2 ^ 32 then Some (ucast n) else None
     }"

definition deserialize_flexible_opt_u64 :: "json_lib \<Rightarrow> string \<Rightarrow> u64 option option" where
  "deserialize_flexible_opt_u64 L raw =
     (case jl_tree L raw of
        None \<Rightarrow> None
      | Some JNull \<Rightarrow> Some None
      | Some v \<Rightarrow> map_option Some (ok (value_to_u64 v)))"

definition deserialize_timeout_ms :: "json_lib \<Rightarrow> string \<Rightarrow> u64 option" where
  "deserialize_timeout_ms L raw = map_option (min MAX_TIMEOUT_MS) (deserialize_flexible_u64 L raw)"

text \<open>The library's own readers for \<open>String\<close>, \<open>bool\<close>, \<open>f64\<close>, \<open>Option<Box<RawValue>>\<close> and the options of
  the first and third.\<close>

definition de_string :: "json_lib \<Rightarrow> string \<Rightarrow> string option" where
  "de_string L raw = (case jl_tree L raw of Some (JStr s) \<Rightarrow> Some s | _ \<Rightarrow> None)"

definition de_bool :: "json_lib \<Rightarrow> string \<Rightarrow> bool option" where
  "de_bool L raw = (case jl_tree L raw of Some (JBool b) \<Rightarrow> Some b | _ \<Rightarrow> None)"

definition de_f64 :: "json_lib \<Rightarrow> string \<Rightarrow> f64 option" where
  "de_f64 L raw = (case jl_tree L raw of Some (JNum n) \<Rightarrow> jl_f64 L n | _ \<Rightarrow> None)"

definition de_opt :: "json_lib \<Rightarrow> (json_lib \<Rightarrow> string \<Rightarrow> 'a option) \<Rightarrow> string \<Rightarrow> 'a option option" where
  "de_opt L de raw = (if jl_tree L raw = Some JNull then Some None else map_option Some (de L raw))"

definition de_raw :: "json_lib \<Rightarrow> string \<Rightarrow> string option option" where
  "de_raw L raw = (if jl_tree L raw = Some JNull then Some None else Some (Some raw))"

text \<open>One field of the visitor: present, or its default; a required field has no default.\<close>

definition field :: "(string \<times> string) list \<Rightarrow> string \<Rightarrow> (string \<Rightarrow> 'a option) \<Rightarrow> 'a option \<Rightarrow> 'a option" where
  "field ms k de dflt = (case map_of ms k of Some raw \<Rightarrow> de raw | None \<Rightarrow> dflt)"

text \<open>A derived struct without a flattened rest reads from an object, unknown keys ignored, or from an
  array holding a prefix of its fields in order; a repeated known key is an error.\<close>

definition struct_members :: "json_lib \<Rightarrow> string list \<Rightarrow> string \<Rightarrow> (string \<times> string) list option" where
  "struct_members L flds raw =
     (case jl_members L raw of
        Some ms \<Rightarrow> if distinct (filter (\<lambda>k. k \<in> set flds) (map fst ms)) then Some ms else None
      | None \<Rightarrow>
          (case jl_elems L raw of
             Some es \<Rightarrow> if length es \<le> length flds then Some (zip flds es) else None
           | None \<Rightarrow> None))"

subsection \<open>The envelope\<close>

record envelope =
  e_v :: u32
  e_id :: string
  e_task :: string
  e_args :: "string option"
  e_kwargs :: "string option"
  e_queue :: string
  e_kind :: string
  e_retries :: u32
  e_max_retries :: u32
  e_backoff_base_ms :: u64
  e_backoff_factor :: f64
  e_backoff_max_ms :: u64
  e_jitter :: bool
  e_timeout_ms :: u64
  e_soft_timeout_ms :: "u64 option"
  e_idempotency_key :: "string option"
  e_store_result :: bool
  e_enqueued_at :: u64
  e_not_before :: "f64 option"
  e_expires_at :: "u64 option"
  e_extra :: "(string \<times> jval) list"

definition PROTOCOL_VERSION :: u32 where
  "PROTOCOL_VERSION = 1"

text \<open>The default functions of the source.\<close>

definition d_v :: u32 where "d_v = 1"
definition d_queue :: string where "d_queue = ''default''"
definition d_kind :: string where "d_kind = ''io''"
definition d_max_retries :: u32 where "d_max_retries = 3"
definition d_backoff_base :: u64 where "d_backoff_base = 500"
definition d_backoff_factor :: f64 where "d_backoff_factor = Fin 2"
definition d_backoff_max :: u64 where "d_backoff_max = 60000"
definition d_true :: bool where "d_true = True"
definition d_timeout :: u64 where "d_timeout = 300000"

definition known_fields :: "string list" where
  "known_fields = [''v'', ''id'', ''task'', ''args'', ''kwargs'', ''queue'', ''kind'', ''retries'', ''max_retries'',
     ''backoff_base_ms'', ''backoff_factor'', ''backoff_max_ms'', ''jitter'', ''timeout_ms'', ''soft_timeout_ms'',
     ''idempotency_key'', ''store_result'', ''enqueued_at'', ''not_before'', ''expires_at'']"

text \<open>\<open>BTreeMap\<close>: pairs in key order; inserting replaces.\<close>

definition bt_insert :: "string \<Rightarrow> jval \<Rightarrow> (string \<times> jval) list \<Rightarrow> (string \<times> jval) list" where
  "bt_insert k x m = insort_key fst (k, x) (filter (\<lambda>p. fst p \<noteq> k) m)"

fun collect_extra :: "json_lib \<Rightarrow> (string \<times> string) list \<Rightarrow> (string \<times> jval) list \<Rightarrow> (string \<times> jval) list option" where
  "collect_extra L [] m = Some m"
| "collect_extra L ((k, raw) # ms) m =
     (if k \<in> set known_fields then collect_extra L ms m
      else case jl_tree L raw of None \<Rightarrow> None | Some x \<Rightarrow> collect_extra L ms (bt_insert k x m))"

definition envelope_of_members :: "json_lib \<Rightarrow> (string \<times> string) list \<Rightarrow> envelope option" where
  "envelope_of_members L ms =
     (if \<not> distinct (filter (\<lambda>k. k \<in> set known_fields) (map fst ms)) then None
      else do {
        e_v \<leftarrow> field ms ''v'' (deserialize_flexible_u32 L) (Some d_v);
        e_id \<leftarrow> field ms ''id'' (de_string L) None;
        e_task \<leftarrow> field ms ''task'' (de_string L) None;
        e_args \<leftarrow> field ms ''args'' (de_raw L) (Some None);
        e_kwargs \<leftarrow> field ms ''kwargs'' (de_raw L) (Some None);
        e_queue \<leftarrow> field ms ''queue'' (de_string L) (Some d_queue);
        e_kind \<leftarrow> field ms ''kind'' (de_string L) (Some d_kind);
        e_retries \<leftarrow> field ms ''retries'' (deserialize_flexible_u32 L) (Some 0);
        e_max_retries \<leftarrow> field ms ''max_retries'' (deserialize_flexible_u32 L) (Some d_max_retries);
        e_backoff_base_ms \<leftarrow> field ms ''backoff_base_ms'' (deserialize_flexible_u64 L) (Some d_backoff_base);
        e_backoff_factor \<leftarrow> field ms ''backoff_factor'' (de_f64 L) (Some d_backoff_factor);
        e_backoff_max_ms \<leftarrow> field ms ''backoff_max_ms'' (deserialize_flexible_u64 L) (Some d_backoff_max);
        e_jitter \<leftarrow> field ms ''jitter'' (de_bool L) (Some d_true);
        e_timeout_ms \<leftarrow> field ms ''timeout_ms'' (deserialize_timeout_ms L) (Some d_timeout);
        e_soft_timeout_ms \<leftarrow> field ms ''soft_timeout_ms'' (deserialize_flexible_opt_u64 L) (Some None);
        e_idempotency_key \<leftarrow> field ms ''idempotency_key'' (de_opt L de_string) (Some None);
        e_store_result \<leftarrow> field ms ''store_result'' (de_bool L) (Some d_true);
        e_enqueued_at \<leftarrow> field ms ''enqueued_at'' (deserialize_flexible_u64 L) (Some 0);
        e_not_before \<leftarrow> field ms ''not_before'' (de_opt L de_f64) (Some None);
        e_expires_at \<leftarrow> field ms ''expires_at'' (deserialize_flexible_opt_u64 L) (Some None);
        e_extra \<leftarrow> collect_extra L ms [];
        Some \<lparr>e_v = e_v, e_id = e_id, e_task = e_task, e_args = e_args, e_kwargs = e_kwargs, e_queue = e_queue,
          e_kind = e_kind, e_retries = e_retries, e_max_retries = e_max_retries,
          e_backoff_base_ms = e_backoff_base_ms, e_backoff_factor = e_backoff_factor,
          e_backoff_max_ms = e_backoff_max_ms, e_jitter = e_jitter, e_timeout_ms = e_timeout_ms,
          e_soft_timeout_ms = e_soft_timeout_ms, e_idempotency_key = e_idempotency_key,
          e_store_result = e_store_result, e_enqueued_at = e_enqueued_at, e_not_before = e_not_before,
          e_expires_at = e_expires_at, e_extra = e_extra\<rparr>
      })"

definition envelope_from_str :: "json_lib \<Rightarrow> string \<Rightarrow> envelope option" where
  "envelope_from_str L raw = jl_members L raw \<bind> envelope_of_members L"

text \<open>\<open>Serialize\<close>: every field in declaration order, \<open>None\<close> as \<open>null\<close>, raw values verbatim, then the
  unknown fields.\<close>

definition show_bool :: "bool \<Rightarrow> string" where
  "show_bool b = (if b then ''true'' else ''false'')"

definition show_opt :: "('a \<Rightarrow> string) \<Rightarrow> 'a option \<Rightarrow> string" where
  "show_opt f x = (case x of None \<Rightarrow> ''null'' | Some a \<Rightarrow> f a)"

definition known_members :: "json_lib \<Rightarrow> envelope \<Rightarrow> (string \<times> string) list" where
  "known_members L e =
     [(''v'', show_nat (unat (e_v e))), (''id'', jl_show L (JStr (e_id e))), (''task'', jl_show L (JStr (e_task e))),
      (''args'', show_opt (\<lambda>r. r) (e_args e)), (''kwargs'', show_opt (\<lambda>r. r) (e_kwargs e)),
      (''queue'', jl_show L (JStr (e_queue e))), (''kind'', jl_show L (JStr (e_kind e))),
      (''retries'', show_nat (unat (e_retries e))), (''max_retries'', show_nat (unat (e_max_retries e))),
      (''backoff_base_ms'', show_u64 (e_backoff_base_ms e)), (''backoff_factor'', jl_show_f64 L (e_backoff_factor e)),
      (''backoff_max_ms'', show_u64 (e_backoff_max_ms e)), (''jitter'', show_bool (e_jitter e)),
      (''timeout_ms'', show_u64 (e_timeout_ms e)), (''soft_timeout_ms'', show_opt (\<lambda>n. show_u64 n) (e_soft_timeout_ms e)),
      (''idempotency_key'', show_opt (\<lambda>s. jl_show L (JStr s)) (e_idempotency_key e)),
      (''store_result'', show_bool (e_store_result e)), (''enqueued_at'', show_u64 (e_enqueued_at e)),
      (''not_before'', show_opt (jl_show_f64 L) (e_not_before e)),
      (''expires_at'', show_opt (\<lambda>n. show_u64 n) (e_expires_at e))]"

definition envelope_members :: "json_lib \<Rightarrow> envelope \<Rightarrow> (string \<times> string) list" where
  "envelope_members L e = known_members L e @ map (\<lambda>(k, x). (k, jl_show L x)) (e_extra e)"

definition envelope_to_string :: "json_lib \<Rightarrow> envelope \<Rightarrow> string" where
  "envelope_to_string L e = jl_object L (envelope_members L e)"

subsection \<open>Arguments and deadlines\<close>

definition args_raw :: "envelope \<Rightarrow> string" where
  "args_raw e = (case e_args e of None \<Rightarrow> ''[]'' | Some r \<Rightarrow> r)"

definition kwargs_raw :: "envelope \<Rightarrow> string" where
  "kwargs_raw e = (case e_kwargs e of None \<Rightarrow> ''{}'' | Some r \<Rightarrow> r)"

definition async_timeouts_s :: "envelope \<Rightarrow> f64 option \<times> f64" where
  "async_timeouts_s e =
     (case e_soft_timeout_ms e of
        Some soft \<Rightarrow> if soft > 0 \<and> soft < e_timeout_ms e then Some (f64_div (f64_of_u64 soft) (Fin 1000)) else None
      | None \<Rightarrow> None,
      f64_div (f64_of_u64 (e_timeout_ms e)) (Fin 1000))"

definition expiry_deadline_ms :: "envelope \<Rightarrow> u64 option \<Rightarrow> u64 option" where
  "expiry_deadline_ms e queue_ttl_ms =
     (let by_ttl = (case queue_ttl_ms of
                      Some ttl \<Rightarrow> if e_enqueued_at e > 0 then Some (sat_add (e_enqueued_at e) ttl) else None
                    | None \<Rightarrow> None)
      in case (e_expires_at e, by_ttl) of
           (Some a, Some b) \<Rightarrow> Some (min a b)
         | (Some a, None) \<Rightarrow> Some a
         | (None, b) \<Rightarrow> b)"

subsection \<open>Error objects and results\<close>

definition ORIGIN_WORKER :: string where
  "ORIGIN_WORKER = ''worker''"

record error_json =
  ej_type :: string
  ej_message :: string
  ej_traceback :: string
  ej_origin :: string

definition ErrorJson_new :: "string \<Rightarrow> string \<Rightarrow> error_json" where
  "ErrorJson_new ty msg = \<lparr>ej_type = ty, ej_message = msg, ej_traceback = '''', ej_origin = ORIGIN_WORKER\<rparr>"

definition error_members :: "json_lib \<Rightarrow> error_json \<Rightarrow> (string \<times> string) list" where
  "error_members L err =
     [(''type'', jl_show L (JStr (ej_type err))), (''message'', jl_show L (JStr (ej_message err))),
      (''traceback'', jl_show L (JStr (ej_traceback err)))]
     @ (if ej_origin err = [] then [] else [(''origin'', jl_show L (JStr (ej_origin err)))])"

definition result_success :: "string \<Rightarrow> u64 \<Rightarrow> string" where
  "result_success result_json finished_at =
     ''{\"status\":\"success\",\"result\":'' @ result_json @ '',\"error\":null,\"finished_at\":'' @ show_u64 finished_at @ ''}''"

definition result_failure :: "json_lib \<Rightarrow> error_json \<Rightarrow> u64 \<Rightarrow> string" where
  "result_failure L err finished_at =
     jl_object L [(''status'', jl_show L (JStr ''failure'')), (''result'', ''null''),
       (''error'', jl_object L (error_members L err)), (''finished_at'', show_u64 finished_at)]"

definition result_duplicate :: "json_lib \<Rightarrow> u64 \<Rightarrow> string \<Rightarrow> string" where
  "result_duplicate L finished_at claimant_id =
     jl_show L (JObj [(''status'', JStr ''duplicate''), (''result'', JNull), (''error'', JNull),
       (''claimant_id'', if claimant_id \<noteq> [] then JStr claimant_id else JNull),
       (''finished_at'', JNum (show_u64 finished_at))])"

definition result_expired :: "json_lib \<Rightarrow> u64 \<Rightarrow> u64 \<Rightarrow> string" where
  "result_expired L deadline_ms finished_at =
     jl_show L (JObj [(''status'', JStr ''expired''), (''result'', JNull),
       (''error'', JObj [(''type'', JStr ''Expired''),
          (''message'', JStr (''task expired at '' @ show_u64 deadline_ms @ '' (picked up at '' @ show_u64 finished_at
             @ '', '' @ show_u64 (sat_sub finished_at deadline_ms) @ ''ms late) and was discarded without running'')),
          (''traceback'', JStr ''''), (''origin'', JStr ORIGIN_WORKER)]),
       (''finished_at'', JNum (show_u64 finished_at))])"

text \<open>\<open>str::is_char_boundary\<close>: the end of the text, or a byte that does not continue a character.\<close>

definition is_continuation :: "char \<Rightarrow> bool" where
  "is_continuation c \<longleftrightarrow> 128 \<le> (of_char c :: nat) \<and> (of_char c :: nat) < 192"

definition is_char_boundary :: "string \<Rightarrow> nat \<Rightarrow> bool" where
  "is_char_boundary s i \<longleftrightarrow> i = 0 \<or> i = length s \<or> i < length s \<and> \<not> is_continuation (s ! i)"

fun back_off :: "string \<Rightarrow> nat \<Rightarrow> nat" where
  "back_off s 0 = 0"
| "back_off s (Suc e) = (if \<not> is_char_boundary s (Suc e) then back_off s e else Suc e)"

definition safe_truncate :: "string \<Rightarrow> nat \<Rightarrow> string" where
  "safe_truncate s max_bytes =
     (if length s \<le> max_bytes then s else take (back_off s max_bytes) s)"

definition redelivery_limit :: "envelope option \<Rightarrow> u64" where
  "redelivery_limit env = (case env of Some e \<Rightarrow> max 3 (ucast (e_max_retries e) + 1) | None \<Rightarrow> 3)"

section \<open>Correctness of envelopes\<close>

subsection \<open>Numbers\<close>

text \<open>
  A number is accepted as an integer only at its exact value: either its text is that integer,
  or its floating point reading is exactly that whole number. Fractions, negative numbers and
  numbers out of range are refused, never truncated or wrapped.
\<close>

theorem flexible_u64_exact:
  "value_to_u64 x = Inr u \<longleftrightarrow>
     (\<exists>n. x = JNum n \<and>
        (parse_u64 n = Some u \<or> parse_u64 n = None \<and> as_f64 n = Some (Fin (of_nat (unat u)))))"
proof (cases x)
  case (JNum n)
  have "(of_nat (unat u) :: rat) < of_nat (2 ^ 64)" unfolding of_nat_less_iff by (rule unat_lt_64)
  then have u: "f64_as_u64 (Fin (of_nat (unat u))) = u" "f64_less (Fin (of_nat (unat u))) (Fin (2 ^ 64))"
    using f64_as_u64_nat [OF unat_lt_64] by (simp_all only: word_unat_eq_iff) simp
  have whole: "is_finite f \<and> f64_is_whole f \<and> f64_le (Fin 0) f \<and> f64_less f (Fin (2 ^ 64)) \<and> f64_as_u64 f = u \<longleftrightarrow>
      f = Fin (of_nat (unat u))" for f
  proof
    assume f: "is_finite f \<and> f64_is_whole f \<and> f64_le (Fin 0) f \<and> f64_less f (Fin (2 ^ 64)) \<and> f64_as_u64 f = u"
    then have "f = Fin (of_nat (unat (f64_as_u64 f)))" by (intro f64_whole_in_range) simp_all
    then show "f = Fin (of_nat (unat u))" using f by (simp only:)
  next
    have "is_finite (Fin (of_nat k)) \<and> f64_is_whole (Fin (of_nat k)) \<and> f64_le (Fin 0) (Fin (of_nat k))" for k by simp
    then show "is_finite f \<and> f64_is_whole f \<and> f64_le (Fin 0) f \<and> f64_less f (Fin (2 ^ 64)) \<and> f64_as_u64 f = u"
      if "f = Fin (of_nat (unat u))" using u unfolding that by (simp only: simp_thms)
  qed
  show ?thesis
  proof (cases "as_f64 n")
    case (Some f)
    then show ?thesis
      unfolding value_to_u64_def f64_of_u64_max JNum jval.case jval.inject ex_simps(1) simp_thms(39)
      using whole [of f] by (cases "parse_u64 n") (simp_all del: of_nat_unat, blast?)
  qed (auto simp: JNum value_to_u64_def split: option.splits)
qed (auto simp: value_to_u64_def)

subsection \<open>Reading and writing\<close>

definition env_wf :: "json_lib \<Rightarrow> envelope \<Rightarrow> bool" where
  "env_wf L e \<longleftrightarrow>
     e_timeout_ms e \<le> MAX_TIMEOUT_MS
     \<and> (\<forall>r\<in>set_option (e_args e) \<union> set_option (e_kwargs e). jl_tree L r \<noteq> Some JNull)
     \<and> sorted_wrt (<) (map fst (e_extra e)) \<and> set (map fst (e_extra e)) \<inter> set known_fields = {}"

lemma bt_insert_keys: "set (map fst (bt_insert k x m)) = insert k (set (map fst m))"
  by (auto simp: bt_insert_def set_insort_key)

lemma map_fst_insort: "map fst (insort_key fst p m) = insort (fst p) (map fst m)"
  by (induction m) auto

lemma map_fst_filter: "map fst (filter (\<lambda>p. fst p \<noteq> k) m) = filter (\<lambda>a. a \<noteq> k) (map fst m)"
  by (induction m) auto

lemma bt_insert_sorted: "sorted_wrt (<) (map fst m) \<Longrightarrow> sorted_wrt (<) (map fst (bt_insert k x m))"
  by (auto simp: bt_insert_def strict_sorted_iff map_fst_insort map_fst_filter sorted_insort distinct_insort
      sorted_wrt_filter simp del: insort_key.simps)

lemma collect_extra_wf:
  "collect_extra L ms m = Some m' \<Longrightarrow> sorted_wrt (<) (map fst m) \<Longrightarrow> set (map fst m) \<inter> set known_fields = {} \<Longrightarrow>
     sorted_wrt (<) (map fst m') \<and> set (map fst m') \<inter> set known_fields = {}"
proof (induction L ms m rule: collect_extra.induct)
  case (2 L k raw ms m)
  show ?case
  proof (cases "k \<in> set known_fields")
    case True
    then show ?thesis using 2 by simp
  next
    case False
    then obtain x where "jl_tree L raw = Some x" using "2.prems"(1) by (auto split: option.splits)
    with False 2 show ?thesis
      using bt_insert_sorted [of m k x] bt_insert_keys [of k x m] by simp
  qed
qed simp

lemma field_Some: "field ms k de d = Some x \<Longrightarrow> (\<exists>raw. map_of ms k = Some raw \<and> de raw = Some x) \<or> d = Some x"
  by (auto simp: field_def split: option.splits)

lemma env_wf_read:
  assumes "envelope_from_str L raw = Some e"
  shows "env_wf L e"
proof -
  from assms obtain ms where e: "envelope_of_members L ms = Some e"
    by (auto simp: envelope_from_str_def bind_eq_Some_conv)
  have raw: "field ms k (de_raw L) (Some None) = Some a \<Longrightarrow> \<forall>r\<in>set_option a. jl_tree L r \<noteq> Some JNull" for k a
    by (auto simp: field_def de_raw_def split: option.splits if_splits)
  have tmo: "field ms k (deserialize_timeout_ms L) (Some d_timeout) = Some t \<Longrightarrow> t \<le> MAX_TIMEOUT_MS" for k t
    by (auto simp: field_def deserialize_timeout_ms_def d_timeout_def MAX_TIMEOUT_MS_def split: option.splits)
  have "field ms ''args'' (de_raw L) (Some None) = Some (e_args e)"
    "field ms ''kwargs'' (de_raw L) (Some None) = Some (e_kwargs e)"
    "field ms ''timeout_ms'' (deserialize_timeout_ms L) (Some d_timeout) = Some (e_timeout_ms e)"
    "collect_extra L ms [] = Some (e_extra e)"
    using e by (auto simp: envelope_of_members_def bind_eq_Some_conv split: if_splits)
  then show ?thesis
    using raw tmo collect_extra_wf [of L ms "[]" "e_extra e"] unfolding env_wf_def by auto
qed

text \<open>
  C23. Every envelope read from text is well formed, whatever the text: its time limit is at most 24
  hours, \<open>null\<close> arguments are absent, and its passed-through fields are in key order, without
  duplicates and disjoint from the known ones.
\<close>

theorem envelope_from_str_wf:
  assumes "envelope_from_str L raw = Some e"
  shows "env_wf L e"
  by (rule env_wf_read [OF assms])

subsection \<open>The round trip\<close>

text \<open>What the codec promises on the values of one envelope: it reads back what it printed.\<close>

definition reads_back :: "json_lib \<Rightarrow> envelope \<Rightarrow> bool" where
  "reads_back L e \<longleftrightarrow>
     jl_members L (jl_object L (envelope_members L e)) = Some (envelope_members L e)
     \<and> (\<forall>n < 2 ^ 64. jl_tree L (show_nat n) = Some (JNum (show_nat n)))
     \<and> jl_tree L ''null'' = Some JNull \<and> jl_tree L ''true'' = Some (JBool True) \<and> jl_tree L ''false'' = Some (JBool False)
     \<and> (\<forall>s\<in>{e_id e, e_task e, e_queue e, e_kind e} \<union> set_option (e_idempotency_key e).
          jl_tree L (jl_show L (JStr s)) = Some (JStr s))
     \<and> (\<forall>p\<in>set (e_extra e). jl_tree L (jl_show L (snd p)) = Some (snd p))
     \<and> (\<forall>f\<in>insert (e_backoff_factor e) (set_option (e_not_before e)).
          \<exists>n. jl_tree L (jl_show_f64 L f) = Some (JNum n) \<and> jl_f64 L n = Some f)"

lemma value_to_u64_show: "value_to_u64 (JNum (show_u64 n)) = Inr n"
  by (simp add: value_to_u64_def parse_show_u64)

lemma bt_insert_last:
  assumes "sorted_wrt (<) (map fst m @ [k])" shows "bt_insert k x m = m @ [(k, x)]"
proof -
  have "\<forall>p\<in>set m. fst p < k" using assms by (auto simp: sorted_wrt_append)
  then have "filter (\<lambda>p. fst p \<noteq> k) m = m" and "insort_key fst (k, x) m = m @ [(k, x)]"
    by (auto simp: filter_id_conv intro: less_imp_neq, induction m) auto
  then show ?thesis by (simp add: bt_insert_def)
qed

lemma collect_extra_known: "set (map fst ms) \<subseteq> set known_fields \<Longrightarrow> collect_extra L (ms @ ms') m = collect_extra L ms' m"
  by (induction ms) auto

lemma collect_extra_sorted:
  assumes "sorted_wrt (<) (map fst (m @ xs))" "set (map fst xs) \<inter> set known_fields = {}"
    "\<forall>p\<in>set xs. jl_tree L (jl_show L (snd p)) = Some (snd p)"
  shows "collect_extra L (map (\<lambda>(k, x). (k, jl_show L x)) xs) m = Some (m @ xs)"
  using assms
proof (induction xs arbitrary: m)
  case (Cons p xs)
  obtain k x where p: "p = (k, x)" by fastforce
  have "sorted_wrt (<) (map fst m @ [k])" using Cons.prems(1) p by (auto simp: sorted_wrt_append)
  then have "bt_insert k x m = m @ [(k, x)]" by (rule bt_insert_last)
  then show ?case using Cons.IH [of "m @ [(k, x)]"] Cons.prems p by auto
qed simp

lemma tree_show_u64: "reads_back L e \<Longrightarrow> jl_tree L (show_u64 n) = Some (JNum (show_u64 n))"
  using unat_lt_64 [of n] unfolding reads_back_def by blast

lemma flexible_u64_show:
  "reads_back L e \<Longrightarrow> deserialize_flexible_u64 L (show_u64 n) = Some n"
  by (simp add: tree_show_u64 deserialize_flexible_u64_def value_to_u64_show ok_def)

lemma flexible_u32_show:
  assumes "reads_back L e" shows "deserialize_flexible_u32 L (show_nat (unat (n :: u32))) = Some n"
proof -
  have n: "unat n < 2 ^ 32" using unsigned_less [of n, where ?'a = nat] by simp
  have un: "unat (ucast n :: u64) = unat n" by (simp add: unsigned_ucast_eq unsigned_take_bit_eq take_bit_eq_mod) (use n in simp)
  have tree: "jl_tree L (show_nat (unat n)) = Some (JNum (show_nat (unat n)))"
    using tree_show_u64 [OF assms, of "ucast n"] unfolding un .
  have val: "value_to_u64 (JNum (show_nat (unat n))) = Inr (ucast n)"
    using value_to_u64_show [of "ucast n"] unfolding un .
  have lt: "(ucast n :: u64) < 2 ^ 32" unfolding word_less_nat_alt un using n by simp
  have "unat (ucast (ucast n :: u64) :: u32) = unat n"
    unfolding unsigned_ucast_eq [where w = "ucast n :: u64"] unsigned_take_bit_eq un using n by (simp add: take_bit_eq_mod)
  then have "(ucast (ucast n :: u64) :: u32) = n" by (simp only: word_unat_eq_iff)
  then show ?thesis
    unfolding deserialize_flexible_u32_def tree by (simp only: val ok_def lt sum.case bind.bind_lunit if_True)
qed

lemma opt_u64_show:
  assumes "reads_back L e"
  shows "deserialize_flexible_opt_u64 L (show_opt (\<lambda>n. show_u64 n) x) = Some x"
proof (cases x)
  case None
  then show ?thesis using assms by (simp add: reads_back_def deserialize_flexible_opt_u64_def show_opt_def)
qed (simp add: tree_show_u64 [OF assms] deserialize_flexible_opt_u64_def show_opt_def value_to_u64_show ok_def)

lemma timeout_show:
  "reads_back L e \<Longrightarrow> n \<le> MAX_TIMEOUT_MS \<Longrightarrow> deserialize_timeout_ms L (show_u64 n) = Some n"
  by (simp add: deserialize_timeout_ms_def flexible_u64_show min_absorb2)

lemma bool_show: "reads_back L e \<Longrightarrow> de_bool L (show_bool b) = Some b"
  by (auto simp: reads_back_def de_bool_def show_bool_def)

lemma raw_show:
  "reads_back L e \<Longrightarrow> \<forall>r\<in>set_option x. jl_tree L r \<noteq> Some JNull \<Longrightarrow> de_raw L (show_opt (\<lambda>r. r) x) = Some x"
  by (cases x) (auto simp: reads_back_def de_raw_def show_opt_def)

lemma string_show: "jl_tree L (jl_show L (JStr s)) = Some (JStr s) \<Longrightarrow> de_string L (jl_show L (JStr s)) = Some s"
  by (simp add: de_string_def)

lemma opt_string_show:
  "jl_tree L ''null'' = Some JNull \<Longrightarrow> \<forall>s\<in>set_option x. jl_tree L (jl_show L (JStr s)) = Some (JStr s) \<Longrightarrow>
     de_opt L de_string (show_opt (\<lambda>s. jl_show L (JStr s)) x) = Some x"
  by (cases x) (auto simp: de_opt_def show_opt_def de_string_def)

lemma opt_f64_show:
  "jl_tree L ''null'' = Some JNull \<Longrightarrow>
     \<forall>f\<in>set_option x. \<exists>n. jl_tree L (jl_show_f64 L f) = Some (JNum n) \<and> jl_f64 L n = Some f \<Longrightarrow>
     de_opt L de_f64 (show_opt (jl_show_f64 L) x) = Some x"
  by (cases x) (auto simp: de_opt_def show_opt_def de_f64_def)

lemma field_members:
  "map_of (known_members L e) k = Some raw \<Longrightarrow> field (envelope_members L e) k de d = de raw"
  by (simp add: envelope_members_def field_def map_add_def)

lemma envelope_reads_back:
  assumes wf: "env_wf L e" and L: "reads_back L e"
  shows "envelope_from_str L (envelope_to_string L e) = Some e"
proof -
  let ?xs = "map (\<lambda>(k, x). (k, jl_show L x)) (e_extra e)"
  have known: "map fst (known_members L e) = known_fields"
    by (simp add: known_members_def known_fields_def)
  have keys: "map fst ?xs = map fst (e_extra e)" by (simp add: comp_def case_prod_unfold)
  have unk: "set (map fst (e_extra e)) \<inter> set known_fields = {}" "sorted_wrt (<) (map fst ([] @ e_extra e))"
    using wf by (auto simp: env_wf_def)
  have "filter (\<lambda>k. k \<in> set known_fields) (map fst (envelope_members L e)) = known_fields"
    unfolding envelope_members_def map_append known filter_append keys using unk(1)
    by (simp add: filter_empty_conv disjoint_iff del: set_map)
  then have dist: "distinct (filter (\<lambda>k. k \<in> set known_fields) (map fst (envelope_members L e)))"
    by (simp add: known_fields_def)
  have extra: "collect_extra L (envelope_members L e) [] = Some (e_extra e)"
    unfolding envelope_members_def using L unk known
    by (subst collect_extra_known) (simp_all add: collect_extra_sorted reads_back_def del: set_map)
  have strs: "de_string L (jl_show L (JStr s)) = Some s" if "s \<in> {e_id e, e_task e, e_queue e, e_kind e}" for s
    using L that by (intro string_show) (auto simp: reads_back_def)
  have opts: "de_opt L de_string (show_opt (\<lambda>s. jl_show L (JStr s)) (e_idempotency_key e)) = Some (e_idempotency_key e)"
    "de_opt L de_f64 (show_opt (jl_show_f64 L) (e_not_before e)) = Some (e_not_before e)"
    "de_f64 L (jl_show_f64 L (e_backoff_factor e)) = Some (e_backoff_factor e)"
    using L by (auto simp: reads_back_def de_f64_def intro!: opt_string_show opt_f64_show)
  have raws: "de_raw L (show_opt (\<lambda>r. r) (e_args e)) = Some (e_args e)"
    "de_raw L (show_opt (\<lambda>r. r) (e_kwargs e)) = Some (e_kwargs e)"
    "deserialize_timeout_ms L (show_u64 (e_timeout_ms e)) = Some (e_timeout_ms e)"
    using wf L by (auto simp: env_wf_def intro!: raw_show timeout_show)
  have "envelope_of_members L (envelope_members L e) = Some e"
    unfolding envelope_of_members_def using dist
    by (simp add: extra field_members known_members_def strs opts raws flexible_u32_show [OF L]
        flexible_u64_show [OF L] opt_u64_show [OF L] bool_show [OF L])
  then show ?thesis
    using L by (simp add: envelope_from_str_def envelope_to_string_def reads_back_def)
qed

definition demo_env :: envelope where
  "demo_env = \<lparr>e_v = 1, e_id = ''0123456789abcdef0123456789abcdef'', e_task = ''app.add'', e_args = Some ''[1,2]'',
     e_kwargs = None, e_queue = ''q'', e_kind = ''io'', e_retries = 0, e_max_retries = 3, e_backoff_base_ms = 500,
     e_backoff_factor = Fin 2, e_backoff_max_ms = 60000, e_jitter = False, e_timeout_ms = 300000,
     e_soft_timeout_ms = Some 1000, e_idempotency_key = Some ''k'', e_store_result = True, e_enqueued_at = 5,
     e_not_before = None, e_expires_at = Some 900, e_extra = [(''trace'', JNum ''123'')]\<rparr>"

text \<open>A small codec for concrete runs: strings are marked by a leading quote, literals and numbers are
  their text, and one object text, the one it prints, is understood.\<close>

definition demo_tree :: "string \<Rightarrow> jval option" where
  "demo_tree r = (if r = ''null'' then Some JNull else if r = ''true'' then Some (JBool True)
     else if r = ''false'' then Some (JBool False)
     else case r of [] \<Rightarrow> None | c # cs \<Rightarrow> if c = CHR 0x22 then Some (JStr cs)
                                       else if is_digit c then Some (JNum r) else Some (JArr []))"

definition demo_show :: "jval \<Rightarrow> string" where
  "demo_show x = (case x of JStr s \<Rightarrow> CHR 0x22 # s | JNum n \<Rightarrow> n | JBool b \<Rightarrow> show_bool b | _ \<Rightarrow> ''null'')"

definition demo_json :: "envelope \<Rightarrow> json_lib" where
  "demo_json e =
     (let base = \<lparr>jl_members = (\<lambda>_. None), jl_elems = (\<lambda>_. None), jl_tree = demo_tree, jl_show = demo_show,
                  jl_object = (\<lambda>ms. concat (map snd ms)), jl_f64 = (\<lambda>_. Some (Fin 2)), jl_show_f64 = (\<lambda>_. ''2''), jl_describe = (\<lambda>_. ''bad'')\<rparr>
      in base\<lparr>jl_members := (\<lambda>raw. if raw = concat (map snd (envelope_members base e))
                                  then Some (envelope_members base e) else None)\<rparr>)"

lemma show_nat_first_digit: "\<exists>c cs. show_nat n = c # cs \<and> is_digit c"
proof (induction n rule: show_nat.induct)
  case (1 n)
  then show ?case by (subst show_nat.simps) (cases "n < 10"; force simp: text_simps)
qed

lemma demo_tree_digits: "demo_tree (show_nat n) = Some (JNum (show_nat n))"
proof -
  obtain c cs where s: "show_nat n = c # cs" "is_digit c" using show_nat_first_digit by blast
  have "c \<notin> {CHR ''n'', CHR ''t'', CHR ''f'', CHR 0x22}" using s(2) by (auto simp: is_digit_def)
  then show ?thesis using s by (simp add: demo_tree_def)
qed

lemma envelope_members_cong:
  "jl_show L = jl_show L' \<Longrightarrow> jl_show_f64 L = jl_show_f64 L' \<Longrightarrow> envelope_members L e = envelope_members L' e"
  by (simp add: envelope_members_def known_members_def)

lemma demo_json_reads_back_at:
  fixes n m
  defines "e \<equiv> demo_env\<lparr>e_retries := n, e_max_retries := m\<rparr>"
  shows "reads_back (demo_json e) e"
proof -
  let ?base = "\<lparr>jl_members = (\<lambda>_. None), jl_elems = (\<lambda>_. None), jl_tree = demo_tree, jl_show = demo_show,
      jl_object = (\<lambda>ms. concat (map snd ms)), jl_f64 = (\<lambda>_. Some (Fin 2)), jl_show_f64 = (\<lambda>_. ''2''), jl_describe = (\<lambda>_. ''bad'')\<rparr>"
  have ms: "envelope_members (demo_json e) e = envelope_members ?base e"
    by (rule envelope_members_cong) (simp_all add: demo_json_def Let_def)
  have lib: "jl_tree (demo_json e) = demo_tree" "jl_show (demo_json e) = demo_show"
    "jl_object (demo_json e) = (\<lambda>ms. concat (map snd ms))"
    "jl_f64 (demo_json e) = (\<lambda>_. Some (Fin 2))" "jl_show_f64 (demo_json e) = (\<lambda>_. ''2'')"
    "jl_members (demo_json e) = (\<lambda>raw. if raw = concat (map snd (envelope_members ?base e))
       then Some (envelope_members ?base e) else None)" for e
    by (simp_all add: demo_json_def Let_def)
  have two: "demo_tree ''2'' = Some (JNum ''2'')" "demo_tree (demo_show (JNum ''123'')) = Some (JNum ''123'')"
    by (simp_all add: demo_tree_def demo_show_def is_digit_def)
  have lits: "demo_tree ''null'' = Some JNull" "demo_tree ''true'' = Some (JBool True)"
    "demo_tree ''false'' = Some (JBool False)" by (simp_all add: demo_tree_def)
  have strs: "demo_tree (demo_show (JStr s)) = Some (JStr s)" for s by (simp add: demo_tree_def demo_show_def)
  show ?thesis
    unfolding reads_back_def lib ms
    by (simp add: lits strs two demo_tree_digits) (simp add: e_def demo_env_def two)
qed

lemma demo_json_reads_back: "reads_back (demo_json demo_env) demo_env"
  using demo_json_reads_back_at [of 3 0] by (simp add: demo_env_def)

lemma demo_env_wf: "env_wf (demo_json demo_env) demo_env"
  by (simp add: env_wf_def demo_env_def demo_json_def Let_def MAX_TIMEOUT_MS_def demo_tree_def is_digit_def known_fields_def)



lemma demo_env_reads:
  "envelope_from_str (demo_json demo_env) (envelope_to_string (demo_json demo_env) demo_env) = Some demo_env"
  by (rule envelope_reads_back [OF demo_env_wf demo_json_reads_back])

theorem envelope_from_str_wf_witness:
  "e_timeout_ms demo_env \<le> MAX_TIMEOUT_MS \<and> env_wf (demo_json demo_env) demo_env"
  using envelope_from_str_wf [OF demo_env_reads] by (simp add: env_wf_def)

subsection \<open>Deadlines and limits\<close>

text \<open>
  A task counts as expired exactly when the time is past its own \<open>expires_at\<close>, or past its
  enqueue time plus the queue's time to live computed without wrap-around; the time to live never
  applies to a task without an enqueue time.
\<close>

theorem expiry_is_the_earlier_deadline:
  "(\<exists>d. expiry_deadline_ms e ttl = Some d \<and> now > d) \<longleftrightarrow>
     (\<exists>x. e_expires_at e = Some x \<and> unat x < unat now)
     \<or> (\<exists>t. ttl = Some t \<and> e_enqueued_at e \<noteq> 0 \<and> unat (e_enqueued_at e) + unat t < unat now)"
proof -
  have sat: "sat_add a b < now \<longleftrightarrow> unat a + unat b < unat now" for a b :: u64
    using unat_lt_64 [of now] by (auto simp: word_less_nat_alt unat_sat_add)
  show ?thesis
    by (auto simp: expiry_deadline_ms_def Let_def sat word_less_nat_alt [symmetric] word_neq_0_conv
        min_less_iff_disj split: option.splits)
qed

lemma back_off_le: "back_off s n \<le> n"
  by (induction n) (auto intro: le_SucI)

lemma back_off_boundary: "is_char_boundary s (back_off s n)"
  by (induction n) (auto simp: is_char_boundary_def)

lemma back_off_greatest: "is_char_boundary s i \<Longrightarrow> i \<le> n \<Longrightarrow> i \<le> back_off s n"
  by (induction n) (auto simp: le_Suc_eq)

text \<open>
  Truncation is total and never splits a character: the result is the longest prefix of at most
  \<open>max_bytes\<close> bytes that ends on a character boundary, for every byte limit and every text.
\<close>

theorem safe_truncate_longest_boundary_prefix:
  "\<exists>n. safe_truncate s max_bytes = take n s \<and> length (safe_truncate s max_bytes) = n
     \<and> n \<le> max_bytes \<and> is_char_boundary s n
     \<and> (\<forall>i. is_char_boundary s i \<and> i \<le> max_bytes \<longrightarrow> i \<le> n)"
proof (cases "length s \<le> max_bytes")
  case True
  then show ?thesis
    by (intro exI [of _ "length s"]) (auto simp: safe_truncate_def is_char_boundary_def)
next
  case False
  then have "back_off s max_bytes \<le> length s" using back_off_le [of s max_bytes] by simp
  with False show ?thesis
    by (intro exI [of _ "back_off s max_bytes"])
      (auto simp: safe_truncate_def back_off_le back_off_boundary back_off_greatest)
qed

text \<open>
  The redelivery limit is computed without overflow and always exceeds the retry budget, so a
  task is never dead lettered for redelivery before it can have used its retries.
\<close>

theorem redelivery_limit_exceeds_budget:
  "unat (redelivery_limit env) = (case env of None \<Rightarrow> 3 | Some e \<Rightarrow> max 3 (unat (e_max_retries e) + 1))"
proof (cases env)
  case (Some e)
  let ?m = "e_max_retries e"
  have lt: "unat ?m < 2 ^ 32" using unsigned_less [of ?m, where ?'a = nat] by simp
  have "unat (ucast ?m :: u64) = unat ?m"
    by (simp add: unsigned_ucast_eq unsigned_take_bit_eq take_bit_eq_mod) (use lt in simp)
  then have "unat ((ucast ?m :: u64) + 1) = unat ?m + 1"
    using lt by (simp add: unat_add_lem [THEN iffD1])
  with Some show ?thesis by (simp add: redelivery_limit_def unat_max)
qed (simp add: redelivery_limit_def)

end
