(* ===== verification/Cli.thy ===== *)
theory Cli
  imports Prelude
begin

section \<open>Command line settings (cli.rs)\<close>

text \<open>
  The arguments after parsing (the parser is the clap crate; \<open>args_default\<close> holds the defaults the
  source declares) and the derivation of the per-process settings from \<open>-c\<close>, \<open>--procs\<close> and the number
  of cores. Sizes are \<open>nat\<close>: every step of the derivation is a minimum, a maximum or a division, so
  no value exceeds an input.
\<close>

record args =
  a_app :: "string option"
  a_queues :: "string list"
  a_redis_url :: "string option"
  a_concurrency :: "nat option"
  a_procs :: "nat option"
  a_print_plan :: bool
  a_visibility_timeout :: u64
  a_drain_timeout :: u64
  a_stats_interval :: u64
  a_log_level :: string
  a_io_loops :: nat
  a_io_threads :: "nat option"
  a_io_concurrency :: "nat option"
  a_cpu_workers :: "nat option"
  a_cpu_child_threads :: nat
  a_cpu_prefetch :: nat
  a_cpu_max_tasks_per_child :: nat
  a_eager_cpu :: bool
  a_no_fork_server :: bool
  a_batch :: nat
  a_max_envelope_bytes :: nat
  a_python :: "string option"
  a_redis_timeout :: u64
  a_mover_interval :: u64
  a_mover_limit :: nat
  a_ack_batch :: nat
  a_ack_flush_ms :: u64

definition args_default :: args where
  "args_default = \<lparr>a_app = None, a_queues = [], a_redis_url = None, a_concurrency = None, a_procs = None,
     a_print_plan = False, a_visibility_timeout = 60, a_drain_timeout = 30, a_stats_interval = 10,
     a_log_level = ''info'', a_io_loops = 1, a_io_threads = None, a_io_concurrency = None, a_cpu_workers = None,
     a_cpu_child_threads = 1, a_cpu_prefetch = 4, a_cpu_max_tasks_per_child = 10000, a_eager_cpu = False,
     a_no_fork_server = False, a_batch = 64, a_max_envelope_bytes = 1048576, a_python = None, a_redis_timeout = 5,
     a_mover_interval = 50, a_mover_limit = 128, a_ack_batch = 64, a_ack_flush_ms = 2\<rparr>"

record resolved =
  r_procs :: nat
  r_io_threads :: nat
  r_io_concurrency :: nat
  r_cpu_workers :: nat

definition SLOTS_PER_PROC :: nat where
  "SLOTS_PER_PROC = 64"

definition nat_div_ceil :: "nat \<Rightarrow> nat \<Rightarrow> nat" where
  "nat_div_ceil a b = (if a mod b = 0 then a div b else a div b + 1)"

definition unwrap_or :: "'a option \<Rightarrow> 'a \<Rightarrow> 'a" where
  "unwrap_or x d = (case x of Some a \<Rightarrow> a | None \<Rightarrow> d)"

definition resolve :: "args \<Rightarrow> nat \<Rightarrow> resolved" where
  "resolve a cores =
     (let cores = max cores 1;
          procs = max (unwrap_or (a_procs a)
                    (case a_concurrency a of
                       Some c \<Rightarrow> min cores (nat_div_ceil (max c 1) SLOTS_PER_PROC)
                     | None \<Rightarrow> 1)) 1;
          (io_threads, io_concurrency) =
            (case a_concurrency a of
               Some c \<Rightarrow>
                 (let c = max c 1;
                      gate = max (unwrap_or (a_io_concurrency a) (c div procs)) 1;
                      threads = max (unwrap_or (a_io_threads a) (min (min c 512 div procs) gate)) 1
                  in (threads, gate))
             | None \<Rightarrow> (max (unwrap_or (a_io_threads a) 64) 1, max (unwrap_or (a_io_concurrency a) 256) 1));
          cpu_workers =
            max (unwrap_or (a_cpu_workers a)
              (let per_proc = cores div procs
               in case a_concurrency a of
                    Some c \<Rightarrow> min per_proc (max c 1 div procs)
                  | None \<Rightarrow> per_proc)) 1
      in \<lparr>r_procs = procs, r_io_threads = io_threads, r_io_concurrency = io_concurrency, r_cpu_workers = cpu_workers\<rparr>)"

text \<open>\<open>app_spec\<close> panics without \<open>-A\<close>, which the parser requires unless \<open>--print-plan\<close> is given.\<close>

definition app_spec :: "args \<Rightarrow> string option" where
  "app_spec a = a_app a"

definition queue_char :: "char \<Rightarrow> bool" where
  "queue_char c \<longleftrightarrow>
     (let n = (of_char c :: nat)
      in 48 \<le> n \<and> n \<le> 57 \<or> 65 \<le> n \<and> n \<le> 90 \<or> 97 \<le> n \<and> n \<le> 122
         \<or> c = CHR ''_'' \<or> c = CHR ''.'' \<or> c = CHR ''-'')"

definition valid_queue_name :: "string \<Rightarrow> bool" where
  "valid_queue_name q \<longleftrightarrow> q \<noteq> [] \<and> (\<forall>c\<in>set q. queue_char c)"

section \<open>Correctness of the derivation\<close>

lemma nat_div_ceil_le: "0 < a \<Longrightarrow> 0 < b \<Longrightarrow> nat_div_ceil a b \<le> a"
proof -
  assume a: "0 < a" "0 < b"
  have "a div b < a \<or> a mod b = 0"
  proof (cases "b = 1")
    case False
    then have "a div b < a" using a by (intro div_less_dividend) auto
    then show ?thesis ..
  qed simp
  then show ?thesis using div_le_dividend [of a b] by (auto simp: nat_div_ceil_def)
qed

lemma nat_div_ceil_pos: "0 < a \<Longrightarrow> 0 < b \<Longrightarrow> 0 < nat_div_ceil a b"
  by (auto simp: nat_div_ceil_def div_greater_zero_iff dvd_imp_le simp flip: dvd_eq_mod_eq_0)

lemma max_div_times_le: "0 < p \<Longrightarrow> p \<le> n \<Longrightarrow> p * max (n div p) 1 \<le> (n :: nat)"
proof -
  assume "0 < p" "p \<le> n"
  then have "1 \<le> n div p" by (simp add: Suc_le_eq div_greater_zero_iff)
  then show ?thesis by (simp add: max_absorb1)
qed

text \<open>
  \<open>-c\<close> is a ceiling: when the derived settings are used, the processes together admit at most \<open>c\<close>
  io tasks, start at most \<open>c\<close> and at most 512 sync threads, and use at most \<open>c\<close> cpu children, no more
  than there are cores; and no process has more sync threads than admission slots.
\<close>

theorem derived_totals_never_exceed_c:
  assumes c: "a_concurrency a = Some c" "0 < c" and "0 < cores"
    and derived: "a_procs a = None" "a_io_concurrency a = None" "a_io_threads a = None" "a_cpu_workers a = None"
  shows "r_procs (resolve a cores) * r_io_concurrency (resolve a cores) \<le> c
    \<and> r_procs (resolve a cores) * r_io_threads (resolve a cores) \<le> min c (max 512 (r_procs (resolve a cores)))
    \<and> r_procs (resolve a cores) * r_cpu_workers (resolve a cores) \<le> min c cores
    \<and> r_io_threads (resolve a cores) \<le> r_io_concurrency (resolve a cores)"
proof -
  define p where "p = min cores (nat_div_ceil c 64)"
  have p: "0 < p" "p \<le> cores" "p \<le> c"
    using assms nat_div_ceil_pos [of c 64] nat_div_ceil_le [of c 64] by (auto simp: p_def)
  have mx: "max cores 1 = cores" "max c 1 = c" "max p 1 = p" using assms p by auto
  define t where "t = max (min (min c 512 div p) (max (c div p) 1)) 1"
  define w where "w = max (min (cores div p) (c div p)) 1"
  have r: "r_procs (resolve a cores) = p" "r_io_concurrency (resolve a cores) = max (c div p) 1"
    "r_io_threads (resolve a cores) = t" "r_cpu_workers (resolve a cores) = w"
    unfolding resolve_def Let_def unwrap_or_def c derived option.case prod.case resolved.select_convs mx SLOTS_PER_PROC_def
      p_def [symmetric] t_def w_def by (rule refl)+
  have t: "t \<le> max (min c 512 div p) 1" "t \<le> max (c div p) 1" by (auto simp: t_def)
  have io: "p * max (c div p) 1 \<le> c" using p by (intro max_div_times_le)
  have "p * t \<le> c" using mult_le_mono2 [OF t(2), of p] io by (rule order_trans)
  moreover have "p * t \<le> max 512 p"
  proof (cases "p \<le> min c 512")
    case True
    then have "p * max (min c 512 div p) 1 \<le> min c 512" using p(1) by (rule max_div_times_le [rotated])
    from order_trans [OF mult_le_mono2 [OF t(1), of p] this] show ?thesis by (simp add: le_max_iff_disj)
  next
    case False
    then have "min c 512 < p" by linarith
    then have "min c 512 div p = 0" by (rule div_less)
    then have "t = 1" using t(1) by (simp add: t_def)
    then show ?thesis by simp
  qed
  moreover have "p * w \<le> c" "p * w \<le> cores"
  proof -
    have "w \<le> max (c div p) 1" "w \<le> max (cores div p) 1" by (auto simp: w_def)
    then have "p * w \<le> p * max (c div p) 1" "p * w \<le> p * max (cores div p) 1" by (simp_all only: mult_le_mono2)
    then show "p * w \<le> c" "p * w \<le> cores" using io max_div_times_le [OF p(1,2)] order_trans by blast+
  qed
  ultimately show ?thesis unfolding r using io t(2) by simp
qed

theorem derived_totals_never_exceed_c_witness:
  "r_procs (resolve (args_default\<lparr>a_concurrency := Some 300\<rparr>) 4) * r_io_concurrency (resolve (args_default\<lparr>a_concurrency := Some 300\<rparr>) 4) \<le> 300"
  using derived_totals_never_exceed_c [of "args_default\<lparr>a_concurrency := Some 300\<rparr>" 300 4]
  by (simp add: args_default_def)

text \<open>An explicit \<open>--procs\<close> above \<open>-c\<close> breaks the ceiling: every process still admits one task.\<close>

lemma explicit_procs_exceed_c:
  assumes "a_concurrency a = Some c" "0 < c" "a_procs a = Some p" "c < p" "a_io_concurrency a = None"
  shows "r_procs (resolve a cores) * r_io_concurrency (resolve a cores) = p \<and> c < p"
  using assms by (simp add: resolve_def unwrap_or_def Let_def max_absorb1)

text \<open>
  A valid queue name never changes the meaning of a key, of a list of names or of a log line built
  from it: it is not empty and contains no colon, comma, brace, blank, slash or control character.
\<close>

theorem valid_queue_name_is_plain:
  assumes "valid_queue_name q"
  shows "q \<noteq> [] \<and> set q \<inter> set '':,{} /*?'' = {} \<and> (\<forall>c\<in>set q. 32 < (of_char c :: nat) \<and> (of_char c :: nat) < 127)"
  using assms by (fastforce simp: valid_queue_name_def queue_char_def Let_def)

theorem valid_queue_name_is_plain_witness: "set ''high.prio-1'' \<inter> set '':,{} /*?'' = {}"
  using valid_queue_name_is_plain [of "''high.prio-1''"] by (simp add: valid_queue_name_def queue_char_def)

end
