(* ===== verification/Ctx.thy ===== *)
theory Ctx
  imports Envelope Stats Clock Broker Cli
begin

section \<open>The worker context and executor outcomes (ctx.rs)\<close>

text \<open>
  What every loop of the worker shares. The configuration part of \<open>Ctx\<close> is the record \<open>ctx\<close>; the
  set of stream entries this process holds is the state \<open>inflight_entries\<close>. Counters are atomics
  that many tasks update at once, so an operation does not return new counters: it returns the
  list of atomic updates it performs, \<open>counter_op\<close>, in order.
\<close>

subsection \<open>Counter updates\<close>

datatype counter_name = Fetched | Ok | Failed | Retried | Dlq | Dup | Expired | CpuLost

datatype gauge_name = InflightIo | InflightCpu | InflightTotal

datatype lane = SyncLane | AsyncLane | CpuLane

datatype counter_op = Count counter_name | Enter gauge_name | Leave gauge_name | Latency lane u64

fun apply_count :: "counter_name \<Rightarrow> counters \<Rightarrow> counters" where
  "apply_count Fetched c = c\<lparr>c_fetched := c_fetched c + 1\<rparr>"
| "apply_count Ok c = c\<lparr>c_ok := c_ok c + 1\<rparr>"
| "apply_count Failed c = c\<lparr>c_failed := c_failed c + 1\<rparr>"
| "apply_count Retried c = c\<lparr>c_retried := c_retried c + 1\<rparr>"
| "apply_count Dlq c = c\<lparr>c_dlq := c_dlq c + 1\<rparr>"
| "apply_count Dup c = c\<lparr>c_duplicate := c_duplicate c + 1\<rparr>"
| "apply_count Expired c = c\<lparr>c_expired := c_expired c + 1\<rparr>"
| "apply_count CpuLost c = c\<lparr>c_cpu_lost := c_cpu_lost c + 1\<rparr>"

fun apply_gauge :: "gauge_name \<Rightarrow> int \<Rightarrow> counters \<Rightarrow> counters" where
  "apply_gauge InflightIo d c = c\<lparr>c_inflight_io := c_inflight_io c + d\<rparr>"
| "apply_gauge InflightCpu d c = c\<lparr>c_inflight_cpu := c_inflight_cpu c + d\<rparr>"
| "apply_gauge InflightTotal d c = c\<lparr>c_inflight_total := c_inflight_total c + d\<rparr>"

fun apply_op :: "counter_op \<Rightarrow> counters \<Rightarrow> counters" where
  "apply_op (Count n) c = apply_count n c"
| "apply_op (Enter g) c = apply_gauge g 1 c"
| "apply_op (Leave g) c = apply_gauge g (- 1) c"
| "apply_op (Latency SyncLane ms) c = c\<lparr>c_lat_sync := record_latency ms (c_lat_sync c)\<rparr>"
| "apply_op (Latency AsyncLane ms) c = c\<lparr>c_lat_async := record_latency ms (c_lat_async c)\<rparr>"
| "apply_op (Latency CpuLane ms) c = c\<lparr>c_lat_cpu := record_latency ms (c_lat_cpu c)\<rparr>"

text \<open>The net movement of a gauge over a list of updates.\<close>

definition gauge_delta :: "gauge_name \<Rightarrow> counter_op list \<Rightarrow> int" where
  "gauge_delta g ops = sum_list (map (\<lambda>x. if x = Enter g then 1 else if x = Leave g then - 1 else 0) ops)"

subsection \<open>The context\<close>

record task_spec =
  ts_kind :: string
  ts_is_async :: bool
  ts_timeout_ms :: u64

record ctx =
  cx_json :: json_lib
  cx_sha256 :: "string \<Rightarrow> u8 list"
  cx_args :: args
  cx_registry :: "string \<Rightarrow> task_spec option"
  cx_io_concurrency :: nat
  cx_result_ttl :: u64
  cx_idemp_ttl :: u64
  cx_queue_ttl_ms :: "string \<Rightarrow> u64 option"
  cx_queues :: "string list"
  cx_consumer :: string
  cx_random_range :: "f64 \<Rightarrow> f64 \<Rightarrow> f64"

type_synonym inflight = "string \<Rightarrow> stream_id set option"

definition QUEUE_TTL_WILDCARD :: string where
  "QUEUE_TTL_WILDCARD = ''*''"

definition queue_ttl_ms :: "ctx \<Rightarrow> string \<Rightarrow> u64 option" where
  "queue_ttl_ms cx queue =
     (case cx_queue_ttl_ms cx queue of Some t \<Rightarrow> Some t | None \<Rightarrow> cx_queue_ttl_ms cx QUEUE_TTL_WILDCARD)"

text \<open>A guard remembers the queue and the id it entered; an inert one remembers nothing.\<close>

type_synonym inflight_entry = "(string \<times> stream_id) option"

definition track :: "string \<Rightarrow> string \<Rightarrow> inflight \<Rightarrow> inflight_entry \<times> inflight" where
  "track queue stream_id held =
     (case (held queue, parse_stream_id stream_id) of
        (Some ids, Some i) \<Rightarrow> (Some (queue, i), held(queue \<mapsto> insert i ids))
      | _ \<Rightarrow> (None, held))"

definition drop_entry :: "inflight_entry \<Rightarrow> inflight \<Rightarrow> inflight" where
  "drop_entry g held =
     (case g of
        None \<Rightarrow> held
      | Some (queue, i) \<Rightarrow> (case held queue of None \<Rightarrow> held | Some ids \<Rightarrow> held(queue \<mapsto> ids - {i})))"

definition holds_entry :: "string \<Rightarrow> string \<Rightarrow> inflight \<Rightarrow> bool" where
  "holds_entry queue stream_id held =
     (case (held queue, parse_stream_id stream_id) of (Some ids, Some i) \<Rightarrow> i \<in> ids | _ \<Rightarrow> False)"

text \<open>\<open>cpu_overflow\<close> of a pool that may not have started, and \<open>cpu_backlog\<close>, which also logs the edge.\<close>

definition cpu_overflow :: "nat option \<Rightarrow> nat" where
  "cpu_overflow overflow = (case overflow of None \<Rightarrow> 0 | Some n \<Rightarrow> n)"

definition cpu_backlog :: "nat option \<Rightarrow> u64 \<Rightarrow> counters \<Rightarrow> nat \<times> backlog_log list \<times> counters" where
  "cpu_backlog overflow now_ms c = (let n = cpu_overflow overflow in (n, note_cpu_backlog n now_ms c))"

definition ctx_cpu_rss_mb :: "(string \<Rightarrow> string option) \<Rightarrow> u32 list option \<Rightarrow> u64" where
  "ctx_cpu_rss_mb read_file child_pids =
     (case child_pids of None \<Rightarrow> 0 | Some pids \<Rightarrow> cpu_rss_mb read_file pids)"

subsection \<open>Executor responses\<close>

datatype outcome = Success string | ForceRetry "f64 option" error_json | Failure error_json bool

record py_resp =
  pr_ok :: bool
  pr_result :: "string option"
  pr_error :: "error_json option"
  pr_retry :: bool
  pr_countdown :: "f64 option"
  pr_retryable :: "bool option"

definition error_of_str :: "json_lib \<Rightarrow> string \<Rightarrow> error_json option" where
  "error_of_str L raw =
     do {
       ms \<leftarrow> struct_members L [''type'', ''message'', ''traceback'', ''origin''] raw;
       ty \<leftarrow> field ms ''type'' (de_string L) None;
       msg \<leftarrow> field ms ''message'' (de_string L) (Some '''');
       tb \<leftarrow> field ms ''traceback'' (de_string L) (Some '''');
       org \<leftarrow> field ms ''origin'' (de_string L) (Some '''');
       Some \<lparr>ej_type = ty, ej_message = msg, ej_traceback = tb, ej_origin = org\<rparr>
     }"

definition pyresp_of_str :: "json_lib \<Rightarrow> string \<Rightarrow> py_resp option" where
  "pyresp_of_str L raw =
     do {
       ms \<leftarrow> struct_members L [''ok'', ''result'', ''error'', ''retry'', ''countdown'', ''retryable''] raw;
       okv \<leftarrow> field ms ''ok'' (de_bool L) None;
       res \<leftarrow> field ms ''result'' (de_raw L) (Some None);
       err \<leftarrow> field ms ''error'' (de_opt L error_of_str) (Some None);
       rt \<leftarrow> field ms ''retry'' (de_bool L) (Some False);
       cd \<leftarrow> field ms ''countdown'' (de_opt L de_f64) (Some None);
       rb \<leftarrow> field ms ''retryable'' (de_opt L de_bool) (Some None);
       Some \<lparr>pr_ok = okv, pr_result = res, pr_error = err, pr_retry = rt, pr_countdown = cd, pr_retryable = rb\<rparr>
     }"

definition parse_pyresp :: "json_lib \<Rightarrow> string \<Rightarrow> bool \<Rightarrow> outcome" where
  "parse_pyresp L s from_cpu =
     (case pyresp_of_str L s of
        None \<Rightarrow>
          Failure (ErrorJson_new ''WorkerShimError''
            (''unparseable executor response ('' @ jl_describe L s @ ''): '' @ safe_truncate s 512)) True
      | Some resp \<Rightarrow>
          if pr_ok resp then Success (case pr_result resp of None \<Rightarrow> ''null'' | Some raw \<Rightarrow> raw)
          else let err = (case pr_error resp of
                            Some e \<Rightarrow> e
                          | None \<Rightarrow> ErrorJson_new ''UnknownError'' ''executor reported failure without error'')
               in if pr_retry resp \<or> from_cpu \<and> ej_type err = ''Retry''
                  then ForceRetry (pr_countdown resp) err
                  else Failure err (case pr_retryable resp of Some b \<Rightarrow> b | None \<Rightarrow> ej_type err \<noteq> ''SerializationError''))"

section \<open>Correctness of the context\<close>

lemma gauge_delta_append [simp]: "gauge_delta g (xs @ ys) = gauge_delta g xs + gauge_delta g ys"
  by (simp add: gauge_delta_def)

lemma gauge_delta_Cons [simp]:
  "gauge_delta g (x # xs) = (if x = Enter g then 1 else if x = Leave g then - 1 else 0) + gauge_delta g xs"
  "gauge_delta g [] = 0"
  by (simp_all add: gauge_delta_def)

text \<open>
  The process knows exactly what it holds: between entering an entry and releasing it the entry
  is held, afterwards it is not, and no other entry of any queue is affected; an entry of an
  unknown queue or with an id of another shape is never held and nothing changes.
\<close>

theorem inflight_tracking_exact:
  assumes "track queue sid held = (g, held1)"
  shows "(holds_entry queue sid held1 \<longleftrightarrow> held queue \<noteq> None \<and> parse_stream_id sid \<noteq> None)
    \<and> \<not> holds_entry queue sid (drop_entry g held1)
    \<and> (parse_stream_id sid' \<noteq> parse_stream_id sid \<or> queue' \<noteq> queue \<longrightarrow>
           holds_entry queue' sid' held1 = holds_entry queue' sid' held
           \<and> holds_entry queue' sid' (drop_entry g held1) = holds_entry queue' sid' held)"
  using assms
  by (auto simp: track_def drop_entry_def holds_entry_def split: option.splits)

theorem inflight_tracking_exact_witness:
  "holds_entry ''q'' ''5-1'' (snd (track ''q'' ''5-1'' [''q'' \<mapsto> {}]))
   \<and> \<not> holds_entry ''q'' ''5-1'' (case track ''q'' ''5-1'' [''q'' \<mapsto> {}] of (g, h) \<Rightarrow> drop_entry g h)"
proof -
  have "parse_stream_id ''5-1'' \<noteq> None"
    by (simp add: parse_stream_id_def parse_u64_def is_digit_def)
  moreover obtain g h where gh: "track ''q'' ''5-1'' [''q'' \<mapsto> {}] = (g, h)" by fastforce
  ultimately show ?thesis using inflight_tracking_exact [OF gh] by simp
qed

text \<open>An explicit \<open>retryable\<close> flag of the executor wins over the error type, \<open>SerializationError\<close> included.\<close>

lemma retryable_flag_wins_over_type:
  assumes "pyresp_of_str L s = Some resp" "\<not> pr_ok resp" "\<not> pr_retry resp"
    "pr_error resp = Some e" "ej_type e = ''SerializationError''" "pr_retryable resp = Some True"
  shows "parse_pyresp L s from_cpu = Failure e True"
  using assms by (simp add: parse_pyresp_def Let_def)

end
