(* ===== verification/Exec.thy ===== *)
theory Exec
  imports Ctx
begin

section \<open>Execution lanes (exec.rs)\<close>

text \<open>
  The three lanes a task can run on. A lane function is a translation of the source up to its
  waits: what the executor does is data, the argument \<open>run\<close>, one field per \<open>await\<close> (a response, a
  sender that went away, or the deadline passing first). The result is the normalized outcome, the
  counter updates in order, and the lane's other effects.
\<close>

text \<open>The end of \<open>timeout(d, rx).await\<close>: a value, a closed channel, or the deadline.\<close>

datatype 'a waited = Got 'a | Closed | Elapsed

datatype lane_effect =
    SubmitSync string string string "u64 option"
  | ReportHardTimeout
  | QueueSubmit string string string f64 "f64 option"
  | CancelToken
  | CpuSend string string u64
  | OverflowUp
  | OverflowDown
  | SlotDropped

definition fail :: "string \<Rightarrow> string \<Rightarrow> outcome" where
  "fail ty msg = Failure (ErrorJson_new ty msg) True"

record task_meta =
  tm_id :: string
  tm_retries :: u32
  tm_max_retries :: u32
  tm_queue :: string

definition task_meta_of :: "envelope \<Rightarrow> task_meta" where
  "task_meta_of e = \<lparr>tm_id = e_id e, tm_retries = e_retries e, tm_max_retries = e_max_retries e, tm_queue = e_queue e\<rparr>"

type_synonym lane_result = "outcome \<times> counter_op list \<times> lane_effect list"

subsection \<open>Sync tasks\<close>

record sync_run =
  sr_accepted :: bool
  sr_started :: "unit waited"
  sr_resp :: "outcome waited"
  sr_elapsed_ms :: u64

definition run_sync_task :: "envelope \<Rightarrow> sync_run \<Rightarrow> lane_result" where
  "run_sync_task env run =
     (let sub = SubmitSync (e_task env) (args_raw env) (kwargs_raw env) (e_soft_timeout_ms env);
          leave = (\<lambda>ops. Enter InflightIo # ops @ [Leave InflightIo])
      in if \<not> sr_accepted run
         then (fail ''WorkerLost'' ''sync pool queue full (io-threads wedged)'', leave [], [sub])
         else case sr_started run of
           Closed \<Rightarrow> (fail ''WorkerLost'' ''sync executor thread vanished'', leave [], [sub])
         | Elapsed \<Rightarrow>
             (fail ''WorkerLost'' (''sync pool queue wait exceeded '' @ show_u64 (e_timeout_ms env)
                @ ''ms with no free io thread''), leave [], [sub])
         | Got _ \<Rightarrow>
             (let (outcome, eff) =
                (case sr_resp run of
                   Got outcome \<Rightarrow> (outcome, [])
                 | Closed \<Rightarrow> (fail ''WorkerLost'' ''sync executor thread vanished'', [])
                 | Elapsed \<Rightarrow>
                     (fail ''TimeLimitExceeded'' (''hard timeout after '' @ show_u64 (e_timeout_ms env)
                        @ ''ms (thread abandoned)''), [ReportHardTimeout]))
              in (outcome, leave [Latency SyncLane (sr_elapsed_ms run)], sub # eff)))"

text \<open>How long the lane waits at most, one entry per wait: for a pool thread to start the job, then for
  its answer.\<close>

definition sync_waits_ms :: "envelope \<Rightarrow> nat list" where
  "sync_waits_ms env = [unat (e_timeout_ms env), unat (e_timeout_ms env)]"

subsection \<open>Async tasks\<close>

record async_run =
  ar_resp :: "outcome waited"
  ar_elapsed_ms :: u64

definition async_backstop_ms :: "envelope \<Rightarrow> u64" where
  "async_backstop_ms env = sat_add (e_timeout_ms env) BACKSTOP_GRACE_MS"

definition run_async_task :: "envelope \<Rightarrow> async_run \<Rightarrow> lane_result" where
  "run_async_task env run =
     (let (soft_s, hard_s) = async_timeouts_s env;
          sub = QueueSubmit (e_task env) (args_raw env) (kwargs_raw env) hard_s soft_s;
          (outcome, eff) =
            (case ar_resp run of
               Got outcome \<Rightarrow> (outcome, [])
             | Closed \<Rightarrow> (fail ''WorkerLost'' ''async completion channel dropped'', [])
             | Elapsed \<Rightarrow>
                 (fail ''TimeLimitExceeded'' (''no completion within '' @ show_u64 (e_timeout_ms env)
                    @ ''ms + grace (event loop unresponsive)''), [CancelToken]))
      in (outcome, [Enter InflightIo, Latency AsyncLane (ar_elapsed_ms run), Leave InflightIo], sub # eff))"

subsection \<open>Cpu tasks\<close>

datatype cpu_outcome = Resp string | Timeout | Lost

datatype admission = Admitted | AdmittedAfterWait | PoolClosed

datatype cpu_send = Sent | SentAfterWait | SendFailed | ChannelClosed

record cpu_run =
  cr_seq :: u64
  cr_admission :: admission
  cr_send :: cpu_send
  cr_resp :: "cpu_outcome waited"
  cr_elapsed_ms :: u64

definition hex_digit :: "nat \<Rightarrow> char" where
  "hex_digit d = ''0123456789abcdef'' ! d"

function show_hex :: "nat \<Rightarrow> string" where
  "show_hex n = (if n < 16 then [hex_digit n] else show_hex (n div 16) @ [hex_digit (n mod 16)])"
  by pat_completeness auto
termination
  by (relation "measure (\<lambda>n. n)") auto

declare show_hex.simps [simp del]

definition wire_id :: "envelope \<Rightarrow> u64 \<Rightarrow> string" where
  "wire_id env seq = e_id env @ ''.'' @ show_hex (unat seq)"

definition cpu_request :: "json_lib \<Rightarrow> envelope \<Rightarrow> string \<Rightarrow> string" where
  "cpu_request L env wid =
     map (\<lambda>c. if c = CHR 0x0A then CHR '' '' else c)
       (jl_object L [(''id'', jl_show L (JStr wid)), (''task'', jl_show L (JStr (e_task env))),
          (''args'', args_raw env), (''kwargs'', kwargs_raw env),
          (''soft_timeout_ms'', show_opt (\<lambda>n. show_u64 n) (e_soft_timeout_ms env))])"

definition run_cpu_task :: "json_lib \<Rightarrow> envelope \<Rightarrow> cpu_run \<Rightarrow> lane_result" where
  "run_cpu_task L env run =
     (let wid = wire_id env (cr_seq run);
          req = cpu_request L env wid;
          parked = [OverflowUp, OverflowDown];
          closed = fail ''WorkerLost'' ''cpu pool closed'';
          adm = (if cr_admission run = Admitted then [] else parked)
      in if cr_admission run = PoolClosed then (closed, [], adm)
         else case cr_send run of
           ChannelClosed \<Rightarrow> (closed, [], adm)
         | SendFailed \<Rightarrow> (closed, [], adm @ parked)
         | _ \<Rightarrow>
             (let eff = adm @ (if cr_send run = SentAfterWait then parked else [])
                          @ [CpuSend wid req (e_timeout_ms env)];
                  (outcome, ops) =
                    (case cr_resp run of
                       Got (Resp line) \<Rightarrow> (parse_pyresp L line True, [])
                     | Got Timeout \<Rightarrow>
                         (fail ''TimeLimitExceeded'' (''cpu child SIGKILLed after hard timeout ''
                            @ show_u64 (e_timeout_ms env) @ ''ms''), [])
                     | Got Lost \<Rightarrow> (fail ''WorkerLost'' ''cpu child died during task'', [Count CpuLost])
                     | _ \<Rightarrow> (fail ''WorkerLost'' ''cpu child dropped the task'', []))
              in (outcome, ops @ [Latency CpuLane (cr_elapsed_ms run)], eff)))"

section \<open>Correctness of the lanes\<close>

text \<open>A retryable failure minted by the worker itself.\<close>

definition worker_failure :: "outcome \<Rightarrow> bool" where
  "worker_failure r = (case r of Failure err b \<Rightarrow> b \<and> ej_origin err = ORIGIN_WORKER | _ \<Rightarrow> False)"

lemma worker_failure_fail [simp]: "worker_failure (fail ty msg)"
  by (simp add: worker_failure_def fail_def ErrorJson_new_def)

lemma gauge_delta_lane:
  "gauge_delta g (fst (snd (run_sync_task env sr))) = 0"
  "gauge_delta g (fst (snd (run_async_task env ar))) = 0"
  "gauge_delta g (fst (snd (run_cpu_task L env cr))) = 0"
  by (auto simp: run_sync_task_def run_async_task_def run_cpu_task_def Let_def
      split: waited.splits prod.splits cpu_send.splits cpu_outcome.splits)

lemma sync_lane:
  assumes "run_sync_task env sr = (r, ops, eff)"
  shows "(if sr_accepted sr \<and> sr_started sr = Got () \<and> (\<exists>x. sr_resp sr = Got x) then sr_resp sr = Got r else worker_failure r)
    \<and> (ReportHardTimeout \<in> set eff \<longleftrightarrow> sr_accepted sr \<and> sr_started sr = Got () \<and> sr_resp sr = Elapsed)"
  using assms by (cases "sr_accepted sr"; cases "sr_started sr"; cases "sr_resp sr") (auto simp: run_sync_task_def Let_def)

lemma async_lane:
  assumes "run_async_task env ar = (r, ops, eff)"
  shows "(if \<exists>x. ar_resp ar = Got x then ar_resp ar = Got r else worker_failure r) \<and> (CancelToken \<in> set eff \<longleftrightarrow> ar_resp ar = Elapsed)"
  using assms by (cases "ar_resp ar") (auto simp: run_async_task_def Let_def split: prod.splits)

text \<open>The answer of the pool, if the request reached a child and the child's connection answered it.\<close>

definition cpu_reply :: "cpu_run \<Rightarrow> cpu_outcome option" where
  "cpu_reply cr =
     (case cr_resp cr of
        Got x \<Rightarrow> if cr_admission cr \<noteq> PoolClosed \<and> cr_send cr \<in> {Sent, SentAfterWait} then Some x else None
      | _ \<Rightarrow> None)"

lemma cpu_lane:
  assumes "run_cpu_task L env cr = (r, ops, eff)"
  shows "(case cpu_reply cr of Some (Resp line) \<Rightarrow> r = parse_pyresp L line True | _ \<Rightarrow> worker_failure r)
    \<and> count_list eff OverflowUp = count_list eff OverflowDown
    \<and> (Count CpuLost \<in> set ops \<longleftrightarrow> cpu_reply cr = Some Lost)"
proof (cases "cr_resp cr")
  case (Got x)
  then show ?thesis
    using assms by (cases "cr_admission cr"; cases "cr_send cr"; cases x) (auto simp: run_cpu_task_def cpu_reply_def Let_def)
qed (use assms in \<open>cases "cr_admission cr"; cases "cr_send cr"; auto simp: run_cpu_task_def cpu_reply_def Let_def\<close>)+

text \<open>
  C29. Whatever an executor does (answers, vanishes, never starts the task, exceeds its deadline,
  dies, or refuses the task), each lane produces exactly one outcome: the executor's own answer
  when there is one, otherwise a retryable failure minted by the worker. The lane's gauge is back
  where it was, every wait on a full cpu backlog that was counted is uncounted, and a hard
  timeout on a thread is reported exactly when the started task missed its deadline.
\<close>

theorem lanes_total:
  "(let (r, ops, eff) = run_sync_task env sr in
      (if sr_accepted sr \<and> sr_started sr = Got () \<and> (\<exists>x. sr_resp sr = Got x) then sr_resp sr = Got r else worker_failure r)
      \<and> (ReportHardTimeout \<in> set eff \<longleftrightarrow> sr_accepted sr \<and> sr_started sr = Got () \<and> sr_resp sr = Elapsed)
      \<and> (\<forall>g. gauge_delta g ops = 0))
   \<and> (let (r, ops, eff) = run_async_task env ar in
      (if \<exists>x. ar_resp ar = Got x then ar_resp ar = Got r else worker_failure r) \<and> (CancelToken \<in> set eff \<longleftrightarrow> ar_resp ar = Elapsed)
      \<and> (\<forall>g. gauge_delta g ops = 0))
   \<and> (let (r, ops, eff) = run_cpu_task L env cr in
      (case cpu_reply cr of Some (Resp line) \<Rightarrow> r = parse_pyresp L line True | _ \<Rightarrow> worker_failure r)
      \<and> count_list eff OverflowUp = count_list eff OverflowDown
      \<and> (Count CpuLost \<in> set ops \<longleftrightarrow> cpu_reply cr = Some Lost)
      \<and> (\<forall>g. gauge_delta g ops = 0))"
proof -
  obtain r1 o1 e1 where s: "run_sync_task env sr = (r1, o1, e1)" by (cases "run_sync_task env sr")
  obtain r2 o2 e2 where a: "run_async_task env ar = (r2, o2, e2)" by (cases "run_async_task env ar")
  obtain r3 o3 e3 where c: "run_cpu_task L env cr = (r3, o3, e3)" by (cases "run_cpu_task L env cr")
  have "gauge_delta g o1 = 0" "gauge_delta g o2 = 0" "gauge_delta g o3 = 0" for g
    using gauge_delta_lane(1) [of g env sr] gauge_delta_lane(2) [of g env ar] gauge_delta_lane(3) [of g L env cr]
    by (simp_all add: s a c)
  then show ?thesis
    unfolding s a c Let_def prod.case using sync_lane [OF s] async_lane [OF a] cpu_lane [OF c] by blast
qed

text \<open>
  The async backstop never wraps into an early deadline and leaves the event loop the full
  grace period: for a time limit within the clamp it is the limit plus two seconds.
\<close>

theorem async_backstop_after_hard_timeout:
  assumes "e_timeout_ms env \<le> MAX_TIMEOUT_MS"
  shows "unat (async_backstop_ms env) = unat (e_timeout_ms env) + 2000"
proof -
  have "unat (e_timeout_ms env) \<le> 86400000"
    using assms by (simp add: word_le_nat_alt MAX_TIMEOUT_MS_def)
  then show ?thesis by (simp add: async_backstop_ms_def unat_sat_add BACKSTOP_GRACE_MS_def)
qed

theorem async_backstop_after_hard_timeout_witness: "unat (async_backstop_ms demo_env) = 302000"
  using async_backstop_after_hard_timeout [of demo_env] by (simp add: demo_env_def MAX_TIMEOUT_MS_def)

subsection \<open>The cpu request line\<close>

lemma show_hex_inj: "show_hex m = show_hex n \<Longrightarrow> m = n"
proof (induction m arbitrary: n rule: show_hex.induct)
  case (1 m)
  have dig: "hex_digit a = hex_digit b \<Longrightarrow> a < 16 \<Longrightarrow> b < 16 \<Longrightarrow> a = b" for a b
    unfolding hex_digit_def by (rule nth_eq_iff_index_eq [THEN iffD1, of "''0123456789abcdef''"]) simp_all
  have ne: "show_hex k \<noteq> []" for k by (subst show_hex.simps) simp
  consider "m < 16" "n < 16" | "\<not> m < 16" "\<not> n < 16" | "m < 16" "\<not> n < 16" | "\<not> m < 16" "n < 16" by blast
  then show ?case
  proof cases
    case 1
    then show ?thesis using "1.prems" dig by (simp add: show_hex.simps)
  next
    case 2
    then have "show_hex (m div 16) = show_hex (n div 16)" "hex_digit (m mod 16) = hex_digit (n mod 16)"
      using "1.prems" by (simp_all add: show_hex.simps [of m] show_hex.simps [of n])
    then have "m div 16 = n div 16" "m mod 16 = n mod 16" using "1.IH" [OF 2(1)] dig by auto
    then show ?thesis by (metis div_mult_mod_eq)
  qed (use "1.prems" ne [symmetric] ne in \<open>simp_all add: show_hex.simps [of m] show_hex.simps [of n]\<close>)
qed

lemma show_hex_no_dot: "CHR ''.'' \<notin> set (show_hex n)"
proof (induction n rule: show_hex.induct)
  case (1 n)
  have "CHR ''.'' \<noteq> hex_digit d" if "d < 16" for d
  proof -
    have "hex_digit d \<in> set ''0123456789abcdef''" using that unfolding hex_digit_def by (intro nth_mem) simp
    then show ?thesis by auto
  qed
  then show ?case using 1 by (subst show_hex.simps) (cases "n < 16"; simp)
qed

text \<open>A wire id determines its envelope id and its sequence number: the last dot separates them.\<close>

lemma wire_id_inj: "wire_id env s = wire_id env' s' \<longleftrightarrow> e_id env = e_id env' \<and> s = s'"
proof
  assume eq: "wire_id env s = wire_id env' s'"
  have split: "x = y \<and> u = v" if "x @ CHR ''.'' # u = y @ CHR ''.'' # v" "CHR ''.'' \<notin> set u" "CHR ''.'' \<notin> set v" for x y u v :: string
    using that by (auto simp: append_eq_append_conv2 append_eq_Cons_conv Cons_eq_append_conv)
  have "e_id env = e_id env' \<and> show_hex (unat s) = show_hex (unat s')"
    using eq by (intro split) (simp_all add: wire_id_def show_hex_no_dot)
  then show "e_id env = e_id env' \<and> s = s'" by (auto simp: word_unat_eq_iff dest: show_hex_inj)
qed (simp add: wire_id_def)

lemma cpu_request_one_line: "CHR 0x0A \<notin> set (cpu_request L env wid)"
  by (auto simp: cpu_request_def split: if_splits)

end
