(* ===== verification/Dispatch.thy ===== *)
theory Dispatch
  imports Exec Backoff "HOL-Library.Multiset"
begin

section \<open>Per-entry dispatch (dispatch.rs)\<close>

text \<open>
  One stream entry from delivery to its final broker write: parse and validate, expiry,
  idempotency claim, route to a lane, finish (result, retry or dead letter). Each function takes
  the completion buffer as the parameter \<open>sub\<close> (Broker.submit) and the broker as the world \<open>W\<close>, and
  returns its counter updates, its lane effects and the new broker state. A task that panics
  (\<open>None\<close> of \<open>parses_as_tree\<close>) unwinds without a broker write.
\<close>

subsection \<open>Validation\<close>

definition valid_task_id :: "string \<Rightarrow> bool" where
  "valid_task_id i \<longleftrightarrow> length i = 32 \<and>
     (\<forall>b\<in>set i. is_digit b \<or> 97 \<le> (of_char b :: nat) \<and> (of_char b :: nat) \<le> 102)"

definition MAX_ARG_NESTING :: nat where
  "MAX_ARG_NESTING = 126"

definition is_open :: "char \<Rightarrow> bool" where
  "is_open c \<longleftrightarrow> c = CHR ''['' \<or> c = CHR ''{''"

definition is_close :: "char \<Rightarrow> bool" where
  "is_close c \<longleftrightarrow> c = CHR '']'' \<or> c = CHR ''}''"

text \<open>\<open>slice::chunks\<close>, and the vectorized count: a byte counter per chunk of 255.\<close>

function chunks :: "nat \<Rightarrow> 'a list \<Rightarrow> 'a list list" where
  "chunks n xs = (if xs = [] \<or> n = 0 then [] else take n xs # chunks n (drop n xs))"
  by pat_completeness auto
termination
  by (relation "measure (\<lambda>(n, xs). length xs)") auto

declare chunks.simps [simp del]

definition count_opens :: "string \<Rightarrow> nat" where
  "count_opens b =
     sum_list (map (\<lambda>c. unat (fold (\<lambda>x n. n + (if is_open x then 1 else 0)) c (0 :: u8))) (chunks 255 b))"

text \<open>\<open>u16::from_str_radix(h, 16)\<close> on the first four bytes: hex digits, or a plus and three.\<close>

definition hex_val :: "char \<Rightarrow> nat option" where
  "hex_val c =
     (let n = (of_char c :: nat)
      in if 48 \<le> n \<and> n \<le> 57 then Some (n - 48)
         else if 97 \<le> n \<and> n \<le> 102 then Some (n - 87)
         else if 65 \<le> n \<and> n \<le> 70 then Some (n - 55) else None)"

fun hex_num :: "nat \<Rightarrow> string \<Rightarrow> nat option" where
  "hex_num acc [] = Some acc"
| "hex_num acc (c # cs) = (case hex_val c of None \<Rightarrow> None | Some d \<Rightarrow> hex_num (16 * acc + d) cs)"

definition unit16 :: "string \<Rightarrow> nat option" where
  "unit16 s =
     (if length s < 4 then None
      else case take 4 s of
             [] \<Rightarrow> None
           | c # cs \<Rightarrow> if c = CHR ''+'' then hex_num 0 cs else hex_num 0 (c # cs))"

definition trail :: "nat \<Rightarrow> bool" where
  "trail u \<longleftrightarrow> 0xDC00 \<le> u \<and> u < 0xE000"

definition lead :: "nat \<Rightarrow> bool" where
  "lead u \<longleftrightarrow> 0xD800 \<le> u \<and> u < 0xDC00"

text \<open>The scan from byte \<open>i\<close> on; \<open>None\<close> is a panic (an index out of range, or a bad escape).\<close>

function scan_tree :: "bool \<Rightarrow> u64 \<Rightarrow> string \<Rightarrow> bool option" where
  "scan_tree in_str depth s =
     (case s of
        [] \<Rightarrow> Some True
      | c # cs \<Rightarrow>
          if in_str \<and> c = CHR 0x5C
          then (case cs of
                  [] \<Rightarrow> None
                | d # ds \<Rightarrow>
                    if d = CHR ''u''
                    then (case unit16 ds of
                            None \<Rightarrow> None
                          | Some u \<Rightarrow>
                              if trail u then Some False
                              else if lead u
                              then (if take 2 (drop 4 ds) = [CHR 0x5C, CHR ''u'']
                                       \<and> (case unit16 (drop 6 ds) of Some t \<Rightarrow> trail t | None \<Rightarrow> False)
                                    then scan_tree in_str depth (drop 10 ds) else Some False)
                              else scan_tree in_str depth (drop 4 ds))
                    else scan_tree in_str depth ds)
          else if c = CHR 0x22 then scan_tree (\<not> in_str) depth cs
          else if \<not> in_str \<and> is_open c
          then (if unat (depth + 1) > MAX_ARG_NESTING then Some False else scan_tree in_str (depth + 1) cs)
          else if \<not> in_str \<and> is_close c then scan_tree in_str (depth - 1) cs
          else scan_tree in_str depth cs)"
  by pat_completeness auto
termination
  by (relation "measure (\<lambda>(a, b, s). length s)") auto

declare scan_tree.simps [simp del]

definition parses_as_tree :: "string \<Rightarrow> bool option" where
  "parses_as_tree json =
     (if count_opens json \<le> MAX_ARG_NESTING \<and> CHR 0x5C \<notin> set json then Some True
      else scan_tree False 0 json)"

text \<open>\<open>as_bytes()[0]\<close> of an empty text would panic; a captured JSON value is never empty.\<close>

definition shape_fits :: "string option \<Rightarrow> char \<Rightarrow> bool option" where
  "shape_fits raw opener =
     (case raw of
        None \<Rightarrow> Some True
      | Some [] \<Rightarrow> None
      | Some (c # cs) \<Rightarrow> if c = opener then parses_as_tree (c # cs) else Some False)"

definition args_kwargs_shape_ok :: "envelope \<Rightarrow> bool option" where
  "args_kwargs_shape_ok env =
     (case shape_fits (e_args env) CHR ''['' of
        Some True \<Rightarrow> shape_fits (e_kwargs env) CHR ''{''
      | r \<Rightarrow> r)"

subsection \<open>Terminal writes\<close>

definition recover_id :: "json_lib \<Rightarrow> string \<Rightarrow> string option" where
  "recover_id L raw_e =
     do {
       ms \<leftarrow> struct_members L [''id''] raw_e;
       i \<leftarrow> field ms ''id'' (de_string L) None;
       if valid_task_id i then Some i else None
     }"

definition dlq_error :: "string \<Rightarrow> error_json" where
  "dlq_error reason =
     ErrorJson_new
       (if reason = ''malformed'' then ''Malformed''
        else if reason = ''unregistered'' then ''UnregisteredTask''
        else if reason = ''redelivery_limit'' then ''RedeliveryLimitExceeded'' else ''DeadLettered'')
       (''task was dead lettered before it ran (reason '' @ reason @ '')'')"

definition error_text :: "json_lib \<Rightarrow> error_json option \<Rightarrow> string" where
  "error_text L err = (case err of None \<Rightarrow> '''' | Some e \<Rightarrow> jl_object L (error_members L e))"

definition dlq_terminal :: "ctx \<Rightarrow> 's world \<Rightarrow> 's submitter \<Rightarrow> string \<Rightarrow> string \<Rightarrow> string \<Rightarrow> string \<Rightarrow> error_json option
    \<Rightarrow> 's \<Rightarrow> counter_op list \<times> 's" where
  "dlq_terminal cx W sub queue sid raw_e reason err s =
     (let L = cx_json cx;
          recovered_id = recover_id L raw_e;
          result_error = (case err of Some e \<Rightarrow> e | None \<Rightarrow> dlq_error reason);
          (store, s1) =
            (case recovered_id of
               None \<Rightarrow> (None, s)
             | Some i \<Rightarrow> (let (now, s1) = w_now W s
                         in (Some (i, result_failure L result_error now, cx_result_ttl cx), s1)))
      in case finish_dlq sub queue sid raw_e reason (error_text L err) store s1 of
           (Inr _, s2) \<Rightarrow> ([Count Dlq], s2)
         | (Inl _, s2) \<Rightarrow> ([], s2))"

definition final_failure :: "ctx \<Rightarrow> 's submitter \<Rightarrow> string \<Rightarrow> string \<Rightarrow> envelope \<Rightarrow> error_json \<Rightarrow> u64 \<Rightarrow> string
    \<Rightarrow> 's \<Rightarrow> counter_op list \<times> 's" where
  "final_failure cx sub queue sid env err now reason s =
     (let L = cx_json cx;
          rj = result_failure L err now;
          store = (if e_store_result env then Some (e_id env, rj, cx_result_ttl cx) else None)
      in case finish_dlq sub queue sid (envelope_to_string L env) reason (error_text L (Some err)) store s of
           (Inr _, s1) \<Rightarrow> ([Count Failed, Count Dlq], s1)
         | (Inl _, s1) \<Rightarrow> ([], s1))"

subsection \<open>Retries\<close>

definition MAX_RETRY_DELAY_MS :: u64 where
  "MAX_RETRY_DELAY_MS = 30 * 86400000"

definition retry_delay_ms :: "ctx \<Rightarrow> envelope \<Rightarrow> u64 option \<Rightarrow> u64" where
  "retry_delay_ms cx env countdown_ms =
     min (case countdown_ms of
            Some d \<Rightarrow> d
          | None \<Rightarrow> compute_backoff_ms (cx_random_range cx) (e_retries env) (e_backoff_base_ms env)
                     (e_backoff_factor env) (e_backoff_max_ms env) (e_jitter env))
       MAX_RETRY_DELAY_MS"

definition schedule_retry :: "ctx \<Rightarrow> 's world \<Rightarrow> 's submitter \<Rightarrow> string \<Rightarrow> string \<Rightarrow> envelope \<Rightarrow> u64 option
    \<Rightarrow> 's \<Rightarrow> counter_op list \<times> 's" where
  "schedule_retry cx W sub queue sid env countdown_ms s =
     (let env = env\<lparr>e_retries := e_retries env + 1\<rparr>;
          d_ms = retry_delay_ms cx env countdown_ms;
          (now, s1) = w_now W s;
          fire_at = sat_add now d_ms
      in case finish_retry sub queue sid (envelope_to_string (cx_json cx) env) fire_at s1 of
           (Inr _, s2) \<Rightarrow> ([Count Retried], s2)
         | (Inl _, s2) \<Rightarrow> ([], s2))"

definition countdown_ms_of :: "f64 \<Rightarrow> u64" where
  "countdown_ms_of s = f64_as_u64 (f64_round (f64_mul (f64_max s (Fin 0)) (Fin 1000)))"

subsection \<open>Completion\<close>

definition finish :: "ctx \<Rightarrow> 's world \<Rightarrow> 's submitter \<Rightarrow> string \<Rightarrow> string \<Rightarrow> envelope \<Rightarrow> outcome
    \<Rightarrow> 's \<Rightarrow> counter_op list \<times> 's" where
  "finish cx W sub queue sid env outcome s =
     (let (now, s1) = w_now W s
      in case outcome of
           Success val \<Rightarrow>
             (case finish_success sub queue sid (e_id env)
                     (if e_store_result env then Some (result_success val now) else None) (cx_result_ttl cx) s1 of
                (Inr _, s2) \<Rightarrow> ([Count Ok], s2)
              | (Inl _, s2) \<Rightarrow> ([Count Failed], s2))
         | ForceRetry countdown err \<Rightarrow>
             if e_retries env < e_max_retries env
             then schedule_retry cx W sub queue sid env (map_option countdown_ms_of countdown) s1
             else final_failure cx sub queue sid env err now ''max_retries'' s1
         | Failure err retryable \<Rightarrow>
             if retryable \<and> e_retries env < e_max_retries env
             then schedule_retry cx W sub queue sid env None s1
             else final_failure cx sub queue sid env err now
                    (if retryable then ''max_retries'' else ''not_retryable'') s1)"

subsection \<open>Processing an entry\<close>

record lane_runs =
  lr_sync :: sync_run
  lr_async :: async_run
  lr_cpu :: cpu_run

definition run_lane :: "ctx \<Rightarrow> bool \<Rightarrow> bool \<Rightarrow> envelope \<Rightarrow> lane_runs \<Rightarrow> lane_result" where
  "run_lane cx is_cpu is_async env runs =
     (if is_cpu
      then (let (r, ops, eff) = run_cpu_task (cx_json cx) env (lr_cpu runs) in (r, ops, SlotDropped # eff))
      else if is_async then run_async_task env (lr_async runs)
      else run_sync_task env (lr_sync runs))"

type_synonym 's processed = "counter_op list \<times> lane_effect list \<times> 's"

definition execute :: "ctx \<Rightarrow> 's world \<Rightarrow> 's submitter \<Rightarrow> string \<Rightarrow> string \<Rightarrow> envelope \<Rightarrow> bool \<Rightarrow> bool \<Rightarrow> lane_runs
    \<Rightarrow> 's \<Rightarrow> 's processed" where
  "execute cx W sub queue sid env is_cpu is_async runs s =
     (let (outcome, ops, eff) = run_lane cx is_cpu is_async env runs;
          (ops2, s1) = finish cx W sub queue sid env outcome s
      in (ops @ ops2, eff, s1))"

text \<open>After the registry lookup: expiry, then the idempotency claim, then execution.\<close>

definition claim_and_run :: "ctx \<Rightarrow> 's world \<Rightarrow> 's submitter \<Rightarrow> string \<Rightarrow> string \<Rightarrow> envelope \<Rightarrow> bool \<Rightarrow> bool
    \<Rightarrow> lane_runs \<Rightarrow> 's \<Rightarrow> 's processed" where
  "claim_and_run cx W sub queue sid env is_cpu is_async runs s =
     (case e_idempotency_key env of
        None \<Rightarrow> execute cx W sub queue sid env is_cpu is_async runs s
      | Some key \<Rightarrow>
          (case idemp_claim W (cx_sha256 cx) key (e_id env) (cx_idemp_ttl cx) (e_timeout_ms env) s of
             (Inr (Duplicate claimant), s1) \<Rightarrow>
               (let (now, s2) = w_now W s1;
                    rj = result_duplicate (cx_json cx) now claimant
                in case finish_duplicate sub queue sid (e_id env)
                          (if e_store_result env then Some rj else None) (cx_result_ttl cx) s2 of
                     (Inr _, s3) \<Rightarrow> ([Count Ok, Count Dup], [], s3)
                   | (Inl _, s3) \<Rightarrow> ([], [], s3))
           | (_, s1) \<Rightarrow> execute cx W sub queue sid env is_cpu is_async runs s1))"

definition run_env :: "ctx \<Rightarrow> 's world \<Rightarrow> 's submitter \<Rightarrow> string \<Rightarrow> string \<Rightarrow> string \<Rightarrow> envelope \<Rightarrow> bool \<Rightarrow> bool
    \<Rightarrow> lane_runs \<Rightarrow> 's \<Rightarrow> 's processed" where
  "run_env cx W sub queue sid raw env is_cpu is_async runs s =
     (case expiry_deadline_ms env (queue_ttl_ms cx queue) of
        None \<Rightarrow> claim_and_run cx W sub queue sid env is_cpu is_async runs s
      | Some deadline \<Rightarrow>
          (let (now, s1) = w_now W s
           in if now > deadline
              then (let rj = result_expired (cx_json cx) deadline now;
                        store = (if e_store_result env then Some (e_id env, rj, cx_result_ttl cx) else None)
                    in case finish_dlq sub queue sid raw ''expired'' '''' store s1 of
                         (Inr _, s2) \<Rightarrow> ([Count Expired, Count Dlq], [], s2)
                       | (Inl _, s2) \<Rightarrow> ([], [], s2))
              else claim_and_run cx W sub queue sid env is_cpu is_async runs s1))"

datatype verdict = Malformed | Panics | Runs envelope

definition judge_envelope :: "envelope option \<Rightarrow> verdict" where
  "judge_envelope parsed =
     (case parsed of
        None \<Rightarrow> Malformed
      | Some e \<Rightarrow>
          if e_v e > PROTOCOL_VERSION then Malformed
          else (case args_kwargs_shape_ok e of
                 None \<Rightarrow> Panics
               | Some False \<Rightarrow> Malformed
               | Some True \<Rightarrow>
                   if e_timeout_ms e = 0 then Malformed
                   else if e_id e \<noteq> [] \<and> e_task e \<noteq> [] \<and> valid_task_id (e_id e) then Runs e
                   else Malformed))"

definition process :: "ctx \<Rightarrow> 's world \<Rightarrow> 's submitter \<Rightarrow> string \<Rightarrow> string \<Rightarrow> string option \<Rightarrow> lane_runs \<Rightarrow> 's
    \<Rightarrow> 's processed" where
  "process cx W sub queue sid raw runs s =
     (let dead = (\<lambda>txt reason. let (ops, s1) = dlq_terminal cx W sub queue sid txt reason None s in (ops, [], s1))
      in case raw of
           None \<Rightarrow> dead '''' ''malformed''
         | Some raw \<Rightarrow>
             if length raw > a_max_envelope_bytes (cx_args cx) then dead (safe_truncate raw 4096) ''malformed''
             else (case judge_envelope (envelope_from_str (cx_json cx) raw) of
                    Malformed \<Rightarrow> dead raw ''malformed''
                  | Panics \<Rightarrow> ([], [], s)
                  | Runs env \<Rightarrow>
                      (case cx_registry cx (e_task env) of
                         None \<Rightarrow> dead raw ''unregistered''
                       | Some spec \<Rightarrow>
                           run_env cx W sub queue sid raw env (ts_kind spec = ''cpu'') (ts_is_async spec) runs s)))"

definition spawn_dispatch :: "ctx \<Rightarrow> 's world \<Rightarrow> 's submitter \<Rightarrow> string \<Rightarrow> string \<Rightarrow> string option \<Rightarrow> lane_runs
    \<Rightarrow> inflight \<times> 's \<Rightarrow> counter_op list \<times> lane_effect list \<times> inflight \<times> 's" where
  "spawn_dispatch cx W sub queue stream_id raw runs st =
     (case st of (held, s) \<Rightarrow>
        let (guard, held1) = track queue stream_id held;
            (ops, eff, s1) = process cx W sub queue stream_id raw runs s
        in (Count Fetched # Enter InflightTotal # ops @ [Leave InflightTotal], eff, drop_entry guard held1, s1))"

section \<open>Correctness of dispatch\<close>

subsection \<open>The nesting check\<close>

lemma fold_count:
  "length c + unat n \<le> 255 \<Longrightarrow>
     unat (fold (\<lambda>x n. n + (if is_open x then 1 else 0)) c (n :: u8)) = unat n + length (filter is_open c)"
proof (induction c arbitrary: n)
  case (Cons x c)
  have step: "unat (n + (if is_open x then 1 else 0)) = unat n + (if is_open x then 1 else 0)"
  proof (cases "is_open x")
    case True
    have "unat n + unat (1 :: u8) < 2 ^ LENGTH(8)" using Cons.prems by simp
    then show ?thesis using True by (simp only: unat_add_lem [THEN iffD1] if_True unat_1)
  qed simp
  have "unat (fold (\<lambda>x n. n + (if is_open x then 1 else 0)) c (n + (if is_open x then 1 else 0)))
      = unat (n + (if is_open x then 1 else 0)) + length (filter is_open c)"
    using Cons.prems by (intro Cons.IH) (simp add: step)
  then show ?case using step by simp
qed simp

lemma concat_chunks: "0 < n \<Longrightarrow> concat (chunks n xs) = xs"
proof (induction n xs rule: chunks.induct)
  case (1 n xs)
  then show ?case by (subst chunks.simps) auto
qed

lemma chunk_length: "c \<in> set (chunks n xs) \<Longrightarrow> length c \<le> n"
proof (induction n xs rule: chunks.induct)
  case (1 n xs)
  then show ?case by (subst (asm) (2) chunks.simps) (auto split: if_splits)
qed

lemma count_opens_eq: "count_opens b = length (filter is_open b)"
proof -
  have "unat (fold (\<lambda>x n. n + (if is_open x then 1 else 0)) c (0 :: u8)) = length (filter is_open c)"
    if "c \<in> set (chunks 255 b)" for c
    using fold_count [of c 0] chunk_length [OF that] by simp
  then have "count_opens b = sum_list (map (\<lambda>c. length (filter is_open c)) (chunks 255 b))"
    unfolding count_opens_def by (intro arg_cong [where f = sum_list] map_cong) auto
  also have "\<dots> = length (filter is_open (concat (chunks 255 b)))"
    by (simp add: filter_concat length_concat comp_def)
  finally show ?thesis by (simp add: concat_chunks)
qed

text \<open>Brackets outside strings never close more than was opened, in text without escapes; a property
  every JSON text has.\<close>

fun never_underflows :: "bool \<Rightarrow> nat \<Rightarrow> string \<Rightarrow> bool" where
  "never_underflows in_str d [] = True"
| "never_underflows in_str d (c # cs) =
     (if c = CHR 0x22 then never_underflows (\<not> in_str) d cs
      else if \<not> in_str \<and> is_open c then never_underflows in_str (Suc d) cs
      else if \<not> in_str \<and> is_close c then d \<noteq> 0 \<and> never_underflows in_str (d - 1) cs
      else never_underflows in_str d cs)"

lemma scan_tree_shallow:
  assumes "CHR 0x5C \<notin> set s" "unat depth + length (filter is_open s) \<le> MAX_ARG_NESTING"
    "never_underflows in_str (unat depth) s"
  shows "scan_tree in_str depth s = Some True"
  using assms
proof (induction s arbitrary: in_str depth)
  case (Cons c s)
  have small: "unat depth \<le> 126" using Cons.prems(2) by (simp add: MAX_ARG_NESTING_def)
  have up: "unat (depth + 1) = unat depth + 1" using small by (simp add: unat_add_lem [THEN iffD1])
  have down: "unat depth \<noteq> 0 \<Longrightarrow> unat (depth - 1) = unat depth - 1"
    by (metis unat_minus_one unat_0)
  have cl: "is_close c \<Longrightarrow> \<not> is_open c" by (auto simp: is_open_def is_close_def)
  consider "c = CHR 0x22" | "c \<noteq> CHR 0x22" "\<not> in_str" "is_open c" | "c \<noteq> CHR 0x22" "\<not> in_str" "is_close c" "\<not> is_open c"
    | "c \<noteq> CHR 0x22" "in_str \<or> \<not> is_open c \<and> \<not> is_close c" using cl by blast
  then show ?case
  proof cases
    case 1
    then show ?thesis using Cons by (subst scan_tree.simps) (auto simp: is_open_def)
  next
    case 2
    then show ?thesis using Cons up by (subst scan_tree.simps) auto
  next
    case 3
    then show ?thesis using Cons down by (subst scan_tree.simps) auto
  next
    case 4
    then show ?thesis using Cons by (subst scan_tree.simps) (auto split: if_splits)
  qed
qed (simp add: scan_tree.simps)

text \<open>
  C25. The vectorized fast path of the nesting check never changes its answer: on text whose brackets
  balance, the check equals the full scan, and the byte counters of the fast path count every
  opening bracket without overflow.
\<close>

theorem parses_as_tree_fast_path_sound:
  assumes "CHR 0x5C \<notin> set json \<longrightarrow> never_underflows False 0 json"
  shows "parses_as_tree json = scan_tree False 0 json \<and> count_opens json = length (filter is_open json)"
  using assms scan_tree_shallow [of json 0 False] by (auto simp: parses_as_tree_def count_opens_eq)

theorem parses_as_tree_fast_path_sound_witness:
  "parses_as_tree ''[[1],{}]'' = scan_tree False 0 ''[[1],{}]'' \<and> count_opens ''[[1],{}]'' = 3"
  using parses_as_tree_fast_path_sound [of "''[[1],{}]''"] by (simp add: is_open_def is_close_def)

subsection \<open>Recording completions\<close>

text \<open>The same broker and the same completion buffer, with every submission recorded in order.\<close>

type_synonym submission = "string \<times> string \<times> redis_cmd list"

definition rec_world :: "'s world \<Rightarrow> ('s \<times> 'l) world" where
  "rec_world W =
     \<lparr>w_query = (\<lambda>c (s, l). let (r, s') = w_query W c s in (r, (s', l))),
      w_pipe = (\<lambda>cs (s, l). let (r, s') = w_pipe W cs s in (r, (s', l))),
      w_call = (\<lambda>c (s, l). let (r, s') = w_call W c s in (r, (s', l))),
      w_eval = (\<lambda>f (s, l). let (r, s') = w_eval W (\<lambda>s. let (r, s') = f (s, l) in (r, fst s')) s in (r, (s', l))),
      w_now = (\<lambda>(s, l). let (t, s') = w_now W s in (t, (s', l)))\<rparr>"

definition rec_sub :: "'s submitter \<Rightarrow> ('s \<times> submission list) submitter" where
  "rec_sub sub queue sid extra = (\<lambda>(s, l). let (r, s') = sub queue sid extra s in (r, (s', l @ [(queue, sid, extra)])))"

lemma rec_now: "w_now (rec_world W) (s, l) = (t, (s', l')) \<longleftrightarrow> w_now W s = (t, s') \<and> l' = l"
  by (auto simp: rec_world_def Let_def split: prod.splits)

lemma rec_now_log: "snd (snd (w_now (rec_world W) st)) = snd st"
  by (cases st) (simp add: rec_world_def Let_def split: prod.splits)

lemma rec_sub_log: "snd (snd (rec_sub sub queue sid extra st)) = snd st @ [(queue, sid, extra)]"
  by (cases st) (simp add: rec_sub_def Let_def split: prod.splits)

lemma rec_claim_log: "snd (snd (idemp_claim (rec_world W) sha key tid ttl tmo st)) = snd st"
proof -
  have "snd (snd (w_eval (rec_world W) f st)) = snd st" for f
    by (cases st) (simp add: rec_world_def Let_def split: prod.splits)
  then show ?thesis
    unfolding idemp_claim_def Let_def
    by (auto split: prod.splits sum.splits redis_value.splits simp: prod_eq_iff)
qed

text \<open>Where a completion leaves the task: its result, the queue's delayed set, or its dead letters.\<close>

definition completion_of :: "string \<Rightarrow> redis_cmd list \<Rightarrow> bool" where
  "completion_of queue extra \<longleftrightarrow>
     extra = [] \<or> (\<exists>tid rj ttl. extra = [SET_EX (result_key tid) rj ttl])
     \<or> (\<exists>fire ej. extra = [ZADD (delayed_key queue) fire ej])
     \<or> (\<exists>ej reason err rest. extra = [XADD_MAXLEN (dlq_key queue) DLQ_MAXLEN
           [(''e'', ej), (''reason'', reason), (''error'', err)], EXPIRE (dlq_key queue) DLQ_TTL_S] @ rest
         \<and> (rest = [] \<or> (\<exists>tid rj ttl. rest = [SET_EX (result_key tid) rj ttl])))"

lemma rec_now_eq: "w_now (rec_world W) st = (t, st') \<Longrightarrow> snd st' = snd st"
  using rec_now_log [of W st] by simp

lemma rec_claim_eq: "idemp_claim (rec_world W) sha key tid ttl tmo st = (r, st') \<Longrightarrow> snd st' = snd st"
  using rec_claim_log [of W sha key tid ttl tmo st] by simp

lemma finish_writes_complete:
  "completion_of queue (case rj of None \<Rightarrow> [] | Some x \<Rightarrow> [SET_EX (result_key tid) x ttl])"
  "completion_of queue [ZADD (delayed_key queue) fire ej]"
  "completion_of queue ([XADD_MAXLEN (dlq_key queue) DLQ_MAXLEN [(''e'', ej), (''reason'', reason), (''error'', err)],
      EXPIRE (dlq_key queue) DLQ_TTL_S] @ (case store of None \<Rightarrow> [] | Some (i, x, t) \<Rightarrow> [SET_EX (result_key i) x t]))"
  by (auto simp: completion_of_def split: option.splits prod.splits)

text \<open>
  How processing reaches the completion buffer. \<open>R\<close> relates states between which only the clock was read
  and idempotency keys were claimed; an entry is completed once if, apart from such steps, exactly one
  completion was submitted for it.
\<close>

definition completes_one :: "('s \<Rightarrow> 's \<Rightarrow> bool) \<Rightarrow> 's submitter \<Rightarrow> string \<Rightarrow> string \<Rightarrow> 's \<Rightarrow> 's \<Rightarrow> bool" where
  "completes_one R sub queue sid s s' \<longleftrightarrow>
     (\<exists>extra s1. completion_of queue extra \<and> R s s1 \<and> R (snd (sub queue sid extra s1)) s')"

locale completer =
  fixes W :: "'s world" and sub :: "'s submitter" and R :: "'s \<Rightarrow> 's \<Rightarrow> bool"
  assumes R_refl: "R s s"
    and R_trans: "R s t \<Longrightarrow> R t u \<Longrightarrow> R s u"
    and R_now: "w_now W s = (now, s') \<Longrightarrow> R s s'"
    and R_claim: "idemp_claim W sha key tid ttl tmo s = (r, s') \<Longrightarrow> R s s'"
begin

lemma later: "completes_one R sub queue sid s1 s' \<Longrightarrow> R s s1 \<Longrightarrow> completes_one R sub queue sid s s'"
  unfolding completes_one_def using R_trans by blast

lemma submitted: "sub queue sid extra s = (r, s') \<Longrightarrow> completion_of queue extra \<Longrightarrow> completes_one R sub queue sid s s'"
  unfolding completes_one_def using R_refl by (metis snd_conv)

lemma finished:
  "finish_success sub queue sid tid rj ttl s = (r, s') \<Longrightarrow> completes_one R sub queue sid s s'"
  "finish_duplicate sub queue sid tid rj ttl s = (r, s') \<Longrightarrow> completes_one R sub queue sid s s'"
  "finish_retry sub queue sid ej fire s = (r, s') \<Longrightarrow> completes_one R sub queue sid s s'"
  "finish_dlq sub queue sid ej reason err store s = (r, s') \<Longrightarrow> completes_one R sub queue sid s s'"
  unfolding finish_success_def finish_duplicate_def finish_retry_def finish_dlq_def
  by (erule submitted, rule finish_writes_complete)+

lemma dead_letter:
  "dlq_terminal cx W sub queue sid raw reason err s = (ops, s') \<Longrightarrow> completes_one R sub queue sid s s'"
  by (auto simp: dlq_terminal_def Let_def split: prod.splits sum.splits option.splits intro: later finished(4) R_now)

lemma failed_for_good:
  "final_failure cx sub queue sid env err now reason s = (ops, s') \<Longrightarrow> completes_one R sub queue sid s s'"
  by (auto simp: final_failure_def Let_def split: prod.splits sum.splits intro: finished(4))

lemma retried:
  "schedule_retry cx W sub queue sid env cd s = (ops, s') \<Longrightarrow> completes_one R sub queue sid s s'"
  by (auto simp: schedule_retry_def Let_def split: prod.splits sum.splits intro: later finished(3) R_now)

lemma finish_completes:
  assumes "finish cx W sub queue sid env outcome s = (ops, s')"
  shows "completes_one R sub queue sid s s'"
proof -
  obtain t s1 where n: "w_now W s = (t, s1)" by (meson surj_pair)
  have "completes_one R sub queue sid s1 s'"
    using assms n by (cases outcome)
      (auto simp: finish_def split: prod.splits sum.splits if_splits dest: finished(1) retried failed_for_good)
  then show ?thesis by (rule later) (rule R_now [OF n])
qed

lemma execute_completes:
  "execute cx W sub queue sid env c a runs s = (ops, eff, s') \<Longrightarrow> completes_one R sub queue sid s s'"
  by (auto simp: execute_def Let_def split: prod.splits dest: finish_completes)

lemma claim_and_run_completes:
  assumes "claim_and_run cx W sub queue sid env c a runs s = (ops, eff, s')"
  shows "completes_one R sub queue sid s s'"
proof (cases "e_idempotency_key env")
  case None
  then show ?thesis using assms by (simp add: claim_and_run_def execute_completes)
next
  case (Some key)
  obtain r s1 where cl: "idemp_claim W (cx_sha256 cx) key (e_id env) (cx_idemp_ttl cx) (e_timeout_ms env) s = (r, s1)"
    by (meson surj_pair)
  obtain t s2 where n: "w_now W s1 = (t, s2)" by (meson surj_pair)
  have "completes_one R sub queue sid s1 s'"
    using assms Some cl n later [OF _ R_now [OF n]]
    by (auto simp: claim_and_run_def Let_def split: prod.splits sum.splits idemp_claim_outcome.splits
      dest: execute_completes finished(2))
  then show ?thesis by (rule later) (rule R_claim [OF cl])
qed

lemma run_env_completes:
  assumes "run_env cx W sub queue sid raw env c a runs s = (ops, eff, s')"
  shows "completes_one R sub queue sid s s'"
proof -
  obtain t s1 where n: "w_now W s = (t, s1)" by (meson surj_pair)
  show ?thesis
    using assms n later [OF _ R_now [OF n]]
    by (auto simp: run_env_def Let_def split: option.splits prod.splits sum.splits if_splits
      dest: claim_and_run_completes finished(4))
qed

text \<open>The contract: one completion, or nothing at all for an entry that panics.\<close>

lemma process_completes:
  assumes "process cx W sub queue sid raw runs s = (ops, eff, s')"
  shows "if \<exists>r. raw = Some r \<and> length r \<le> a_max_envelope_bytes (cx_args cx)
            \<and> judge_envelope (envelope_from_str (cx_json cx) r) = Panics
         then s' = s else completes_one R sub queue sid s s'"
  using assms
  by (auto simp: process_def Let_def split: option.splits verdict.splits if_splits prod.splits dest: dead_letter run_env_completes)

end

interpretation recorded: completer "rec_world W" "rec_sub sub" "\<lambda>s s'. snd s' = snd s" for W sub
  by unfold_locales (auto dest: rec_now_eq rec_claim_eq)


subsection \<open>Retries\<close>

text \<open>The envelope a finished attempt is retried as, if it is.\<close>

definition retried_as :: "envelope \<Rightarrow> outcome \<Rightarrow> envelope option" where
  "retried_as env outcome =
     (if e_retries env < e_max_retries env
         \<and> (case outcome of Success _ \<Rightarrow> False | ForceRetry _ _ \<Rightarrow> True | Failure _ retryable \<Rightarrow> retryable)
      then Some (env\<lparr>e_retries := e_retries env + 1\<rparr>) else None)"

lemma u32_succ: "(a :: u32) < b \<Longrightarrow> unat (a + 1) = unat a + 1"
proof -
  assume "a < b"
  then have "unat a + unat (1 :: u32) < 2 ^ LENGTH(32)"
    using unsigned_less [of b, where ?'a = nat] by (simp add: word_less_nat_alt)
  then show ?thesis by (simp only: unat_add_lem [THEN iffD1] unat_1)
qed

lemma retried_as_Some:
  "retried_as env outcome = Some env' \<Longrightarrow>
     env' = env\<lparr>e_retries := e_retries env'\<rparr> \<and> unat (e_retries env') = unat (e_retries env) + 1
     \<and> unat (e_retries env') \<le> unat (e_max_retries env)"
  by (auto simp: retried_as_def word_less_nat_alt u32_succ split: if_splits)

lemma rec_sub_eq: "rec_sub sub queue sid extra (s, l) = (let (r, s') = sub queue sid extra s in (r, (s', l @ [(queue, sid, extra)])))"
  by (simp add: rec_sub_def)

lemma finish_retries:
  "\<exists>extra. snd (snd (finish cx (rec_world W) (rec_sub sub) queue sid env outcome (s, []))) = [(queue, sid, extra)]
     \<and> (case retried_as env outcome of
          Some env' \<Rightarrow> \<exists>fire. extra = [ZADD (delayed_key queue) fire (envelope_to_string (cx_json cx) env')]
             \<and> unat (fst (w_now W (snd (w_now W s)))) \<le> unat fire
             \<and> unat fire \<le> unat (fst (w_now W (snd (w_now W s)))) + 30 * 86400000
             \<and> unat (e_retries env') = unat (e_retries env) + 1 \<and> e_retries env' \<le> e_max_retries env
        | None \<Rightarrow> \<forall>fire ej. extra \<noteq> [ZADD (delayed_key queue) fire ej])"
proof -
  obtain t s1 where n: "w_now W s = (t, s1)" by fastforce
  obtain t2 s2 where n2: "w_now W s1 = (t2, s2)" by fastforce
  have now: "w_now (rec_world W) (s, l) = (t, (s1, l))" "w_now (rec_world W) (s1, l) = (t2, (s2, l))" for l :: "submission list"
    using n n2 by (simp_all add: rec_world_def)
  show ?thesis
  proof (cases "retried_as env outcome")
    case (Some env')
    have b: "unat (e_retries env') = unat (e_retries env) + 1" "e_retries env' \<le> e_max_retries env"
      using retried_as_Some [OF Some] by (auto simp: word_le_nat_alt)
    have env': "env' = env\<lparr>e_retries := e_retries env + 1\<rparr>" using Some by (auto simp: retried_as_def split: if_splits)
    define cd where "cd = (case outcome of ForceRetry c _ \<Rightarrow> map_option countdown_ms_of c | _ \<Rightarrow> None)"
    have fin: "finish cx (rec_world W) (rec_sub sub) queue sid env outcome (s, []) =
        schedule_retry cx (rec_world W) (rec_sub sub) queue sid env cd (s1, [])"
      using Some now by (auto simp: finish_def retried_as_def cd_def split: if_splits outcome.splits)
    let ?d = "retry_delay_ms cx env' cd"
    have d: "unat ?d \<le> 30 * 86400000"
      by (simp add: retry_delay_ms_def unat_min MAX_RETRY_DELAY_MS_def)
    have log: "snd (snd (schedule_retry cx (rec_world W) (rec_sub sub) queue sid env cd (s1, []))) =
        [(queue, sid, [ZADD (delayed_key queue) (sat_add t2 ?d) (envelope_to_string (cx_json cx) env')])]"
      by (simp add: schedule_retry_def Let_def now finish_retry_def rec_sub_eq env' split: prod.splits sum.splits)
    have "unat t2 \<le> unat (sat_add t2 ?d)" "unat (sat_add t2 ?d) \<le> unat t2 + 30 * 86400000"
      using d unat_lt_64 [of t2] by (auto simp: unat_sat_add)
    then show ?thesis unfolding fin log Some using b n n2 by simp
  next
    case None
    have dead: "\<exists>extra. snd (snd (final_failure cx (rec_sub sub) queue sid env err t reason (s1, []))) = [(queue, sid, extra)]
        \<and> (\<forall>fire ej. extra \<noteq> [ZADD (delayed_key queue) fire ej])" for err reason
      by (auto simp: final_failure_def Let_def finish_dlq_def rec_sub_eq split: prod.splits sum.splits)
    have succ: "\<exists>extra. snd (snd (finish cx (rec_world W) (rec_sub sub) queue sid env (Success val) (s, []))) = [(queue, sid, extra)]
        \<and> (\<forall>fire ej. extra \<noteq> [ZADD (delayed_key queue) fire ej])" for val
      by (auto simp: finish_def now finish_success_def rec_sub_eq Let_def split: prod.splits sum.splits)
    show ?thesis
      using None dead succ now
      by (cases outcome) (auto simp: finish_def retried_as_def split: if_splits)
  qed
qed

text \<open>
  C13. A failed attempt is retried exactly when it may be retried and the budget is not used up. The
  retry is the same envelope with the attempt count one higher, computed without overflow, written
  to the delayed set of the entry's own queue at a time that is at least the current clock and at
  most 30 days later; otherwise the attempt ends in a result or a dead letter.
\<close>

theorem retry_is_next_attempt_within_bounds:
  "\<exists>extra. snd (snd (finish cx (rec_world W) (rec_sub sub) queue sid env outcome (s, []))) = [(queue, sid, extra)]
     \<and> (case retried_as env outcome of
          Some env' \<Rightarrow> \<exists>fire. extra = [ZADD (delayed_key queue) fire (envelope_to_string (cx_json cx) env')]
             \<and> unat (fst (w_now W (snd (w_now W s)))) \<le> unat fire
             \<and> unat fire \<le> unat (fst (w_now W (snd (w_now W s)))) + 30 * 86400000
             \<and> unat (e_retries env') = unat (e_retries env) + 1 \<and> e_retries env' \<le> e_max_retries env
        | None \<Rightarrow> \<forall>fire ej. extra \<noteq> [ZADD (delayed_key queue) fire ej])"
  by (rule finish_retries)

text \<open>The text a finished attempt leaves on the delayed set, if it leaves one.\<close>

definition delayed_write :: "string \<Rightarrow> submission list \<Rightarrow> string option" where
  "delayed_write queue l =
     (case l of [(_, _, [ZADD k fire ej])] \<Rightarrow> if k = delayed_key queue then Some ej else None | _ \<Rightarrow> None)"

text \<open>The attempts a task goes through: each ends with an outcome in some state of the broker, and the
  next one is what a worker reads of the text the completion left on the delayed set.\<close>

fun attempts :: "ctx \<Rightarrow> 's world \<Rightarrow> 's submitter \<Rightarrow> string \<Rightarrow> envelope \<Rightarrow> (string \<times> outcome \<times> 's) list \<Rightarrow> envelope list" where
  "attempts cx W sub queue env [] = []"
| "attempts cx W sub queue env ((sid, outcome, s) # rs) =
     env # (case delayed_write queue (snd (snd (finish cx (rec_world W) (rec_sub sub) queue sid env outcome (s, [])))) of
              None \<Rightarrow> []
            | Some ej \<Rightarrow>
                (case envelope_from_str (cx_json cx) ej of
                   None \<Rightarrow> []
                 | Some env' \<Rightarrow> attempts cx W sub queue env' rs))"

lemma finish_delayed_write:
  "delayed_write queue (snd (snd (finish cx (rec_world W) (rec_sub sub) queue sid env outcome (s, [])))) =
     map_option (envelope_to_string (cx_json cx)) (retried_as env outcome)"
proof -
  obtain extra where l: "snd (snd (finish cx (rec_world W) (rec_sub sub) queue sid env outcome (s, []))) = [(queue, sid, extra)]"
    and x: "case retried_as env outcome of
        Some env' \<Rightarrow> \<exists>fire. extra = [ZADD (delayed_key queue) fire (envelope_to_string (cx_json cx) env')]
      | None \<Rightarrow> \<forall>fire ej. extra \<noteq> [ZADD (delayed_key queue) fire ej]"
    using finish_retries [of cx W sub queue sid env outcome s] by (auto split: option.splits)
  show ?thesis
  proof (cases "retried_as env outcome")
    case None
    then have "\<forall>fire ej. extra \<noteq> [ZADD (delayed_key queue) fire ej]" using x by simp
    then show ?thesis unfolding l None by (auto simp: delayed_write_def split: list.splits redis_cmd.splits)
  qed (use x in \<open>auto simp: l delayed_write_def\<close>)
qed


subsection \<open>What may run\<close>


subsection \<open>Accounting\<close>

lemma finish_gauges: "gauge_delta g (fst (finish cx W sub queue sid env outcome s)) = 0"
  by (auto simp: finish_def Let_def schedule_retry_def final_failure_def split: prod.splits sum.splits outcome.splits)

lemma run_lane_gauges: "gauge_delta g (fst (snd (run_lane cx c a env runs))) = 0"
  using gauge_delta_lane(1) [of g env "lr_sync runs"] gauge_delta_lane(2) [of g env "lr_async runs"]
    gauge_delta_lane(3) [of g "cx_json cx" env "lr_cpu runs"]
  by (auto simp: run_lane_def Let_def split: prod.splits)

lemma execute_gauges: "gauge_delta g (fst (execute cx W sub queue sid env c a runs s)) = 0"
  using run_lane_gauges [of g cx c a env runs] finish_gauges [of g cx W sub queue sid env "fst (run_lane cx c a env runs)" s]
  by (auto simp: execute_def Let_def split: prod.splits)

lemma process_gauges: "gauge_delta g (fst (process cx W sub queue sid raw runs s)) = 0"
proof -
  have dead: "gauge_delta g (fst (dlq_terminal cx W sub queue sid body reason err s)) = 0" for body reason err
    by (auto simp: dlq_terminal_def Let_def split: prod.splits sum.splits option.splits)
  have claim: "gauge_delta g (fst (claim_and_run cx W sub queue sid env c a runs s)) = 0" for env c a s
    by (auto simp: claim_and_run_def Let_def execute_gauges
        split: prod.splits sum.splits option.splits idemp_claim_outcome.splits)
  have run: "gauge_delta g (fst (run_env cx W sub queue sid r env c a runs s)) = 0" for r env c a
    using claim by (auto simp: run_env_def Let_def split: prod.splits sum.splits option.splits)
  show ?thesis
    using dead run by (auto simp: process_def Let_def case_prod_unfold split: option.splits verdict.splits)
qed

lemma apply_one_gauge:
  "c_inflight_total (apply_op x c) = c_inflight_total c + gauge_delta InflightTotal [x]"
  "c_inflight_io (apply_op x c) = c_inflight_io c + gauge_delta InflightIo [x]"
  "c_inflight_cpu (apply_op x c) = c_inflight_cpu c + gauge_delta InflightCpu [x]"
proof -
  have "c_inflight_total (apply_count n c) = c_inflight_total c \<and> c_inflight_io (apply_count n c) = c_inflight_io c
    \<and> c_inflight_cpu (apply_count n c) = c_inflight_cpu c" for n by (cases n) simp_all
  moreover have "c_inflight_total (apply_op (Latency l ms) c) = c_inflight_total c
    \<and> c_inflight_io (apply_op (Latency l ms) c) = c_inflight_io c
    \<and> c_inflight_cpu (apply_op (Latency l ms) c) = c_inflight_cpu c" for l ms by (cases l) simp_all
  moreover have "c_inflight_total (apply_gauge g d c) = c_inflight_total c + (if g = InflightTotal then d else 0)
    \<and> c_inflight_io (apply_gauge g d c) = c_inflight_io c + (if g = InflightIo then d else 0)
    \<and> c_inflight_cpu (apply_gauge g d c) = c_inflight_cpu c + (if g = InflightCpu then d else 0)" for g d
    by (cases g) simp_all
  ultimately show "c_inflight_total (apply_op x c) = c_inflight_total c + gauge_delta InflightTotal [x]"
    "c_inflight_io (apply_op x c) = c_inflight_io c + gauge_delta InflightIo [x]"
    "c_inflight_cpu (apply_op x c) = c_inflight_cpu c + gauge_delta InflightCpu [x]"
    by (cases x; simp)+
qed

lemma apply_op_gauge:
  "c_inflight_total (fold apply_op ops c) = c_inflight_total c + gauge_delta InflightTotal ops
   \<and> c_inflight_io (fold apply_op ops c) = c_inflight_io c + gauge_delta InflightIo ops
   \<and> c_inflight_cpu (fold apply_op ops c) = c_inflight_cpu c + gauge_delta InflightCpu ops"
proof (induction ops arbitrary: c)
  case (Cons x ops)
  from Cons [of "apply_op x c"] show ?case by (simp add: apply_one_gauge)
qed simp

lemma gauge_delta_mset: "mset xs = mset ys \<Longrightarrow> gauge_delta g xs = gauge_delta g ys"
  unfolding gauge_delta_def by (simp only: sum_mset_sum_list [symmetric] mset_map)

lemma spawn_gauges: "gauge_delta g (fst (spawn_dispatch cx W sub queue sid raw runs st)) = 0"
  using process_gauges [of g cx W sub queue sid raw runs "snd st"]
  by (auto simp: spawn_dispatch_def Let_def split: prod.splits)

text \<open>
  C16. No dispatched entry leaks, panicking ones included: whatever entries were dispatched and
  however their counter updates interleave, once all are done the in-flight gauges are back at
  their starting values, so a drain that waits for zero ends; and a dispatched entry is no longer
  held afterwards.
\<close>

theorem dispatch_leaks_nothing:
  assumes "mset ops = mset (concat (map (\<lambda>(queue, sid, raw, runs, st).
             fst (spawn_dispatch cx W sub queue sid raw runs st)) jobs))"
  shows "c_inflight_total (fold apply_op ops c) = c_inflight_total c
    \<and> c_inflight_io (fold apply_op ops c) = c_inflight_io c
    \<and> c_inflight_cpu (fold apply_op ops c) = c_inflight_cpu c
    \<and> \<not> holds_entry queue sid (fst (snd (snd (spawn_dispatch cx W sub queue sid raw runs st))))"
proof -
  have "gauge_delta g (concat (map (\<lambda>(queue, sid, raw, runs, st).
             fst (spawn_dispatch cx W sub queue sid raw runs st)) jobs)) = 0" for g
    by (induction jobs) (auto simp: spawn_gauges)
  then have "gauge_delta g ops = 0" for g using gauge_delta_mset [OF assms] by simp
  moreover have "\<not> holds_entry queue sid (drop_entry g held1)" if "track queue sid held = (g, held1)" for g held held1
    using that by (auto simp: track_def drop_entry_def holds_entry_def split: option.splits)
  ultimately show ?thesis using apply_op_gauge [of ops c]
    by (auto simp: spawn_dispatch_def Let_def split: prod.splits)
qed

subsection \<open>A concrete worker\<close>

definition demo_raw :: string where
  "demo_raw = envelope_to_string (demo_json demo_env) demo_env"

definition demo_ctx :: ctx where
  "demo_ctx = \<lparr>cx_json = demo_json demo_env, cx_sha256 = demo_sha, cx_args = args_default\<lparr>a_max_envelope_bytes := length demo_raw\<rparr>,
     cx_registry = (\<lambda>t. if t = ''app.add'' then Some \<lparr>ts_kind = ''io'', ts_is_async = False, ts_timeout_ms = 1000\<rparr> else None),
     cx_io_concurrency = 4, cx_result_ttl = 60, cx_idemp_ttl = 60, cx_queue_ttl_ms = (\<lambda>_. None), cx_queues = [''q''],
     cx_consumer = ''host:1'', cx_random_range = (\<lambda>lo hi. hi)\<rparr>"

definition demo_runs :: lane_runs where
  "demo_runs = \<lparr>lr_sync = \<lparr>sr_accepted = True, sr_started = Got (), sr_resp = Got (Success ''3''), sr_elapsed_ms = 4\<rparr>,
     lr_async = \<lparr>ar_resp = Elapsed, ar_elapsed_ms = 9\<rparr>,
     lr_cpu = \<lparr>cr_seq = 1, cr_admission = Admitted, cr_send = Sent, cr_resp = Got Lost, cr_elapsed_ms = 1\<rparr>\<rparr>"

definition demo_sub :: "mem submitter" where
  "demo_sub = submit mem_world (AckBufs_start (\<lambda>_ _. ([], [])) [''q''] 8)"

lemma demo_judged: "judge_envelope (envelope_from_str (demo_json demo_env) demo_raw) = Runs demo_env"
proof -
  have "parses_as_tree ''[1,2]'' = Some True"
    by (simp add: parses_as_tree_def count_opens_eq is_open_def MAX_ARG_NESTING_def)
  then have "args_kwargs_shape_ok demo_env = Some True"
    by (simp add: args_kwargs_shape_ok_def shape_fits_def demo_env_def)
  moreover have "valid_task_id (e_id demo_env)"
    by (simp add: valid_task_id_def demo_env_def is_digit_def)
  moreover have "e_v demo_env = 1" "e_timeout_ms demo_env \<noteq> 0" "e_id demo_env \<noteq> []" "e_task demo_env \<noteq> []"
    by (simp_all add: demo_env_def)
  ultimately show ?thesis
    by (simp add: demo_raw_def demo_env_reads judge_envelope_def PROTOCOL_VERSION_def)
qed

lemma demo_effects:
  "fst (snd (process demo_ctx mem_world sub ''q'' ''5-0'' (Some demo_raw) demo_runs (empty_mem 7)))
     = [SubmitSync ''app.add'' ''[1,2]'' ''{}'' (Some 1000)]"
proof -
  have d: "e_task demo_env = ''app.add''" "e_expires_at demo_env = Some 900" "e_enqueued_at demo_env = 5"
    "e_idempotency_key demo_env = Some ''k''" "args_raw demo_env = ''[1,2]''" "kwargs_raw demo_env = ''{}''"
    "e_soft_timeout_ms demo_env = Some 1000" by (simp_all add: demo_env_def args_raw_def kwargs_raw_def)
  have claim: "\<exists>s'. idemp_claim mem_world demo_sha ''k'' i ttl tmo (empty_mem 7) = (Inr Fresh, s')" for i ttl tmo
    by (simp add: idemp_claim_def mem_world_def IDEMP_CLAIM_LUA_def empty_mem_def Let_def)
  then obtain s' where cl: "idemp_claim mem_world demo_sha ''k'' (e_id demo_env) 60 (e_timeout_ms demo_env) (empty_mem 7) = (Inr Fresh, s')"
    by blast
  have now: "w_now mem_world (empty_mem 7) = (7, empty_mem 7)" by (simp add: mem_world_def empty_mem_def)
  show ?thesis
    by (simp add: process_def demo_ctx_def demo_judged d run_env_def expiry_deadline_ms_def queue_ttl_ms_def now
        claim_and_run_def cl execute_def run_lane_def run_sync_task_def demo_runs_def Let_def split: prod.splits)
qed



theorem dispatch_leaks_nothing_witness:
  "c_inflight_total (fold apply_op (fst (spawn_dispatch demo_ctx mem_world demo_sub ''q'' ''5-0'' (Some demo_raw) demo_runs
       ([''q'' \<mapsto> {}], empty_mem 7))) counters_default) = 0"
  using dispatch_leaks_nothing [of "fst (spawn_dispatch demo_ctx mem_world demo_sub ''q'' ''5-0'' (Some demo_raw) demo_runs
       ([''q'' \<mapsto> {}], empty_mem 7))" demo_ctx mem_world demo_sub
      "[(''q'', ''5-0'', Some demo_raw, demo_runs, ([''q'' \<mapsto> {}], empty_mem 7))]" counters_default]
  by (simp add: counters_default_def)

end
