(* ===== verification/Delivery.thy ===== *)
theory Delivery
  imports Dispatch
begin

section \<open>From a delivered entry to its acknowledgement\<close>

text \<open>
  The composition of dispatch with the completion buffers: processing an entry (\<open>process\<close>, dispatch.rs) through
  \<open>AckBufs\<close> (broker.rs) against a server whose pipelines, with their replies, are observed in order.
\<close>

type_synonym pipe_event = "redis_cmd list \<times> (redis_error, reply list) result"

definition watched :: "'s world \<Rightarrow> ('s \<times> pipe_event list) world" where
  "watched W =
     (rec_world W)\<lparr>w_pipe := (\<lambda>cs (s, l). let (r, s') = w_pipe W cs s in (r, (s', l @ [(cs, r)])))\<rparr>"

lemma watched_sel [simp]:
  "w_now (watched W) = w_now (rec_world W)" "w_eval (watched W) = w_eval (rec_world W)"
  "w_call (watched W) = w_call (rec_world W)"
  "w_pipe (watched W) cs (s, l) = (let (r, s') = w_pipe W cs s in (r, (s', l @ [(cs, r)])))"
  by (simp_all add: watched_def)

lemma watched_claim: "idemp_claim (watched W) = idemp_claim (rec_world W)"
  by (intro ext) (simp add: idemp_claim_def)

text \<open>Reading the clock and claiming a key add nothing to either record.\<close>

lemma watched_quiet:
  "w_now (rec_world (watched W)) st = (now, st') \<Longrightarrow> snd st' = snd st \<and> snd (fst st') = snd (fst st)"
  "idemp_claim (rec_world (watched W)) sha key tid ttl tmo st = (r, st') \<Longrightarrow> snd st' = snd st \<and> snd (fst st') = snd (fst st)"
proof -
  show "snd st' = snd st \<and> snd (fst st') = snd (fst st)" if "w_now (rec_world (watched W)) st = (now, st')"
    using that rec_now_log [of W "fst st"] by (cases st) (auto simp: rec_world_def Let_def split: prod.splits)
next
  assume a: "idemp_claim (rec_world (watched W)) sha key tid ttl tmo st = (r, st')"
  have "snd (fst (snd (w_eval (rec_world (watched W)) f st))) = snd (fst st)" for f
    by (cases st) (auto simp: rec_world_def Let_def watched_def split: prod.splits)
  then have "snd (fst st') = snd (fst st)"
    using a unfolding idemp_claim_def Let_def
    by (auto split: prod.splits sum.splits redis_value.splits) (metis snd_conv)+
  then show "snd st' = snd st \<and> snd (fst st') = snd (fst st)" using rec_claim_eq [OF a] by simp
qed

interpretation observed: completer "rec_world (watched W)" "rec_sub sub" "\<lambda>s s'. snd s' = snd s \<and> snd (fst s') = snd (fst s)" for W sub
  by unfold_locales (auto dest: watched_quiet)

subsection \<open>What a flush sends\<close>

lemma flush_tail_watched:
  "\<exists>r. snd (snd (flush_tail (watched W) queue batch own (s, l))) =
     l @ (if landed batch own = [] then [] else [(ack_pipeline queue (landed batch own), r)])"
  by (auto simp: flush_tail_def Let_def split: prod.splits)

lemma flush_watched:
  assumes "redis_conn W env" "flush_batch (watched W) queue batch (s, l) = (outs, st')"
  obtains (bare) r where "concat (map ar_extra batch) = []"
      "snd st' = l @ (if batch = [] then [] else [(ack_pipeline queue (map ar_stream_id batch), r)])"
    | (refused) e where "snd st' = l @ [(concat (map ar_extra batch), Inl e)]"
    | (written) replies ids r where "length replies = length (concat (map ar_extra batch))"
      "ids = landed batch (map outcome_of (split_replies batch replies))"
      "snd st' = l @ (concat (map ar_extra batch), Inr replies) # (if ids = [] then [] else [(ack_pipeline queue ids, r)])"
proof -
  let ?ws = "concat (map ar_extra batch)"
  obtain r s1 where p: "w_pipe W ?ws s = (r, s1)" by fastforce
  show thesis
  proof (cases "?ws = []")
    case True
    obtain r' where "snd (snd (flush_tail (watched W) queue batch (replicate (length batch) (Inr ())) (s, l)))
        = l @ (if batch = [] then [] else [(ack_pipeline queue (map ar_stream_id batch), r')])"
      using flush_tail_watched [of W queue batch "replicate (length batch) (Inr ())" s l]
      unfolding landed_replicate map_is_Nil_conv by blast
    then show thesis using bare [OF True] assms(2) True by (simp add: flush_batch_unfold)
  next
    case False
    show thesis
    proof (cases r)
      case (Inl e)
      have "w_pipe (watched W) ?ws (s, l) = (Inl e, (s1, l @ [(?ws, Inl e)]))" using p Inl by simp
      then have "st' = (s1, l @ [(?ws, Inl e)])"
        using assms(2) False by (simp only: flush_batch_unfold Let_def if_False prod.case sum.case) simp
      then show thesis using refused by simp
    next
      case (Inr replies)
      have len: "length replies = length ?ws" using redis_conn.pipe_len [OF assms(1)] p Inr by blast
      have "w_pipe (watched W) ?ws (s, l) = (Inr replies, (s1, l @ [(?ws, Inr replies)]))" using p Inr by simp
      from flush_batch_replies [OF this len False, of queue] assms(2)
      have "st' = snd (flush_tail (watched W) queue batch (map outcome_of (split_replies batch replies)) (s1, l @ [(?ws, Inr replies)]))"
        by (metis snd_conv)
      then show thesis
        using written [OF len refl] flush_tail_watched [of W queue batch "map outcome_of (split_replies batch replies)" s1 "l @ [(?ws, Inr replies)]"]
        by auto
    qed
  qed
qed

lemma split_replies_nth:
  "split_replies (ahead @ r # behind) rs ! length ahead
     = take (length (ar_extra r)) (drop (length (concat (map ar_extra ahead))) rs)"
  by (induction ahead arbitrary: rs) (auto simp: add.commute)

subsection \<open>Order of writes and acknowledgements\<close>

text \<open>A command that takes an entry out of the group or the stream, and a pipeline in which every command
  of a completion was accepted.\<close>

definition acks :: "string \<Rightarrow> redis_cmd \<Rightarrow> bool" where
  "acks sid c = (case c of XACK _ _ ids \<Rightarrow> sid \<in> set ids | XDEL _ ids \<Rightarrow> sid \<in> set ids | _ \<Rightarrow> False)"

definition accepted_in :: "redis_cmd list \<Rightarrow> pipe_event \<Rightarrow> bool" where
  "accepted_in extra ev \<longleftrightarrow>
     (\<exists>a b rs. fst ev = a @ extra @ b \<and> snd ev = Inr rs \<and> length rs = length (fst ev)
        \<and> list_all (\<lambda>r. \<not> isl r) (take (length extra) (drop (length a) rs)))"

lemma completion_no_ack: "completion_of queue extra \<Longrightarrow> \<not> list_ex (acks sid) extra"
  by (auto simp: completion_of_def acks_def)

lemma completions_no_ack:
  "\<forall>r\<in>set batch. completion_of queue (ar_extra r) \<Longrightarrow> \<not> list_ex (acks sid) (concat (map ar_extra batch))"
  using completion_no_ack by (induction batch) auto

lemma ack_pipeline_acks: "list_ex (acks sid) (ack_pipeline queue ids) \<longleftrightarrow> sid \<in> set ids"
  by (simp add: ack_pipeline_def acks_def)

text \<open>An entry that landed had its own writes accepted.\<close>

lemma landed_accepted:
  assumes "sid \<in> set (landed (ahead @ req # behind) (map outcome_of (split_replies (ahead @ req # behind) replies)))"
    and "ar_stream_id req = sid" "\<forall>r\<in>set ahead \<union> set behind. ar_stream_id r \<noteq> sid"
    and "length replies = length (concat (map ar_extra (ahead @ req # behind)))"
  shows "accepted_in (ar_extra req) (concat (map ar_extra (ahead @ req # behind)), Inr replies)"
proof -
  let ?b = "ahead @ req # behind"
  obtain n where n: "n < length ?b" "ar_stream_id (?b ! n) = sid" "\<forall>r\<in>set (split_replies ?b replies ! n). \<not> isl r"
    using assms(1) unfolding landed_outcomes by (auto simp: in_set_zip)
  have "n = length ahead"
  proof (rule ccontr)
    assume "n \<noteq> length ahead"
    then have "?b ! n \<in> set ahead \<union> set behind" using n(1) by (auto simp: nth_append nth_Cons split: nat.splits)
    then show False using n(2) assms(3) by blast
  qed
  then have "list_all (\<lambda>r. \<not> isl r) (take (length (ar_extra req)) (drop (length (concat (map ar_extra ahead))) replies))"
    using n(3) by (simp only: split_replies_nth list_all_iff)
  then show ?thesis using assms(4)
    unfolding accepted_in_def by (intro exI [of _ "concat (map ar_extra ahead)"] exI [of _ "concat (map ar_extra behind)"]) auto
qed

definition after_outcome :: "string \<Rightarrow> redis_cmd list \<Rightarrow> pipe_event list \<Rightarrow> bool" where
  "after_outcome sid extra l \<longleftrightarrow>
     (\<forall>i<length l. list_ex (acks sid) (fst (l ! i)) \<longrightarrow> extra = [] \<or> (\<exists>j<i. accepted_in extra (l ! j)))"

lemma submit_ordered:
  assumes "redis_conn W env" "completion_of queue extra"
    and peers: "\<forall>s. \<forall>r\<in>set (fst (ab_peers bufs queue s)) \<union> set (snd (ab_peers bufs queue s)).
      ar_stream_id r \<noteq> sid \<and> completion_of queue (ar_extra r)"
  shows "after_outcome sid extra (snd (snd (submit (watched W) bufs queue sid extra (s, []))))"
proof (cases "queue \<in> set (ab_queues bufs)")
  case False
  then show ?thesis by (simp add: submit_def after_outcome_def)
next
  case True
  obtain ahead behind where pb: "ab_peers bufs queue (s, []) = (ahead, behind)" by fastforce
  define req where "req = \<lparr>ar_stream_id = sid, ar_extra = extra\<rparr>"
  let ?b = "ahead @ req # behind"
  obtain outs st' where f: "flush_batch (watched W) queue ?b (s, []) = (outs, st')" by (meson surj_pair)
  have l: "snd (snd (submit (watched W) bufs queue sid extra (s, []))) = snd st'"
    using True pb f by (simp add: submit_def req_def)
  have pr: "\<forall>r\<in>set ahead \<union> set behind. ar_stream_id r \<noteq> sid \<and> completion_of queue (ar_extra r)"
    using peers [rule_format, of _ "(s, [])"] pb by auto
  then have no: "\<not> list_ex (acks sid) (concat (map ar_extra ?b))"
    using assms(2) by (intro completions_no_ack) (auto simp: req_def)
  have "after_outcome sid extra (snd st')"
    using assms(1) f
  proof (cases rule: flush_watched)
    case (bare r)
    then have "extra = []" by (simp add: req_def)
    then show ?thesis by (simp add: after_outcome_def)
  next
    case (refused e)
    then show ?thesis using no by (simp add: after_outcome_def)
  next
    case (written replies ids r)
    have "accepted_in extra (concat (map ar_extra ?b), Inr replies)" if "sid \<in> set ids"
      using landed_accepted [of sid ahead req behind replies] that written(1,2) pr by (simp add: req_def)
    then show ?thesis
      using written(3) no by (auto simp: after_outcome_def ack_pipeline_acks nth_Cons split: nat.splits if_splits)
  qed
  then show ?thesis unfolding l .
qed

text \<open>
  C3. Nothing is taken from a queue before its outcome is in place: processing a delivered entry through
  the completion buffer, whatever its bytes, its executor, the server and the completions flushed with
  it do, hands over exactly one completion for it, and every command that acknowledges or deletes the
  entry comes after a pipeline in which each write of that completion (result, retry or dead letter) was
  accepted. An entry whose processing panics is not acknowledged at all.
\<close>

theorem outcome_before_acknowledgement:
  assumes "redis_conn W env"
    and "\<forall>s. \<forall>r\<in>set (fst (ab_peers bufs queue s)) \<union> set (snd (ab_peers bufs queue s)).
      ar_stream_id r \<noteq> sid \<and> completion_of queue (ar_extra r)"
    and "process cx (rec_world (watched W)) (rec_sub (submit (watched W) bufs)) queue sid raw runs ((s, []), [])
      = (ops, eff, ((s', l), subs))"
  shows "subs = [] \<and> l = [] \<or> (\<exists>extra. subs = [(queue, sid, extra)] \<and> completion_of queue extra \<and> after_outcome sid extra l)"
proof -
  have "completes_one (\<lambda>s s'. snd s' = snd s \<and> snd (fst s') = snd (fst s)) (rec_sub (submit (watched W) bufs)) queue sid
      ((s, []), []) ((s', l), subs) \<or> subs = [] \<and> l = []"
    using observed.process_completes [OF assms(3)] by (auto split: if_splits)
  then show ?thesis
  proof
    assume "completes_one (\<lambda>s s'. snd s' = snd s \<and> snd (fst s') = snd (fst s)) (rec_sub (submit (watched W) bufs)) queue sid
      ((s, []), []) ((s', l), subs)"
    then obtain extra s1 where c: "completion_of queue extra"
      and after: "subs = snd (snd (rec_sub (submit (watched W) bufs) queue sid extra ((s1, []), [])))"
        "l = snd (fst (snd (rec_sub (submit (watched W) bufs) queue sid extra ((s1, []), []))))"
      by (auto simp: completes_one_def)
    then have "subs = [(queue, sid, extra)]" "l = snd (snd (submit (watched W) bufs queue sid extra (s1, [])))"
      by (simp_all add: rec_sub_eq Let_def split: prod.splits)
    then show ?thesis using submit_ordered [OF assms(1) c assms(2)] c by blast
  qed blast
qed

definition demo_bufs :: "(mem \<times> pipe_event list) ack_bufs" where
  "demo_bufs = AckBufs_start (\<lambda>_ _. ([], [])) [''q''] 8"

theorem outcome_before_acknowledgement_witness:
  "\<exists>ops eff s' l extra.
     process demo_ctx (rec_world (watched mem_world)) (rec_sub (submit (watched mem_world) demo_bufs)) ''q'' ''5-0''
       (Some demo_raw) demo_runs ((empty_mem 7, []), []) = (ops, eff, ((s', l), [(''q'', ''5-0'', extra)]))
     \<and> completion_of ''q'' extra \<and> after_outcome ''5-0'' extra l"
proof -
  obtain ops eff s' l subs where run:
    "process demo_ctx (rec_world (watched mem_world)) (rec_sub (submit (watched mem_world) demo_bufs)) ''q'' ''5-0''
       (Some demo_raw) demo_runs ((empty_mem 7, []), []) = (ops, eff, ((s', l), subs))"
    by (metis prod.exhaust)
  have "subs \<noteq> []"
    using recorded.process_completes [OF run] demo_judged
    by (simp add: demo_ctx_def completes_one_def rec_sub_log split: if_splits) blast
  moreover have "\<forall>s. \<forall>r\<in>set (fst (ab_peers demo_bufs ''q'' s)) \<union> set (snd (ab_peers demo_bufs ''q'' s)).
      ar_stream_id r \<noteq> ''5-0'' \<and> completion_of ''q'' (ar_extra r)"
    by (simp add: demo_bufs_def AckBufs_start_def)
  ultimately obtain extra where "subs = [(''q'', ''5-0'', extra)]" "completion_of ''q'' extra" "after_outcome ''5-0'' extra l"
    using outcome_before_acknowledgement [OF mem_conn.redis_conn_axioms _ run] by blast
  then show ?thesis using run by blast
qed

end
