(* ===== verification/Supervisor.thy ===== *)
theory Supervisor
  imports Cli
begin

section \<open>The process supervisor (supervisor.rs)\<close>

text \<open>
  With more than one process the binary re-executes itself once per slot with every setting
  explicit, then only spawns, restarts and forwards signals. The loop is a step function on \<open>sup\<close>;
  what the operating system does in a tick (exit statuses, spawn results, the time) is data. Times
  are milliseconds of the monotonic clock.
\<close>

subsection \<open>The child command line\<close>

definition child_options :: "args \<Rightarrow> resolved \<Rightarrow> string \<Rightarrow> (string \<times> string) list" where
  "child_options a r app =
     [(''--app'', app), (''--procs'', ''1''),
      (''--io-threads'', show_nat (r_io_threads r)), (''--io-concurrency'', show_nat (r_io_concurrency r)),
      (''--cpu-workers'', show_nat (r_cpu_workers r)), (''--io-loops'', show_nat (a_io_loops a)),
      (''--cpu-child-threads'', show_nat (a_cpu_child_threads a)), (''--cpu-prefetch'', show_nat (a_cpu_prefetch a)),
      (''--cpu-max-tasks-per-child'', show_nat (a_cpu_max_tasks_per_child a)), (''--batch'', show_nat (a_batch a)),
      (''--visibility-timeout'', show_u64 (a_visibility_timeout a)),
      (''--max-envelope-bytes'', show_nat (a_max_envelope_bytes a)),
      (''--drain-timeout'', show_u64 (a_drain_timeout a)), (''--stats-interval'', show_u64 (a_stats_interval a)),
      (''--log-level'', a_log_level a), (''--redis-timeout'', show_u64 (a_redis_timeout a)),
      (''--mover-interval'', show_u64 (a_mover_interval a)), (''--mover-limit'', show_nat (a_mover_limit a)),
      (''--ack-batch'', show_nat (a_ack_batch a)), (''--ack-flush-ms'', show_u64 (a_ack_flush_ms a))]"

definition child_extra_options :: "args \<Rightarrow> (string \<times> string) list" where
  "child_extra_options a =
     (case a_python a of None \<Rightarrow> [] | Some py \<Rightarrow> [(''--python'', py)])
     @ (if a_queues a = [] then [] else [(''--queues'', join '','' (a_queues a))])"

definition child_switches :: "args \<Rightarrow> string list" where
  "child_switches a =
     (if a_no_fork_server a then [''--no-fork-server''] else []) @ (if a_eager_cpu a then [''--eager-cpu''] else [])"

text \<open>\<open>None\<close> is the panic of \<open>app_spec\<close>.\<close>

definition child_argv :: "args \<Rightarrow> resolved \<Rightarrow> string list option" where
  "child_argv a r =
     (case app_spec a of
        None \<Rightarrow> None
      | Some app \<Rightarrow>
          Some (concat (map (\<lambda>(k, x). [k, x]) (child_options a r app @ child_extra_options a)) @ child_switches a))"

text \<open>How the argument parser reads such a line: an option takes the next word, the two switches take
  none, an option that does not occur is absent.\<close>

fun flag_value :: "string \<Rightarrow> string list \<Rightarrow> string option" where
  "flag_value f (x # y # xs) =
     (if x = f then Some y
      else if x = ''--no-fork-server'' \<or> x = ''--eager-cpu'' then flag_value f (y # xs)
      else flag_value f xs)"
| "flag_value f _ = None"

fun has_switch :: "string \<Rightarrow> string list \<Rightarrow> bool" where
  "has_switch f (x # y # xs) =
     (if x = ''--no-fork-server'' \<or> x = ''--eager-cpu'' then x = f \<or> has_switch f (y # xs) else has_switch f xs)"
| "has_switch f [x] = (x = f)"
| "has_switch f [] = False"

definition number_flag :: "string \<Rightarrow> string list \<Rightarrow> nat option" where
  "number_flag f v = (case flag_value f v of None \<Rightarrow> None | Some t \<Rightarrow> parse_digits 0 t)"

definition number_or :: "string \<Rightarrow> nat \<Rightarrow> string list \<Rightarrow> nat" where
  "number_or f d v = (case number_flag f v of None \<Rightarrow> d | Some n \<Rightarrow> n)"

definition parse_line :: "string list \<Rightarrow> args" where
  "parse_line v =
     \<lparr>a_app = flag_value ''--app'' v,
      a_queues = (case flag_value ''--queues'' v of None \<Rightarrow> [] | Some t \<Rightarrow> split_on CHR '','' t),
      a_redis_url = flag_value ''--redis-url'' v, a_concurrency = number_flag ''--concurrency'' v,
      a_procs = number_flag ''--procs'' v, a_print_plan = False,
      a_visibility_timeout = of_nat (number_or ''--visibility-timeout'' 60 v),
      a_drain_timeout = of_nat (number_or ''--drain-timeout'' 30 v),
      a_stats_interval = of_nat (number_or ''--stats-interval'' 10 v),
      a_log_level = (case flag_value ''--log-level'' v of None \<Rightarrow> ''info'' | Some t \<Rightarrow> t),
      a_io_loops = number_or ''--io-loops'' 1 v, a_io_threads = number_flag ''--io-threads'' v,
      a_io_concurrency = number_flag ''--io-concurrency'' v, a_cpu_workers = number_flag ''--cpu-workers'' v,
      a_cpu_child_threads = number_or ''--cpu-child-threads'' 1 v, a_cpu_prefetch = number_or ''--cpu-prefetch'' 4 v,
      a_cpu_max_tasks_per_child = number_or ''--cpu-max-tasks-per-child'' 10000 v,
      a_eager_cpu = has_switch ''--eager-cpu'' v, a_no_fork_server = has_switch ''--no-fork-server'' v,
      a_batch = number_or ''--batch'' 64 v, a_max_envelope_bytes = number_or ''--max-envelope-bytes'' 1048576 v,
      a_python = flag_value ''--python'' v, a_redis_timeout = of_nat (number_or ''--redis-timeout'' 5 v),
      a_mover_interval = of_nat (number_or ''--mover-interval'' 50 v), a_mover_limit = number_or ''--mover-limit'' 128 v,
      a_ack_batch = number_or ''--ack-batch'' 64 v, a_ack_flush_ms = of_nat (number_or ''--ack-flush-ms'' 2 v)\<rparr>"

subsection \<open>Slots\<close>

definition RESTART_DELAY :: nat where
  "RESTART_DELAY = 1000"

record slot =
  sl_child :: "nat option"
  sl_spawned :: nat
  sl_respawn_at :: nat

record sup =
  su_slots :: "slot list"
  su_shutting_down :: bool
  su_exit_code :: int

datatype wait_result = Exited bool | Running | WaitFailed

datatype sup_event = Spawned nat nat nat | SpawnFailed nat nat | Signalled nat

text \<open>\<open>fan_out\<close>: \<open>SIGTERM\<close> to every live child.\<close>

definition fan_out :: "slot list \<Rightarrow> sup_event list" where
  "fan_out slots = map Signalled (List.map_filter sl_child slots)"

text \<open>Startup: slots are filled in order; when a spawn fails those already running are signalled,
  waited for, and the exit code is 1. \<open>spawns\<close> are the results of the successive spawn calls.\<close>

fun start_slots :: "nat \<Rightarrow> nat option list \<Rightarrow> slot list \<Rightarrow> (slot list \<times> sup_event list, slot list) result" where
  "start_slots now [] slots = Inr slots"
| "start_slots now (None # rest) slots = Inl (slots, fan_out slots)"
| "start_slots now (Some pid # rest) slots =
     start_slots now rest (slots @ [\<lparr>sl_child = Some pid, sl_spawned = now, sl_respawn_at = now\<rparr>])"

text \<open>One slot in one tick: \<open>w\<close> is \<open>try_wait\<close> on its child, \<open>sp\<close> the result of a spawn if one is made.\<close>

definition tick_slot :: "nat \<Rightarrow> bool \<Rightarrow> nat \<Rightarrow> wait_result \<Rightarrow> nat option \<Rightarrow> slot \<Rightarrow> slot \<times> sup_event list \<times> bool" where
  "tick_slot now shutting_down i w sp s =
     (case sl_child s of
        Some pid \<Rightarrow>
          (case w of
             Exited success \<Rightarrow>
               if shutting_down then (s\<lparr>sl_child := None\<rparr>, [], \<not> success)
               else (s\<lparr>sl_child := None, sl_respawn_at := max now (sl_spawned s + RESTART_DELAY)\<rparr>, [], False)
           | Running \<Rightarrow> (s, [], False)
           | WaitFailed \<Rightarrow> (s, [], False))
      | None \<Rightarrow>
          if \<not> shutting_down \<and> sl_respawn_at s \<le> now
          then (case sp of
                  Some pid \<Rightarrow> (s\<lparr>sl_child := Some pid, sl_spawned := now\<rparr>, [Spawned i pid now], False)
                | None \<Rightarrow> (s\<lparr>sl_respawn_at := now + RESTART_DELAY\<rparr>, [SpawnFailed i now], False))
          else (s, [], False))"

fun tick_slots :: "nat \<Rightarrow> bool \<Rightarrow> nat \<Rightarrow> (wait_result \<times> nat option) list \<Rightarrow> slot list
    \<Rightarrow> slot list \<times> sup_event list \<times> bool" where
  "tick_slots now sd i [] slots = (slots, [], False)"
| "tick_slots now sd i (_ # os) [] = ([], [], False)"
| "tick_slots now sd i ((w, sp) # os) (s # slots) =
     (let (s', ev, bad) = tick_slot now sd i w sp s;
          (slots', evs, bads) = tick_slots now sd (Suc i) os slots
      in (s' # slots', ev @ evs, bad \<or> bads))"

datatype sup_input = SignalIn | Tick nat "(wait_result \<times> nat option) list"

text \<open>One turn of the \<open>select!\<close> loop: the new state and events, and whether the loop ends.\<close>

definition sup_step :: "sup_input \<Rightarrow> sup \<Rightarrow> sup \<times> sup_event list \<times> bool" where
  "sup_step inp st =
     (case inp of
        SignalIn \<Rightarrow> (st\<lparr>su_shutting_down := True\<rparr>, fan_out (su_slots st), False)
      | Tick now os \<Rightarrow>
          (let (slots, evs, bad) = tick_slots now (su_shutting_down st) 0 os (su_slots st);
               st' = st\<lparr>su_slots := slots, su_exit_code := (if bad then 1 else su_exit_code st)\<rparr>
           in (st', evs, su_shutting_down st' \<and> (\<forall>s\<in>set slots. sl_child s = None))))"

text \<open>The loop on a sequence of inputs: it stops at the turn that ends it, with the exit code.\<close>

fun supervise :: "sup_input list \<Rightarrow> sup \<Rightarrow> int option \<times> sup \<times> sup_event list" where
  "supervise [] st = (None, st, [])"
| "supervise (x # xs) st =
     (let (st1, ev, stop) = sup_step x st
      in if stop then (Some (su_exit_code st1), st1, ev)
         else let (r, st2, evs) = supervise xs st1 in (r, st2, ev @ evs))"

section \<open>Correctness of supervision\<close>

subsection \<open>The command line\<close>

lemma resolve_positive:
  "1 \<le> r_procs (resolve a cores)" "1 \<le> r_io_threads (resolve a cores)"
  "1 \<le> r_io_concurrency (resolve a cores)" "1 \<le> r_cpu_workers (resolve a cores)"
  unfolding resolve_def Let_def
  by (cases "a_concurrency a"; simp only: resolved.select_convs option.case prod.case max.cobounded2)+

lemma flag_value_pairs:
  assumes "set (map fst ps) \<inter> {''--no-fork-server'', ''--eager-cpu''} = {}"
  shows "flag_value f (concat (map (\<lambda>(k, x). [k, x]) ps) @ rest) =
    (case map_of ps f of Some x \<Rightarrow> Some x | None \<Rightarrow> flag_value f rest)"
  using assms by (induction ps) auto

lemma flag_value_switches: "f \<notin> {''--no-fork-server'', ''--eager-cpu''} \<Longrightarrow> flag_value f (child_switches a) = None"
  by (auto simp: child_switches_def)

lemma has_switch_pairs:
  assumes "set (map fst ps) \<inter> {''--no-fork-server'', ''--eager-cpu''} = {}"
  shows "has_switch f (concat (map (\<lambda>(k, x). [k, x]) ps) @ rest) = has_switch f rest"
  using assms by (induction ps) auto

lemma child_pairs_no_switch:
  "set (map fst (child_options a r app @ child_extra_options a)) \<inter> {''--no-fork-server'', ''--eager-cpu''} = {}"
  by (auto simp: child_options_def child_extra_options_def split: option.splits)

lemma child_flag:
  assumes "child_argv a r = Some v" "f \<notin> {''--no-fork-server'', ''--eager-cpu''}"
  shows "flag_value f v = map_of (child_options a r (the (a_app a)) @ child_extra_options a) f"
proof -
  have "flag_value f (concat (map (\<lambda>(k, x). [k, x]) (child_options a r app @ child_extra_options a)) @ child_switches a)
      = map_of (child_options a r app @ child_extra_options a) f" for app
    unfolding flag_value_pairs [OF child_pairs_no_switch] using flag_value_switches [of f a] assms(2)
    by (auto simp: map_add_def split: option.splits)
  then show ?thesis using assms(1) by (auto simp: child_argv_def app_spec_def split: option.splits)
qed

lemma child_switch:
  assumes "child_argv a r = Some v"
  shows "has_switch ''--no-fork-server'' v = a_no_fork_server a" "has_switch ''--eager-cpu'' v = a_eager_cpu a"
proof -
  obtain app where v: "v = concat (map (\<lambda>(k, x). [k, x]) (child_options a r app @ child_extra_options a)) @ child_switches a"
    using assms by (auto simp: child_argv_def split: option.splits)
  show "has_switch ''--no-fork-server'' v = a_no_fork_server a" "has_switch ''--eager-cpu'' v = a_eager_cpu a"
    unfolding v has_switch_pairs [OF child_pairs_no_switch] by (simp_all add: child_switches_def)
qed


lemma resolve_explicit:
  assumes "a_concurrency c = None" "a_procs c = Some 1" "a_io_threads c = Some t" "a_io_concurrency c = Some g"
    "a_cpu_workers c = Some w" "1 \<le> t" "1 \<le> g" "1 \<le> w"
  shows "resolve c cores = \<lparr>r_procs = 1, r_io_threads = t, r_io_concurrency = g, r_cpu_workers = w\<rparr>"
proof -
  have "max n 1 = n" if "1 \<le> n" for n :: nat using that by simp
  note mx = this [OF assms(6)] this [OF assms(7)] this [OF assms(8)]
  show ?thesis unfolding resolve_def Let_def unwrap_or_def assms(1-5) option.case prod.case mx by simp
qed

text \<open>
  The Redis URL, which may carry a password, stays off every child's command line: no option of it
  is \<open>--redis-url\<close>, and the line does not depend on the URL at all.
\<close>

theorem child_argv_hides_redis_url:
  "child_argv (a\<lparr>a_redis_url := u\<rparr>) r = child_argv a r
   \<and> (case child_argv a r of None \<Rightarrow> True | Some v \<Rightarrow> flag_value ''--redis-url'' v = None)"
proof -
  have "flag_value ''--redis-url'' v = None" if "child_argv a r = Some v" for v
    by (subst child_flag [OF that]) (auto simp: child_options_def child_extra_options_def split: option.splits)
  moreover have "child_argv (a\<lparr>a_redis_url := u\<rparr>) r = child_argv a r"
    by (simp add: child_argv_def app_spec_def child_options_def child_extra_options_def child_switches_def
        cong: option.case_cong if_cong)
  ultimately show ?thesis by (simp split: option.splits)
qed

subsection \<open>Restarts\<close>

fun spawn_times :: "nat \<Rightarrow> sup_event list \<Rightarrow> nat list" where
  "spawn_times i [] = []"
| "spawn_times i (Spawned j pid t # evs) = (if j = i then t # spawn_times i evs else spawn_times i evs)"
| "spawn_times i (_ # evs) = spawn_times i evs"

definition slot_ok :: "bool \<Rightarrow> slot \<Rightarrow> bool" where
  "slot_ok sd s \<longleftrightarrow> sd \<or> sl_child s \<noteq> None \<or> sl_spawned s + RESTART_DELAY \<le> sl_respawn_at s"

lemma spawn_times_append [simp]: "spawn_times i (xs @ ys) = spawn_times i xs @ spawn_times i ys"
  by (induction i xs rule: spawn_times.induct) auto

lemma spawn_times_fan_out [simp]: "spawn_times i (fan_out slots) = []"
proof -
  have "spawn_times i (map Signalled ps) = []" for ps by (induction ps) auto
  then show ?thesis by (simp add: fan_out_def)
qed

lemma tick_slot_other: "j \<noteq> i \<Longrightarrow> tick_slot now sd i w sp s = (s', ev, bad) \<Longrightarrow> spawn_times j ev = []"
  by (auto simp: tick_slot_def split: option.splits wait_result.splits if_splits)

text \<open>What one tick does to one slot: it stays as it was spawned, or it is spawned anew at least
  \<open>RESTART_DELAY\<close> after the last time.\<close>

lemma tick_slot_spawn:
  assumes "tick_slot now sd i w sp s = (s', ev, bad)" "slot_ok sd s"
  shows "slot_ok sd s' \<and> (spawn_times i ev = [] \<and> sl_spawned s' = sl_spawned s
    \<or> spawn_times i ev = [now] \<and> sl_spawned s' = now \<and> sl_spawned s + RESTART_DELAY \<le> now \<and> \<not> sd)"
  using assms by (auto simp: tick_slot_def slot_ok_def split: option.splits wait_result.splits if_splits)

lemma tick_slots_length: "tick_slots now sd i os slots = (slots', evs, bad) \<Longrightarrow> length slots' = length slots"
  by (induction now sd i os slots arbitrary: slots' evs bad rule: tick_slots.induct) (auto split: prod.splits)

lemma tick_slots_before: "tick_slots now sd i os slots = (slots', evs, bad) \<Longrightarrow> j < i \<Longrightarrow> spawn_times j evs = []"
  by (induction now sd i os slots arbitrary: slots' evs bad rule: tick_slots.induct)
     (auto split: prod.splits simp: tick_slot_other [OF less_imp_neq])

lemma tick_slots_spawn:
  assumes "tick_slots now sd i os slots = (slots', evs, bad)" "k < length slots" "slot_ok sd (slots ! k)"
  shows "slot_ok sd (slots' ! k) \<and> (spawn_times (i + k) evs = [] \<and> sl_spawned (slots' ! k) = sl_spawned (slots ! k)
    \<or> spawn_times (i + k) evs = [now] \<and> sl_spawned (slots' ! k) = now
      \<and> sl_spawned (slots ! k) + RESTART_DELAY \<le> now \<and> \<not> sd)"
  using assms
proof (induction now sd i os slots arbitrary: slots' evs bad k rule: tick_slots.induct)
  case (3 now sd i w sp os s slots)
  obtain s1 ev1 b1 where t: "tick_slot now sd i w sp s = (s1, ev1, b1)" by (metis prod_cases3)
  obtain s2 ev2 b2 where r: "tick_slots now sd (Suc i) os slots = (s2, ev2, b2)" by (metis prod_cases3)
  have res: "slots' = s1 # s2" "evs = ev1 @ ev2" using 3(2) t r by auto
  show ?case
  proof (cases k)
    case 0
    then show ?thesis using tick_slot_spawn [OF t] 3(4) tick_slots_before [OF r, of i] res by simp
  next
    case (Suc m)
    then show ?thesis
      using 3(1) [OF t [symmetric] refl refl r, of m] 3(3,4) tick_slot_other [OF _ t, of "i + k"] res by simp
  qed
qed simp_all

definition sup_ok :: "sup \<Rightarrow> bool" where
  "sup_ok st \<longleftrightarrow> (\<forall>s\<in>set (su_slots st). slot_ok (su_shutting_down st) s)"

lemma sup_step_slot:
  assumes "sup_step x st = (st', evs, stop)" "k < length (su_slots st)" "slot_ok (su_shutting_down st) (su_slots st ! k)"
  shows "length (su_slots st') = length (su_slots st)
    \<and> slot_ok (su_shutting_down st') (su_slots st' ! k)
    \<and> (su_shutting_down st \<longrightarrow> su_shutting_down st')
    \<and> (spawn_times k evs = [] \<and> sl_spawned (su_slots st' ! k) = sl_spawned (su_slots st ! k)
       \<or> (\<exists>now. spawn_times k evs = [now] \<and> sl_spawned (su_slots st' ! k) = now
          \<and> sl_spawned (su_slots st ! k) + RESTART_DELAY \<le> now \<and> \<not> su_shutting_down st))"
proof (cases x)
  case SignalIn
  then show ?thesis using assms by (auto simp: sup_step_def slot_ok_def)
next
  case (Tick now os)
  obtain sl ev b where t: "tick_slots now (su_shutting_down st) 0 os (su_slots st) = (sl, ev, b)" by (metis prod_cases3)
  then have "st' = st\<lparr>su_slots := sl, su_exit_code := (if b then 1 else su_exit_code st)\<rparr>" "evs = ev"
    using assms(1) Tick by (auto simp: sup_step_def Let_def)
  then show ?thesis using tick_slots_spawn [OF t assms(2,3)] tick_slots_length [OF t] by auto
qed

lemma supervise_spawns:
  assumes "supervise xs st = (r, st', evs)" "k < length (su_slots st)" "slot_ok (su_shutting_down st) (su_slots st ! k)"
  shows "sorted_wrt (\<lambda>x y. x + RESTART_DELAY \<le> y) (sl_spawned (su_slots st ! k) # spawn_times k evs)
    \<and> (su_shutting_down st \<longrightarrow> spawn_times k evs = [])"
  using assms
proof (induction xs st arbitrary: r st' evs rule: supervise.induct)
  case (2 x xs st)
  obtain st1 ev stop where s: "sup_step x st = (st1, ev, stop)" by (metis prod_cases3)
  note step = sup_step_slot [OF s 2(3,4)]
  show ?case
  proof (cases stop)
    case True
    then show ?thesis using 2(2) s step by auto
  next
    case False
    obtain r2 st2 ev2 where u: "supervise xs st1 = (r2, st2, ev2)" by (metis prod_cases3)
    have evs: "evs = ev @ ev2" using 2(2) s u False by auto
    show ?thesis
      using 2(1) [OF refl s [symmetric] refl False u] step 2(3) unfolding evs RESTART_DELAY_def
      by (fastforce simp: sorted_wrt_append)
  qed
qed simp

lemma start_slots_spawned:
  assumes "start_slots now sps slots = Inr slots'" "\<forall>s\<in>set slots. sl_child s \<noteq> None \<and> sl_spawned s = now"
  shows "\<forall>s\<in>set slots'. sl_child s \<noteq> None \<and> sl_spawned s = now"
  using assms
proof (induction now sps slots rule: start_slots.induct)
  case (3 now pid rest slots)
  then show ?case by (simp add: ball_Un)
qed simp_all

text \<open>
  Crash loops are rate limited: from startup on, whatever the children, the spawn calls and the
  signals do, any two successive starts of the same worker process are at least one second apart.
\<close>

theorem restarts_are_rate_limited:
  assumes "start_slots t0 sps [] = Inr slots" "k < length slots"
    and "supervise xs \<lparr>su_slots = slots, su_shutting_down = sd, su_exit_code = c\<rparr> = (r, st', evs)"
  shows "sorted_wrt (\<lambda>x y. x + 1000 \<le> y) (t0 # spawn_times k evs)"
proof -
  have "sl_child (slots ! k) \<noteq> None" "sl_spawned (slots ! k) = t0"
    using start_slots_spawned [OF assms(1)] assms(2) by auto
  then show ?thesis
    using supervise_spawns [OF assms(3), of k] assms(2) by (simp add: slot_ok_def RESTART_DELAY_def)
qed

theorem restarts_are_rate_limited_witness:
  "sorted_wrt (\<lambda>x y. x + 1000 \<le> y) ((0::nat) # spawn_times 0 [Spawned 0 8 1200])"
proof -
  let ?slots = "[\<lparr>sl_child = Some 7, sl_spawned = 0, sl_respawn_at = 0\<rparr>]"
  let ?in = "[Tick 200 [(Exited False, None)], Tick 400 [(Running, Some 8)], Tick 1200 [(Running, Some 8)]]"
  have 1: "start_slots 0 [Some 7] [] = Inr ?slots" by simp
  have 2: "supervise ?in \<lparr>su_slots = ?slots, su_shutting_down = False, su_exit_code = 0\<rparr>
     = (None, \<lparr>su_slots = [\<lparr>sl_child = Some 8, sl_spawned = 1200, sl_respawn_at = 1000\<rparr>],
          su_shutting_down = False, su_exit_code = 0\<rparr>, [Spawned 0 8 1200])"
    by (simp add: sup_step_def tick_slot_def RESTART_DELAY_def)
  from restarts_are_rate_limited [OF 1 _ 2, of 0] show ?thesis by simp
qed

subsection \<open>Shutdown\<close>

text \<open>The children that the inputs report as exited unsuccessfully while the supervisor shuts down.\<close>

definition failed_exit :: "slot list \<Rightarrow> (wait_result \<times> nat option) list \<Rightarrow> bool" where
  "failed_exit slots os \<longleftrightarrow> (\<exists>(s, w, sp)\<in>set (zip slots os). sl_child s \<noteq> None \<and> w = Exited False)"

lemma tick_slot_shutdown:
  "tick_slot now True i w sp s =
     (case w of Exited ok \<Rightarrow> (s\<lparr>sl_child := None\<rparr>, [], sl_child s \<noteq> None \<and> \<not> ok) | _ \<Rightarrow> (s, [], False))"
  by (cases s) (auto simp: tick_slot_def split: option.splits wait_result.splits)

text \<open>While shutting down, a child leaves its slot exactly when it is reported as exited.\<close>

fun survivors :: "slot list \<Rightarrow> (wait_result \<times> nat option) list \<Rightarrow> slot list" where
  "survivors slots [] = slots"
| "survivors [] (_ # os) = []"
| "survivors (s # slots) ((w, sp) # os) =
     (case w of Exited _ \<Rightarrow> s\<lparr>sl_child := None\<rparr> | _ \<Rightarrow> s) # survivors slots os"

lemma tick_slots_shutdown: "tick_slots now True i os slots = (survivors slots os, [], failed_exit slots os)"
  by (induction slots os arbitrary: i rule: survivors.induct)
     (auto simp: failed_exit_def tick_slot_shutdown split: wait_result.splits)

lemma sup_step_shutdown:
  "su_shutting_down st \<Longrightarrow> sup_step (Tick now os) st =
     (st\<lparr>su_slots := survivors (su_slots st) os,
         su_exit_code := (if failed_exit (su_slots st) os then 1 else su_exit_code st)\<rparr>,
      [], \<forall>s\<in>set (survivors (su_slots st) os). sl_child s = None)"
  by (simp add: sup_step_def tick_slots_shutdown Let_def)

text \<open>The abstract run of a shutdown: what remains and the exit code after a list of ticks.\<close>

fun shutdown_run :: "(wait_result \<times> nat option) list list \<Rightarrow> slot list \<Rightarrow> int \<Rightarrow> slot list \<times> int" where
  "shutdown_run [] slots c = (slots, c)"
| "shutdown_run (os # rest) slots c =
     shutdown_run rest (survivors slots os) (if failed_exit slots os then 1 else c)"

definition gone :: "slot list \<Rightarrow> bool" where
  "gone slots \<longleftrightarrow> (\<forall>s\<in>set slots. sl_child s = None)"

lemma survivors_gone: "gone slots \<Longrightarrow> gone (survivors slots os)"
  by (induction slots os rule: survivors.induct) (auto simp: gone_def split: wait_result.splits)

lemma gone_no_failure: "gone slots \<Longrightarrow> \<not> failed_exit slots os"
  by (auto simp: gone_def failed_exit_def dest: set_zip_leftD)

lemma shutdown_run_gone: "gone slots \<Longrightarrow> snd (shutdown_run ticks slots c) = c \<and> gone (fst (shutdown_run ticks slots c))"
  by (induction ticks slots c rule: shutdown_run.induct) (auto simp: survivors_gone gone_no_failure)

text \<open>
  A shutting-down supervisor returns if and only if some tick leaves no child, and then with the
  exit code of all that happened: the one it had, or 1 as soon as any child was seen to exit
  unsuccessfully. It starts no process and sends no signal of its own while it waits.
\<close>

theorem shutdown_returns_when_children_are_gone:
  assumes "su_shutting_down st"
  shows "fst (supervise (map (\<lambda>os. Tick now os) ticks) st) =
      (let (slots, c) = shutdown_run ticks (su_slots st) (su_exit_code st)
       in if ticks \<noteq> [] \<and> gone slots then Some c else None)
    \<and> snd (snd (supervise (map (\<lambda>os. Tick now os) ticks) st)) = []"
  using assms
proof (induction ticks arbitrary: st)
  case (Cons os ticks)
  define s1 where "s1 = survivors (su_slots st) os"
  define c1 where "c1 = (if failed_exit (su_slots st) os then 1 else su_exit_code st)"
  note step = sup_step_shutdown [OF Cons.prems, of now os, folded s1_def c1_def gone_def]
  show ?case
  proof (cases "gone s1")
    case True
    then show ?thesis
      using shutdown_run_gone [OF True, of ticks c1] step
      by (auto simp: s1_def [symmetric] c1_def [symmetric] gone_def split: prod.splits)
  next
    case False
    have ih: "fst (supervise (map (\<lambda>os. Tick now os) ticks) (st\<lparr>su_slots := s1, su_exit_code := c1\<rparr>)) =
        (let (slots, c) = shutdown_run ticks s1 c1 in if ticks \<noteq> [] \<and> gone slots then Some c else None)
      \<and> snd (snd (supervise (map (\<lambda>os. Tick now os) ticks) (st\<lparr>su_slots := s1, su_exit_code := c1\<rparr>))) = []"
      using Cons.IH [of "st\<lparr>su_slots := s1, su_exit_code := c1\<rparr>"] Cons.prems by simp
    have ne: "ticks = [] \<Longrightarrow> shutdown_run ticks s1 c1 = (s1, c1)" by simp
    show ?thesis
      using False step ih ne
      by (cases "ticks = []") (auto simp: s1_def [symmetric] c1_def [symmetric] gone_def split: prod.splits)
  qed
qed simp

theorem shutdown_returns_when_children_are_gone_witness:
  "fst (supervise (map (Tick 0) [[(Running, None), (Exited False, None)], [(Exited True, None), (Running, None)]])
     \<lparr>su_slots = [\<lparr>sl_child = Some 7, sl_spawned = 0, sl_respawn_at = 0\<rparr>,
                  \<lparr>sl_child = Some 8, sl_spawned = 0, sl_respawn_at = 0\<rparr>],
      su_shutting_down = True, su_exit_code = 0\<rparr>) = Some 1"
  by (subst conjunct1 [OF shutdown_returns_when_children_are_gone]) (simp_all add: failed_exit_def gone_def)

end
