(* ===== verification/Startup.thy ===== *)
theory Startup
  imports Ctx Supervisor Texts "HOL-Library.List_Lexorder" "HOL-Library.Char_ord"
begin

section \<open>Startup, plan and shutdown (lib.rs)\<close>

text \<open>
  What the binary decides before and after it serves: validation of the arguments, the plan, the
  choice between supervising and serving, the checks of \<open>run_worker\<close> against the broker, the masking
  of credentials in logged URLs, the drain and the signal rules. The embedded interpreter, the
  connections and the clock are arguments. A hash map of the application's configuration is the
  list of its pairs in iteration order.
\<close>

subsection \<open>Text\<close>

definition ascii_lower :: "char \<Rightarrow> char" where
  "ascii_lower c = (let n = (of_char c :: nat) in if 65 \<le> n \<and> n \<le> 90 then char_of (n + 32) else c)"

subsection \<open>Credentials in URLs\<close>

definition is_credential_key :: "string \<Rightarrow> bool" where
  "is_credential_key key \<longleftrightarrow>
     key \<in> {''password'', ''username'', ''pass'', ''user''} \<or> CHR ''%'' \<in> set key"

definition redact_pair :: "string \<Rightarrow> string" where
  "redact_pair pair =
     (case split_once CHR ''='' pair of
        Some (k, _) \<Rightarrow> if is_credential_key k then k @ ''=***'' else pair
      | None \<Rightarrow> pair)"

definition redact_query_credentials :: "string \<Rightarrow> string" where
  "redact_query_credentials tail =
     (case split_once CHR ''?'' tail of
        None \<Rightarrow> tail
      | Some (path, rest) \<Rightarrow>
          (let query = takeWhile (\<lambda>c. c \<noteq> CHR ''#'') rest;
               fragment = dropWhile (\<lambda>c. c \<noteq> CHR ''#'') rest
           in path @ ''?'' @ join ''&'' (map redact_pair (split_on CHR ''&'' query)) @ fragment))"

definition redact_redis_url :: "string \<Rightarrow> string" where
  "redact_redis_url url =
     (case split_once_str ''://'' url of
        None \<Rightarrow> url
      | Some (scheme, rest) \<Rightarrow>
          (let before_query = takeWhile (\<lambda>c. c \<noteq> CHR ''?'') rest;
               (mask, rest) = (case rsplit_once CHR ''@'' before_query of
                                 Some (_, after_at) \<Rightarrow> (''***@'', after_at @ dropWhile (\<lambda>c. c \<noteq> CHR ''?'') rest)
                               | None \<Rightarrow> ('''', rest));
               authority = takeWhile (\<lambda>c. c \<notin> set ''/?#'') rest;
               tail = dropWhile (\<lambda>c. c \<notin> set ''/?#'') rest
           in scheme @ ''://'' @ mask @ authority @ redact_query_credentials tail))"

subsection \<open>Redis Cluster\<close>

definition ALLOW_REDIS_CLUSTER_ENV :: string where
  "ALLOW_REDIS_CLUSTER_ENV = ''CAULI_ALLOW_REDIS_CLUSTER''"

datatype cluster_verdict = Start | StartAnyway string | Refuse string

definition probe_cluster_info :: "'s world \<Rightarrow> 's \<Rightarrow> string option \<times> 's" where
  "probe_cluster_info W s =
     (case w_query W (INFO ''cluster'') s of (Inr (RStr info), s') \<Rightarrow> (Some info, s') | (_, s') \<Rightarrow> (None, s'))"

definition cluster_info_says_enabled :: "string \<Rightarrow> bool" where
  "cluster_info_says_enabled info \<longleftrightarrow>
     list_ex (\<lambda>line. case split_once CHR '':'' line of
                       Some (k, x) \<Rightarrow> trim k = ''cluster_enabled'' \<and> trim x = ''1''
                     | None \<Rightarrow> False) (text_lines info)"

definition cluster_override_enabled :: "string option \<Rightarrow> bool" where
  "cluster_override_enabled raw \<longleftrightarrow>
     (case raw of None \<Rightarrow> False
      | Some v \<Rightarrow> map ascii_lower (trim v) \<in> {''1'', ''true'', ''yes'', ''on''})"

definition cluster_decision :: "string \<Rightarrow> string option \<Rightarrow> string \<Rightarrow> cluster_verdict" where
  "cluster_decision info override_raw redis_url =
     (if \<not> cluster_info_says_enabled info then Start
      else let redis = redact_redis_url redis_url
           in if cluster_override_enabled override_raw
              then StartAnyway (''redis at '' @ redis @ '' runs in cluster mode and '' @ ALLOW_REDIS_CLUSTER_ENV
                @ '' is set: starting anyway. Delayed tasks, retries and cauli-beat lose work silently on this topology, and fetching two or more queues fails with CROSSSLOT.'')
              else Refuse (''redis at '' @ redis
                @ '' runs in cluster mode (INFO cluster reports cluster_enabled:1), which cauli does not support: standalone and Sentinel only. cauli:q:{queue} and cauli:delayed:{queue} never share a hash slot, so a delayed or retried task leaves the stream without ever reaching the delayed set -- silent loss, not a visible error -- and fetching two or more queues fails with CROSSSLOT. Point the worker at a standalone or Sentinel fronted redis, or set ''
                @ ALLOW_REDIS_CLUSTER_ENV @ ''=1 to start anyway and accept that loss (docs/architecture.md).''))"

subsection \<open>Sizes and the plan\<close>

definition MAX_IO_THREADS :: nat where
  "MAX_IO_THREADS = 4096"

definition MAX_IO_CONCURRENCY :: nat where
  "MAX_IO_CONCURRENCY = 65536"

datatype limit_error = IoThreads nat | IoConcurrency nat

definition io_limits_error :: "resolved \<Rightarrow> limit_error option" where
  "io_limits_error r =
     (if r_io_threads r > MAX_IO_THREADS then Some (IoThreads (r_io_threads r))
      else if r_io_concurrency r > MAX_IO_CONCURRENCY then Some (IoConcurrency (r_io_concurrency r))
      else None)"

definition sync_pool_threads :: "(string \<times> task_spec) list \<Rightarrow> nat \<Rightarrow> nat" where
  "sync_pool_threads registry io_threads =
     (if list_ex (\<lambda>(_, s). ts_kind s \<noteq> ''cpu'' \<and> \<not> ts_is_async s) registry then io_threads else 1)"

definition plan_total :: "nat \<Rightarrow> nat \<Rightarrow> nat" where
  "plan_total per_process procs = min (per_process * procs) (2 ^ 64 - 1)"

definition tokio_threads :: "nat \<Rightarrow> resolved \<Rightarrow> nat" where
  "tokio_threads cores r = max (cores div r_procs r) 1"

definition print_plan :: "args \<Rightarrow> resolved \<Rightarrow> nat \<Rightarrow> string list" where
  "print_plan a r cores =
     [''cauli-worker execution plan'',
      ''  cores detected     '' @ show_nat cores,
      ''  -c (total)         '' @ (case a_concurrency a of None \<Rightarrow> ''unset (standalone defaults)'' | Some c \<Rightarrow> show_nat c),
      ''  worker processes   '' @ show_nat (r_procs r),
      ''  per process:'',
      ''    io tasks in flight  '' @ show_nat (r_io_concurrency r) @ ''  (async + sync together)'',
      ''    sync io threads     '' @ show_nat (r_io_threads r),
      ''    asyncio loops       '' @ show_nat (a_io_loops a),
      ''    tokio runtime threads '' @ show_nat (tokio_threads cores r) @ ''  (redis io and dispatch; never run Python)'',
      ''    ack flush           '' @ show_nat (max (a_ack_batch a) 1) @ '' completions or '' @ show_u64 (a_ack_flush_ms a)
        @ '' ms, whichever first (per queue)'',
      ''    cpu children        '' @ show_nat (r_cpu_workers r) @ ''  (''
        @ (if a_eager_cpu a then ''started at boot: --eager-cpu'' else ''started on first cpu task'')
        @ ''; only if the app registers kind=\"cpu\" tasks)'',
      ''  totals: '' @ show_nat (plan_total (r_io_concurrency r) (r_procs r)) @ '' io tasks in flight, ''
        @ show_nat (plan_total (r_io_threads r) (r_procs r)) @ '' sync threads, ''
        @ show_nat (plan_total (tokio_threads cores r) (r_procs r)) @ '' tokio threads, up to ''
        @ show_nat (plan_total (r_cpu_workers r) (r_procs r)) @ '' cpu children'',
      ''  override any value with its flag; see --help and docs/configuration.md'']"

text \<open>\<open>Iterator::max_by\<close>: the last of the greatest.\<close>

fun max_by :: "('a \<Rightarrow> 'a \<Rightarrow> bool) \<Rightarrow> 'a list \<Rightarrow> 'a option" where
  "max_by gt [] = None"
| "max_by gt (x # xs) = Some (fold (\<lambda>y best. if gt best y then best else y) xs x)"

text \<open>The comparison: by timeout, then by name in reverse.\<close>

definition longer :: "string \<times> u64 \<Rightarrow> string \<times> u64 \<Rightarrow> bool" where
  "longer a b \<longleftrightarrow> snd b < snd a \<or> snd a = snd b \<and> fst a < fst b"

definition longest_timeout_past_drain :: "(string \<times> task_spec) list \<Rightarrow> u64 \<Rightarrow> (string \<times> u64) option" where
  "longest_timeout_past_drain registry drain_timeout_s =
     (let drain_ms = sat_mul drain_timeout_s 1000
      in max_by longer
           (map (\<lambda>(name, spec). (name, ts_timeout_ms spec))
              (filter (\<lambda>(_, spec). drain_ms < ts_timeout_ms spec) registry)))"

text \<open>\<open>exe\<close> is the embedded interpreter's \<open>sys.executable\<close>, if it reports one.\<close>

definition resolve_python :: "string option \<Rightarrow> string option \<Rightarrow> string" where
  "resolve_python flag exe =
     (case flag of Some p \<Rightarrow> p | None \<Rightarrow> (case exe of Some e \<Rightarrow> e | None \<Rightarrow> ''python3''))"

subsection \<open>\<open>real_main\<close>\<close>

text \<open>The configuration the application reports (\<open>AppConfig\<close> of pyrt.rs).\<close>

record app_config =
  ac_redis_url :: string
  ac_default_queue :: string
  ac_result_ttl :: u64
  ac_idemp_ttl :: u64
  ac_queue_ttl :: "(string \<times> f64) list"
  ac_tasks :: "(string \<times> task_spec) list"

datatype arg_error = BadBatch | BadVisibilityTimeout | BadMaxEnvelopeBytes | BadRedisTimeout
  | BadCpuChildThreads | BadConcurrency | BadProcs | BadQueueName string

definition validate_args :: "args \<Rightarrow> arg_error option" where
  "validate_args a =
     (if a_batch a = 0 then Some BadBatch
      else if a_visibility_timeout a = 0 then Some BadVisibilityTimeout
      else if a_max_envelope_bytes a = 0 then Some BadMaxEnvelopeBytes
      else if a_redis_timeout a = 0 then Some BadRedisTimeout
      else if a_cpu_child_threads a = 0 \<or> a_cpu_child_threads a > 1024 then Some BadCpuChildThreads
      else if a_concurrency a = Some 0 then Some BadConcurrency
      else if a_procs a = Some 0 then Some BadProcs
      else map_option BadQueueName (List.find (\<lambda>q. \<not> valid_queue_name q) (a_queues a)))"

datatype parse_outcome = Parsed args | ParseFailed bool

text \<open>What a process needs to serve: the settings, the application's configuration, the URL and
  queues it settled on, the number of runtime threads if it sets one, the masked URL it logged.\<close>

record serving =
  sv_args :: args
  sv_resolved :: resolved
  sv_app :: app_config
  sv_redis_url :: string
  sv_queues :: "string list"
  sv_threads :: "nat option"
  sv_logged_url :: string
  sv_drain_hint :: "(string \<times> u64) option"

datatype start = Exit int | PrintedPlan "string list" | Supervise "string list" "string option" nat | Serve serving

text \<open>Environment: available cores if known, \<open>CAULI_REDIS_URL\<close>, whether \<open>TOKIO_WORKER_THREADS\<close> is
  set, and the start of the interpreter with application, loops and io concurrency.\<close>

record boot_env =
  be_cores :: "nat option"
  be_redis_url :: "string option"
  be_tokio_threads_set :: bool
  be_py_init :: "string \<Rightarrow> nat \<Rightarrow> nat \<Rightarrow> (string, app_config) result"

definition serve_plan :: "boot_env \<Rightarrow> args \<Rightarrow> resolved \<Rightarrow> nat \<Rightarrow> start" where
  "serve_plan be a r cores =
     (let env_url = (case a_redis_url a of Some u \<Rightarrow> Some u | None \<Rightarrow> be_redis_url be)
      in case app_spec a of
           None \<Rightarrow> Exit 101
         | Some app \<Rightarrow>
             (case be_py_init be app (a_io_loops a) (r_io_concurrency r) of
                Inl _ \<Rightarrow> Exit 1
              | Inr appcfg \<Rightarrow>
                  (let redis_url = (case a_redis_url a of
                                      Some u \<Rightarrow> u
                                    | None \<Rightarrow> (case env_url of Some u \<Rightarrow> u | None \<Rightarrow> ac_redis_url appcfg));
                       queues = (if a_queues a = [] then [ac_default_queue appcfg] else a_queues a)
                   in if \<not> list_all valid_queue_name queues then Exit 1
                      else Serve \<lparr>sv_args = a, sv_resolved = r, sv_app = appcfg, sv_redis_url = redis_url,
                             sv_queues = queues,
                             sv_threads = (if be_tokio_threads_set be then None else Some (tokio_threads cores r)),
                             sv_logged_url = redact_redis_url redis_url,
                             sv_drain_hint = longest_timeout_past_drain (ac_tasks appcfg) (a_drain_timeout a)\<rparr>)))"

definition real_main :: "boot_env \<Rightarrow> parse_outcome \<Rightarrow> start" where
  "real_main be p =
     (case p of
        ParseFailed help \<Rightarrow> Exit (if help then 0 else 1)
      | Parsed a \<Rightarrow>
          (case validate_args a of
             Some _ \<Rightarrow> Exit 1
           | None \<Rightarrow>
               (let cores = (case be_cores be of Some n \<Rightarrow> n | None \<Rightarrow> 1);
                    r = resolve a cores
                in if io_limits_error r \<noteq> None then Exit 1
                   else if a_print_plan a then PrintedPlan (print_plan a r cores)
                   else if r_procs r > 1
                   then (case child_argv a r of None \<Rightarrow> Exit 101 | Some v \<Rightarrow> Supervise v (a_redis_url a) (r_procs r))
                   else serve_plan be a r cores)))"

subsection \<open>\<open>run_worker\<close>: from the connection to the loops\<close>

record start_cfg =
  sc_workers :: nat
  sc_child_threads :: nat
  sc_prefetch :: nat
  sc_recycle :: nat
  sc_python :: string
  sc_app_spec :: string
  sc_no_fork_server :: bool

definition queue_ttls :: "(string \<times> f64) list \<Rightarrow> (string \<times> u64) list" where
  "queue_ttls ttls =
     map (\<lambda>(q, secs). (q, f64_as_u64 (f64_mul secs (f64_of_rat 1000))))
       (filter (\<lambda>(_, secs). is_finite secs \<and> f64_less (f64_of_rat 0) secs) ttls)"

definition needs_cpu :: "(string \<times> task_spec) list \<Rightarrow> bool" where
  "needs_cpu tasks \<longleftrightarrow> list_ex (\<lambda>(_, s). ts_kind s = ''cpu'') tasks"

text \<open>The outcomes of opening the client and its two connections, the identity of the process, the
  interpreter's executable, the operator's override, and the libraries the context carries.\<close>

record worker_env =
  we_client :: "(redis_error, unit) result"
  we_write_conn :: "(redis_error, unit) result"
  we_fetch_conn :: "(redis_error, unit) result"
  we_override :: "string option"
  we_hostname :: string
  we_pid :: nat
  we_python_exe :: "string option"
  we_mono :: int
  we_local_ms :: u64
  we_json :: json_lib
  we_sha256 :: "string \<Rightarrow> u8 list"
  we_random_range :: "f64 \<Rightarrow> f64 \<Rightarrow> f64"

record 's serving_state =
  ss_ctx :: ctx
  ss_cpu_cfg :: "start_cfg option"
  ss_sync_threads :: nat
  ss_inflight :: inflight
  ss_acks :: "'s ack_bufs"
  ss_clock :: "redis_clock option"
  ss_eager_cpu :: bool

definition worker_ctx :: "worker_env \<Rightarrow> serving \<Rightarrow> ctx" where
  "worker_ctx we sv =
     \<lparr>cx_json = we_json we, cx_sha256 = we_sha256 we, cx_args = sv_args sv,
      cx_registry = map_of (ac_tasks (sv_app sv)), cx_io_concurrency = r_io_concurrency (sv_resolved sv),
      cx_result_ttl = ac_result_ttl (sv_app sv), cx_idemp_ttl = ac_idemp_ttl (sv_app sv),
      cx_queue_ttl_ms = map_of (queue_ttls (ac_queue_ttl (sv_app sv))), cx_queues = sv_queues sv,
      cx_consumer = we_hostname we @ '':'' @ show_nat (we_pid we), cx_random_range = we_random_range we\<rparr>"

definition worker_cpu_cfg :: "worker_env \<Rightarrow> serving \<Rightarrow> start_cfg option" where
  "worker_cpu_cfg we sv =
     (if needs_cpu (ac_tasks (sv_app sv))
      then Some \<lparr>sc_workers = r_cpu_workers (sv_resolved sv), sc_child_threads = a_cpu_child_threads (sv_args sv),
             sc_prefetch = a_cpu_prefetch (sv_args sv), sc_recycle = a_cpu_max_tasks_per_child (sv_args sv),
             sc_python = resolve_python (a_python (sv_args sv)) (we_python_exe we),
             sc_app_spec = (case app_spec (sv_args sv) of Some app \<Rightarrow> app | None \<Rightarrow> ''''),
             sc_no_fork_server = a_no_fork_server (sv_args sv)\<rparr>
      else None)"

definition cluster_allows :: "'s world \<Rightarrow> worker_env \<Rightarrow> serving \<Rightarrow> 's \<Rightarrow> bool \<times> 's" where
  "cluster_allows W we sv s =
     (case probe_cluster_info W s of
        (None, s') \<Rightarrow> (True, s')
      | (Some info, s') \<Rightarrow>
          ((case cluster_decision info (we_override we) (sv_redis_url sv) of Refuse _ \<Rightarrow> False | _ \<Rightarrow> True), s'))"

definition start_worker :: "'s world \<Rightarrow> worker_env \<Rightarrow> (string \<Rightarrow> 's \<Rightarrow> ack_req list \<times> ack_req list) \<Rightarrow> serving \<Rightarrow> 's
    \<Rightarrow> (int, 's serving_state) result \<times> 's" where
  "start_worker W we peers sv s =
     (if isl (we_client we) \<or> isl (we_write_conn we) \<or> isl (we_fetch_conn we) then (Inl 1, s)
      else case cluster_allows W we sv s of
             (False, s1) \<Rightarrow> (Inl 1, s1)
           | (True, s1) \<Rightarrow>
               (case ensure_groups W (sv_queues sv) s1 of
                  (Inl _, s2) \<Rightarrow> (Inl 1, s2)
                | (Inr _, s2) \<Rightarrow>
                    (let (_, clock, s3) = clock_init W (we_mono we) (we_local_ms we) None s2;
                         a = sv_args sv
                     in (Inr \<lparr>ss_ctx = worker_ctx we sv, ss_cpu_cfg = worker_cpu_cfg we sv,
                               ss_sync_threads = sync_pool_threads (ac_tasks (sv_app sv)) (r_io_threads (sv_resolved sv)),
                               ss_inflight = (\<lambda>q. if q \<in> set (sv_queues sv) then Some {} else None),
                               ss_acks = AckBufs_start peers (sv_queues sv) (a_ack_batch a),
                               ss_clock = clock,
                               ss_eager_cpu = (a_eager_cpu a \<and> needs_cpu (ac_tasks (sv_app sv)))\<rparr>, s3))))"

subsection \<open>Drain and signals\<close>

text \<open>The end of \<open>run_worker\<close>. Each observation is one check of the loop: tasks in flight and the
  time; between two checks it sleeps \<open>DRAIN_POLL_MS\<close>. The result is the number of the check that ends
  it, \<open>None\<close> while it still waits. The exit code follows from a last reading of the gauge.\<close>

definition DRAIN_TIMEOUT_EXIT_CODE :: int where
  "DRAIN_TIMEOUT_EXIT_CODE = 88"

definition DRAIN_POLL_MS :: nat where
  "DRAIN_POLL_MS = 100"

fun drain :: "nat \<Rightarrow> (int \<times> nat) list \<Rightarrow> nat option" where
  "drain deadline [] = None"
| "drain deadline ((inflight, now) # obs) =
     (if inflight > 0 \<and> now < deadline then map_option Suc (drain deadline obs) else Some 0)"

definition drain_exit :: "int \<Rightarrow> int" where
  "drain_exit left = (if left > 0 then DRAIN_TIMEOUT_EXIT_CODE else 0)"

text \<open>The signal task, on the arrival times of the signals: when shutdown is announced, and when the
  process is forced to exit with 130.\<close>

definition SECOND_SIGNAL_MIN_GAP :: nat where
  "SECOND_SIGNAL_MIN_GAP = 1000"

definition signal_task :: "nat list \<Rightarrow> nat option \<times> nat option" where
  "signal_task signals =
     (case signals of
        [] \<Rightarrow> (None, None)
      | first # later \<Rightarrow> (Some first, List.find (\<lambda>t. SECOND_SIGNAL_MIN_GAP \<le> t - first) later))"

section \<open>Correctness of startup\<close>

subsection \<open>Validation and supervision\<close>

lemma find_None_all: "List.find P xs = None \<longleftrightarrow> (\<forall>x\<in>set xs. \<not> P x)"
  by (auto simp: find_None_iff)

lemma validate_args_None:
  "validate_args a = None \<longleftrightarrow>
     0 < a_batch a \<and> a_visibility_timeout a \<noteq> 0 \<and> 0 < a_max_envelope_bytes a \<and> a_redis_timeout a \<noteq> 0
     \<and> a_cpu_child_threads a \<in> {1..1024} \<and> a_concurrency a \<noteq> Some 0 \<and> a_procs a \<noteq> Some 0
     \<and> list_all valid_queue_name (a_queues a)"
  by (auto simp: validate_args_def find_None_all list_all_iff)

text \<open>
  A process that gets to serve has settings the rest of the worker can rely on: at least one
  queue, every queue name valid, a positive batch, visibility timeout, envelope limit and Redis
  timeout, admission and threads within their ceilings, and it is a single process; the URL it
  logs is the masked one.
\<close>

theorem serving_settings_sound:
  assumes "real_main be p = Serve sv"
  shows "sv_queues sv \<noteq> [] \<and> list_all valid_queue_name (sv_queues sv)
    \<and> 0 < a_batch (sv_args sv) \<and> a_visibility_timeout (sv_args sv) \<noteq> 0 \<and> 0 < a_max_envelope_bytes (sv_args sv)
    \<and> a_redis_timeout (sv_args sv) \<noteq> 0 \<and> r_procs (sv_resolved sv) = 1
    \<and> r_io_threads (sv_resolved sv) \<in> {1..4096} \<and> r_io_concurrency (sv_resolved sv) \<in> {1..65536}
    \<and> sv_logged_url sv = redact_redis_url (sv_redis_url sv)"
proof -
  define cores where "cores = (case be_cores be of Some n \<Rightarrow> n | None \<Rightarrow> 1)"
  obtain a where a: "p = Parsed a" "validate_args a = None" "io_limits_error (resolve a cores) = None"
    "\<not> 1 < r_procs (resolve a cores)" "serve_plan be a (resolve a cores) cores = Serve sv"
    using assms by (auto simp: real_main_def Let_def cores_def split: parse_outcome.splits option.splits if_splits)
  then have sv: "sv_args sv = a" "sv_resolved sv = resolve a cores" "list_all valid_queue_name (sv_queues sv)"
    "sv_queues sv \<noteq> []" "sv_logged_url sv = redact_redis_url (sv_redis_url sv)"
    by (auto simp: serve_plan_def Let_def split: option.splits sum.splits if_splits)
  have "r_io_threads (resolve a cores) \<le> 4096" "r_io_concurrency (resolve a cores) \<le> 65536"
    using a(3) by (auto simp: io_limits_error_def MAX_IO_THREADS_def MAX_IO_CONCURRENCY_def split: if_splits)
  then show ?thesis
    using sv a(2,4) resolve_positive [where a = a and cores = cores] unfolding validate_args_None by auto
qed

definition demo_app :: app_config where
  "demo_app = \<lparr>ac_redis_url = ''redis://:pw@h/0'', ac_default_queue = ''q'', ac_result_ttl = 60, ac_idemp_ttl = 60,
     ac_queue_ttl = [], ac_tasks = [(''app.add'', \<lparr>ts_kind = ''io'', ts_is_async = False, ts_timeout_ms = 300000\<rparr>)]\<rparr>"

definition demo_boot :: boot_env where
  "demo_boot = \<lparr>be_cores = Some 8, be_redis_url = None, be_tokio_threads_set = False, be_py_init = (\<lambda>_ _ _. Inr demo_app)\<rparr>"

lemma real_main_checked:
  assumes "validate_args a = None" "resolve a (case be_cores be of Some n \<Rightarrow> n | None \<Rightarrow> 1) = r" "io_limits_error r = None"
    "\<not> a_print_plan a"
  shows "real_main be (Parsed a) =
    (if r_procs r > 1
     then (case child_argv a r of None \<Rightarrow> Exit 101 | Some v \<Rightarrow> Supervise v (a_redis_url a) (r_procs r))
     else serve_plan be a r (case be_cores be of Some n \<Rightarrow> n | None \<Rightarrow> 1))"
  unfolding real_main_def Let_def parse_outcome.case assms option.case using assms(4) by simp

theorem serving_settings_sound_witness:
  "case real_main demo_boot (Parsed (args_default\<lparr>a_app := Some ''m:app''\<rparr>)) of
     Serve sv \<Rightarrow> sv_queues sv = [''q''] \<and> list_all valid_queue_name (sv_queues sv)
   | _ \<Rightarrow> False"
proof -
  define a where "a = args_default\<lparr>a_app := Some ''m:app''\<rparr>"
  have v: "validate_args a = None" by (simp add: a_def validate_args_None args_default_def)
  have r: "resolve a (case be_cores demo_boot of Some n \<Rightarrow> n | None \<Rightarrow> 1)
      = \<lparr>r_procs = 1, r_io_threads = 64, r_io_concurrency = 256, r_cpu_workers = 8\<rparr>"
    by (simp add: demo_boot_def a_def resolve_def args_default_def unwrap_or_def Let_def)
  have q: "valid_queue_name ''q''" by (simp add: valid_queue_name_def queue_char_def)
  have sel: "a_queues a = []" "a_app a = Some ''m:app''" "\<not> a_print_plan a" by (simp_all add: a_def args_default_def)
  have "\<exists>sv. real_main demo_boot (Parsed a) = Serve sv \<and> sv_queues sv = [''q'']"
    using q by (subst real_main_checked [OF v r _ sel(3)])
      (auto simp: io_limits_error_def MAX_IO_THREADS_def MAX_IO_CONCURRENCY_def
        serve_plan_def app_spec_def demo_boot_def demo_app_def Let_def sel)
  then obtain sv where sv: "real_main demo_boot (Parsed a) = Serve sv" "sv_queues sv = [''q'']" by blast
  from sv serving_settings_sound [OF this(1)] show ?thesis unfolding a_def [symmetric] by simp
qed

lemma valid_queue_name_no_comma: "valid_queue_name q \<Longrightarrow> CHR '','' \<notin> set q"
  by (auto simp: valid_queue_name_def queue_char_def Let_def dest: bspec [of _ _ "CHR '',''"])


lemma demo_supervised:
  assumes a: "a = args_default\<lparr>a_app := Some ''m:app'', a_concurrency := Some 300\<rparr>"
  shows "resolve a 8 = \<lparr>r_procs = 5, r_io_threads = 60, r_io_concurrency = 60, r_cpu_workers = 1\<rparr>"
    "\<exists>v. real_main demo_boot (Parsed a) = Supervise v None 5"
proof -
  show r: "resolve a 8 = \<lparr>r_procs = 5, r_io_threads = 60, r_io_concurrency = 60, r_cpu_workers = 1\<rparr>"
    by (simp add: a resolve_def args_default_def unwrap_or_def nat_div_ceil_def SLOTS_PER_PROC_def Let_def)
  have v: "validate_args a = None" by (simp add: a validate_args_None args_default_def)
  have sel: "a_app a = Some ''m:app''" "\<not> a_print_plan a" "a_redis_url a = None" by (simp_all add: a args_default_def)
  have r': "resolve a (case be_cores demo_boot of Some n \<Rightarrow> n | None \<Rightarrow> 1)
      = \<lparr>r_procs = 5, r_io_threads = 60, r_io_concurrency = 60, r_cpu_workers = 1\<rparr>"
    using r by (simp add: demo_boot_def)
  show "\<exists>v. real_main demo_boot (Parsed a) = Supervise v None 5"
    by (subst real_main_checked [OF v r' _ sel(2)])
      (simp_all add: io_limits_error_def MAX_IO_THREADS_def MAX_IO_CONCURRENCY_def child_argv_def app_spec_def sel)
qed


text \<open>A child divides the cores by its own process count, which is 1: with several processes every
  one starts a runtime thread per core, where the plan shows each process its share.\<close>

lemma child_tokio_threads:
  "tokio_threads cores (r\<lparr>r_procs := 1\<rparr>) = max cores 1"
  "1 < r_procs r \<Longrightarrow> 1 < cores \<Longrightarrow> tokio_threads cores r < tokio_threads cores (r\<lparr>r_procs := 1\<rparr>)"
proof -
  show 1: "tokio_threads cores (r\<lparr>r_procs := 1\<rparr>) = max cores 1" by (simp add: tokio_threads_def)
  assume "1 < r_procs r" "1 < cores"
  then have "cores div r_procs r < cores" by simp
  then show "tokio_threads cores r < tokio_threads cores (r\<lparr>r_procs := 1\<rparr>)"
    using \<open>1 < cores\<close> unfolding 1 tokio_threads_def by simp
qed

subsection \<open>Credentials\<close>

lemma split_once_str_first:
  "CHR '':'' \<notin> set scheme \<Longrightarrow> split_once_str ''://'' (scheme @ ''://'' @ rest) = Some (scheme, rest)"
  by (induction scheme) (auto split: option.splits)

lemma rsplit_once_append: "c \<notin> set b \<Longrightarrow> rsplit_once c (a @ c # b) = Some (a, b)"
  by (simp add: rsplit_once_def split_once_append)

lemma takeWhile_until: "\<forall>c\<in>set xs. P c \<Longrightarrow> \<not> P y \<Longrightarrow> takeWhile P (xs @ y # ys) = xs \<and> dropWhile P (xs @ y # ys) = y # ys"
  by (induction xs) auto

text \<open>A query parameter as text, and what the log shows of it.\<close>

definition show_param :: "string \<times> string \<Rightarrow> string" where
  "show_param kv = fst kv @ ''='' @ snd kv"

definition masked_param :: "string \<times> string \<Rightarrow> string" where
  "masked_param kv = (if is_credential_key (fst kv) then fst kv @ ''=***'' else show_param kv)"

lemma redact_show_param: "CHR ''='' \<notin> set (fst kv) \<Longrightarrow> redact_pair (show_param kv) = masked_param kv"
  by (cases kv) (simp add: redact_pair_def show_param_def masked_param_def split_once_append)

lemma set_join: "set (join sep xs) \<subseteq> set sep \<union> \<Union> (set ` set xs)"
  by (induction sep xs rule: join.induct) auto

text \<open>A parameter whose text cannot end the query or the parameter.\<close>

definition plain_param :: "string \<times> string \<Rightarrow> bool" where
  "plain_param kv \<longleftrightarrow> CHR ''='' \<notin> set (fst kv) \<and> set (show_param kv) \<inter> set ''&#'' = {}"

lemma redact_query:
  assumes "CHR ''?'' \<notin> set path" "ps \<noteq> []" "list_all plain_param ps" "fragment = [] \<or> hd fragment = CHR ''#''"
  shows "redact_query_credentials (path @ ''?'' @ join ''&'' (map show_param ps) @ fragment)
    = path @ ''?'' @ join ''&'' (map masked_param ps) @ fragment"
proof -
  let ?q = "join ''&'' (map show_param ps)"
  have "CHR ''#'' \<notin> set (show_param kv)" "CHR ''&'' \<notin> set (show_param kv)" if "kv \<in> set ps" for kv
    using assms(3) that by (auto simp: list_all_iff plain_param_def)
  then have no: "CHR ''#'' \<notin> set ?q" "\<forall>x\<in>set (map show_param ps). CHR ''&'' \<notin> set x"
    using set_join [of "''&''" "map show_param ps"] by auto
  have "takeWhile (\<lambda>c. c \<noteq> CHR ''#'') (?q @ fragment) = ?q \<and> dropWhile (\<lambda>c. c \<noteq> CHR ''#'') (?q @ fragment) = fragment"
  proof (cases fragment)
    case Nil
    then show ?thesis using no(1) by (auto simp: takeWhile_eq_all_conv dropWhile_eq_Nil_conv)
  next
    case (Cons f fs)
    then have "f = CHR ''#''" using assms(4) by simp
    moreover have "\<forall>c\<in>set ?q. c \<noteq> CHR ''#''" using no(1) by auto
    ultimately show ?thesis using Cons takeWhile_until [of ?q "\<lambda>c. c \<noteq> CHR ''#''" f fs] by simp
  qed
  moreover have "map redact_pair (split_on CHR ''&'' ?q) = map masked_param ps"
    using assms(2,3) no(2) by (subst split_join) (auto simp: redact_show_param list_all_iff plain_param_def)
  ultimately show ?thesis using assms(1) by (simp add: redact_query_credentials_def split_once_append Let_def)
qed



text \<open>A question mark in a password ends the search for the user information: the password is logged.\<close>

lemma redaction_misses_question_mark:
  "redact_redis_url ''redis://u:pa?ss@h/0'' = ''redis://u:pa?ss@h/0''"
  by code_simp

subsection \<open>The longest task\<close>

lemma fold_best:
  assumes "\<And>a b c. gt a b \<Longrightarrow> gt b c \<Longrightarrow> gt a c" "\<And>a b. a \<in> set (x # xs) \<Longrightarrow> b \<in> set (x # xs) \<Longrightarrow> a \<noteq> b \<Longrightarrow> gt a b \<or> gt b a"
    "\<And>a. \<not> gt a a"
  shows "fold (\<lambda>y best. if gt best y then best else y) xs x \<in> set (x # xs)
    \<and> (\<forall>y\<in>set (x # xs). y \<noteq> fold (\<lambda>y best. if gt best y then best else y) xs x
         \<longrightarrow> gt (fold (\<lambda>y best. if gt best y then best else y) xs x) y)"
  using assms(2)
proof (induction xs arbitrary: x)
  case (Cons z zs)
  define b where "b = (if gt x z then x else z)"
  define m where "m = fold (\<lambda>y best. if gt best y then best else y) zs b"
  have m: "m \<in> set (b # zs) \<and> (\<forall>y\<in>set (b # zs). y \<noteq> m \<longrightarrow> gt m y)"
    unfolding m_def
  proof (rule Cons.IH)
    fix u v assume "u \<in> set (b # zs)" "v \<in> set (b # zs)" "u \<noteq> v"
    moreover from this have "u \<in> set (x # z # zs)" "v \<in> set (x # z # zs)" by (auto simp: b_def split: if_splits)
    ultimately show "gt u v \<or> gt v u" using Cons.prems by blast
  qed
  have other: "y = b \<or> gt b y" if "y \<in> {x, z}" for y
    using that Cons.prems [of x z] assms(1,3) by (auto simp: b_def)
  have "gt m y" if "y \<in> {x, z}" "y \<noteq> m" for y
    using other [OF that(1)] m that(2) assms(1) by (metis list.set_intros(1))
  then show ?case using m by (auto simp: m_def [symmetric] b_def [symmetric]) (auto simp: b_def split: if_splits)
qed simp

text \<open>
  The startup hint names the registered task with the longest timeout past the drain window, the
  first by name among equals, and it does not depend on the order in which the registry is iterated.
\<close>

theorem longest_timeout_is_canonical:
  assumes "distinct (map fst registry)"
  shows "case longest_timeout_past_drain registry d of
      None \<Rightarrow> \<forall>(n, s)\<in>set registry. unat (ts_timeout_ms s) \<le> unat d * 1000
    | Some (n, t) \<Rightarrow> (\<exists>s. (n, s) \<in> set registry \<and> ts_timeout_ms s = t) \<and> unat d * 1000 < unat t
        \<and> (\<forall>(n', s')\<in>set registry. n' = n \<or> ts_timeout_ms s' < t \<or> ts_timeout_ms s' = t \<and> n < n')"
proof -
  let ?late = "map (\<lambda>(name, spec). (name, ts_timeout_ms spec)) (filter (\<lambda>(_, spec). sat_mul d 1000 < ts_timeout_ms spec) registry)"
  have lt: "sat_mul d 1000 < t \<longleftrightarrow> unat d * 1000 < unat t" for t :: u64
    using unat_lt_64 [of t] by (simp add: word_less_nat_alt unat_sat_mul min_def)
  have late: "x \<in> set ?late \<longleftrightarrow> (\<exists>s. (fst x, s) \<in> set registry \<and> ts_timeout_ms s = snd x \<and> unat d * 1000 < unat (snd x))" for x
    by (cases x) (auto simp: lt image_iff)
  have total: "longer a b \<or> longer b a" if "a \<in> set ?late" "b \<in> set ?late" "a \<noteq> b" for a b
    using that assms by (cases a; cases b) (auto simp: longer_def late dest: eq_key_imp_eq_value)
  show ?thesis
  proof (cases ?late)
    case Nil
    then have "\<not> unat d * 1000 < unat (ts_timeout_ms s)" if "(n, s) \<in> set registry" for n s
      using late [of "(n, ts_timeout_ms s)"] that by auto
    then show ?thesis using Nil unfolding longest_timeout_past_drain_def Let_def Nil by (auto simp: not_less)
  next
    case (Cons x xs)
    define m where "m = fold (\<lambda>y best. if longer best y then best else y) xs x"
    have m: "m \<in> set ?late \<and> (\<forall>y\<in>set ?late. y \<noteq> m \<longrightarrow> longer m y)"
      unfolding m_def Cons
      by (rule fold_best) (use total in \<open>auto simp: longer_def Cons\<close>)
    have res: "longest_timeout_past_drain registry d = Some m"
      unfolding longest_timeout_past_drain_def Let_def Cons m_def by simp
    have "n' = fst m \<or> ts_timeout_ms s' < snd m \<or> ts_timeout_ms s' = snd m \<and> fst m < n'" if "(n', s') \<in> set registry" for n' s'
    proof (cases "unat d * 1000 < unat (ts_timeout_ms s')")
      case True
      then have "(n', ts_timeout_ms s') \<in> set ?late" using that by (subst late) auto
      then have "(n', ts_timeout_ms s') = m \<or> longer m (n', ts_timeout_ms s')" using m by blast
      then show ?thesis by (auto simp: longer_def)
    next
      case False
      moreover have "unat d * 1000 < unat (snd m)" using m late [of m] by blast
      ultimately show ?thesis by (simp add: word_less_nat_alt)
    qed
    then show ?thesis using m late [of m] unfolding res by (cases m) auto
  qed
qed

subsection \<open>The drain\<close>

lemma drain_Some:
  "drain deadline obs = Some k \<Longrightarrow> k < length obs \<and> (fst (obs ! k) \<le> 0 \<or> deadline \<le> snd (obs ! k))
    \<and> (\<forall>i<k. 0 < fst (obs ! i) \<and> snd (obs ! i) < deadline)"
proof (induction deadline obs arbitrary: k rule: drain.induct)
  case (2 deadline n t obs)
  show ?case
  proof (cases "n > 0 \<and> t < deadline")
    case True
    then obtain j where j: "drain deadline obs = Some j" "k = Suc j" using 2(2) by auto
    with 2(1) [OF True j(1)] True show ?thesis by (auto simp: less_Suc_eq_0_disj)
  next
    case False
    then show ?thesis using 2(2) by auto
  qed
qed simp

lemma drain_None: "drain deadline obs = None \<Longrightarrow> i < length obs \<Longrightarrow> snd (obs ! i) < deadline"
  by (induction deadline obs arbitrary: i rule: drain.induct) (auto split: if_splits simp: nth_Cons split: nat.splits)

lemma paced_time:
  "sorted_wrt (\<lambda>x y. snd x + p \<le> snd y) obs \<Longrightarrow> i < length obs \<Longrightarrow> t0 \<le> snd (obs ! 0) \<Longrightarrow> t0 + p * i \<le> (snd (obs ! i) :: nat)"
proof (induction i)
  case (Suc i)
  then have "snd (obs ! i) + p \<le> snd (obs ! Suc i)" by (simp add: sorted_wrt_iff_nth_less)
  with Suc show ?case by simp
qed simp

text \<open>
  C39. Shutdown is bounded: with checks at least 100 ms apart the drain ends within ten checks per
  second of \<open>--drain-timeout\<close> plus one, earlier as soon as nothing is in flight and not before; the
  process exits with 0 exactly when nothing was left.
\<close>

theorem drain_is_bounded:
  assumes "sorted_wrt (\<lambda>x y. snd x + DRAIN_POLL_MS \<le> snd y) obs" "t0 \<le> snd (obs ! 0)" "10 * timeout_s < length obs"
  shows "\<exists>k \<le> 10 * timeout_s. drain (t0 + 1000 * timeout_s) obs = Some k
    \<and> (fst (obs ! k) \<le> 0 \<or> t0 + 1000 * timeout_s \<le> snd (obs ! k))
    \<and> (\<forall>i<k. 0 < fst (obs ! i))
    \<and> (drain_exit left = 0 \<longleftrightarrow> left \<le> 0)"
proof -
  let ?D = "t0 + 1000 * timeout_s"
  have late: "?D \<le> snd (obs ! (10 * timeout_s))"
    using paced_time [OF assms(1,3,2)] by (simp add: DRAIN_POLL_MS_def)
  have "drain ?D obs \<noteq> None" using drain_None [OF _ assms(3), of ?D] late by force
  then obtain k where k: "drain ?D obs = Some k" by blast
  note d = drain_Some [OF k]
  have "k \<le> 10 * timeout_s" using d late by (meson not_le)
  then show ?thesis using k d by (auto simp: drain_exit_def DRAIN_TIMEOUT_EXIT_CODE_def)
qed

theorem drain_is_bounded_witness:
  "\<exists>k \<le> 10. drain (5 + 1000) (map (\<lambda>i. (3, 5 + 100 * i)) [0..<11]) = Some k"
proof -
  let ?obs = "map (\<lambda>i. (3 :: int, 5 + 100 * i)) [0..<11]"
  have "sorted_wrt (\<lambda>x y. snd x + DRAIN_POLL_MS \<le> snd y) ?obs" by (simp add: DRAIN_POLL_MS_def upt_conv_Cons)
  from drain_is_bounded [OF this, of 5 1 0] show ?thesis by auto
qed

theorem longest_timeout_is_canonical_witness:
  "longest_timeout_past_drain (ac_tasks demo_app) 30 = Some (''app.add'', 300000)"
  using longest_timeout_is_canonical [of "ac_tasks demo_app" 30]
  by (auto simp: demo_app_def split: option.splits)

end
