(* ===== verification/Loops.thy ===== *)
theory Loops
  imports Dispatch
begin

section \<open>The worker's loops (loops.rs)\<close>

text \<open>
  Fetch, delayed mover, trim, recovery, consumer reaping, the wedge watchdog and the stats probe.
  A loop body is a function of the broker state and of what the turn observes (free permits, cpu
  backlog, shutdown, the time); a loop is that function iterated over a list of observations. A
  dispatched entry becomes its own task, so a loop returns the entries it hands over, and
  Dispatch.process says what happens to each.
\<close>

subsection \<open>The admission gate\<close>

definition FETCH_BLOCK_MS :: u64 where
  "FETCH_BLOCK_MS = 1000"

definition fetch_block_ms :: "u64 \<Rightarrow> u64" where
  "fetch_block_ms redis_timeout_s = (let half_deadline = sat_mul redis_timeout_s 1000 div 2 in max (min FETCH_BLOCK_MS half_deadline) 50)"

text \<open>What a paused loop waits for: a number of permits, the backlog's drain signal, or only the poll.\<close>

datatype gate = AwaitPermits nat | AwaitDrained | AwaitPoll

definition await_capacity :: "nat \<Rightarrow> gate" where
  "await_capacity want = AwaitPermits (min (max want 1) (2 ^ 32 - 1))"

definition gate_wait :: "bool \<Rightarrow> nat \<Rightarrow> nat \<Rightarrow> gate" where
  "gate_wait has_pool want free =
     (if max want 1 \<le> free then (if has_pool then AwaitDrained else AwaitPoll) else await_capacity want)"

subsection \<open>Fetching\<close>

text \<open>An entry handed to dispatch: queue, stream id, envelope text if the field is present.\<close>

type_synonym handed = "string \<times> string \<times> string option"

record gate_obs =
  go_shutdown :: bool
  go_permits :: nat
  go_backlog :: nat
  go_has_pool :: bool

definition fetch_streams :: "ctx \<Rightarrow> nat" where
  "fetch_streams cx = max (length (cx_queues cx)) 1"

definition min_permits :: "ctx \<Rightarrow> nat" where
  "min_permits cx = min (fetch_streams cx) (max (cx_io_concurrency cx) 1)"

definition per_stream :: "ctx \<Rightarrow> nat \<Rightarrow> nat" where
  "per_stream cx permits = max (min (a_batch (cx_args cx)) permits div fetch_streams cx) 1"

datatype fetch_turn = Gated gate | Nothing | Healed bool | BackedOff | Fetched_entries "handed list"

definition queue_of_key :: "string \<Rightarrow> string" where
  "queue_of_key k = (case strip_prefix ''cauli:q:'' k of Some q \<Rightarrow> q | None \<Rightarrow> k)"

definition entries_of_streams :: "(string \<times> (string \<times> (string \<times> string) list) list) list \<Rightarrow> handed list" where
  "entries_of_streams streams =
     concat (map (\<lambda>(k, es). map (\<lambda>(i, fs). (queue_of_key k, i, raw_e_field fs)) es) streams)"

definition recreate_groups :: "ctx \<Rightarrow> 's world \<Rightarrow> 's \<Rightarrow> bool \<times> 's" where
  "recreate_groups cx W s =
     (case ensure_groups W (cx_queues cx) s of (Inr _, s') \<Rightarrow> (True, s') | (Inl _, s') \<Rightarrow> (False, s'))"

definition fetch_once :: "ctx \<Rightarrow> 's world \<Rightarrow> gate_obs \<Rightarrow> 's \<Rightarrow> fetch_turn \<times> 's" where
  "fetch_once cx W ob s =
     (if go_permits ob < min_permits cx \<or> go_backlog ob > 0
      then (Gated (gate_wait (go_has_pool ob) (min_permits cx) (go_permits ob)), s)
      else case w_query W (XREADGROUP ''cauli'' (cx_consumer cx) (map q_key (cx_queues cx))
                  (per_stream cx (go_permits ob)) (fetch_block_ms (a_redis_timeout (cx_args cx)))) s of
             (Inl e, s1) \<Rightarrow>
               if is_nogroup e then (let (healed, s2) = recreate_groups cx W s1 in (Healed healed, s2))
               else (BackedOff, s1)
           | (Inr RNil, s1) \<Rightarrow> (Nothing, s1)
           | (Inr (RStreams streams), s1) \<Rightarrow> (Fetched_entries (entries_of_streams streams), s1)
           | (Inr _, s1) \<Rightarrow> (BackedOff, s1))"

fun fetch_loop :: "ctx \<Rightarrow> 's world \<Rightarrow> gate_obs list \<Rightarrow> 's \<Rightarrow> handed list \<times> bool \<times> 's" where
  "fetch_loop cx W [] s = ([], False, s)"
| "fetch_loop cx W (ob # obs) s =
     (if go_shutdown ob then ([], True, s)
      else let (turn, s1) = fetch_once cx W ob s;
               (more, stopped, s2) = fetch_loop cx W obs s1
           in ((case turn of Fetched_entries es \<Rightarrow> es | _ \<Rightarrow> []) @ more, stopped, s2))"

subsection \<open>The delayed mover\<close>

definition MOVER_ROUNDS_PER_TICK :: nat where
  "MOVER_ROUNDS_PER_TICK = 32"

datatype mover_log = CrossSlotError string | MoverFailed string

definition report_mover_error :: "string \<Rightarrow> broker_error \<Rightarrow> mover_log" where
  "report_mover_error q e = (if is_crossslot e then CrossSlotError q else MoverFailed q)"

fun mover_rounds :: "'s world \<Rightarrow> string \<Rightarrow> nat \<Rightarrow> nat \<Rightarrow> 's \<Rightarrow> mover_log list \<times> 's" where
  "mover_rounds W q limit 0 s = ([], s)"
| "mover_rounds W q limit (Suc n) s =
     (let (now, s1) = w_now W s
      in case run_mover W q now limit s1 of
           (Inr moved, s2) \<Rightarrow>
             if unat (word_of_int moved :: u64) < limit then ([], s2) else mover_rounds W q limit n s2
         | (Inl e, s2) \<Rightarrow> ([report_mover_error q e], s2))"

fun mover_queues :: "'s world \<Rightarrow> nat \<Rightarrow> string list \<Rightarrow> 's \<Rightarrow> mover_log list \<times> 's" where
  "mover_queues W limit [] s = ([], s)"
| "mover_queues W limit (q # qs) s =
     (let (l1, s1) = mover_rounds W q limit MOVER_ROUNDS_PER_TICK s;
          (l2, s2) = mover_queues W limit qs s1
      in (l1 @ l2, s2))"

definition mover_tick :: "ctx \<Rightarrow> 's world \<Rightarrow> 's \<Rightarrow> mover_log list \<times> 's" where
  "mover_tick cx W s = mover_queues W (max (a_mover_limit (cx_args cx)) 1) (cx_queues cx) s"

subsection \<open>The trim backstop\<close>

definition TRIM_INTERVAL_MS :: u64 where
  "TRIM_INTERVAL_MS = 100"

definition trim_queue :: "'s world \<Rightarrow> string \<Rightarrow> (string \<Rightarrow> string option) \<Rightarrow> 's \<Rightarrow> (string \<Rightarrow> string option) \<times> 's" where
  "trim_queue W q trimmed_to s =
     (case acked_below W q s of
        (Inr (Some boundary), s1) \<Rightarrow>
          if trimmed_to q = Some boundary then (trimmed_to, s1)
          else (case trim_acked W q boundary s1 of
                  (Inr _, s2) \<Rightarrow> (trimmed_to(q \<mapsto> boundary), s2)
                | (Inl _, s2) \<Rightarrow> (trimmed_to, s2))
      | (Inr None, s1) \<Rightarrow> (trimmed_to, s1)
      | (Inl _, s1) \<Rightarrow> (trimmed_to, s1))"

fun trim_tick :: "'s world \<Rightarrow> string list \<Rightarrow> (string \<Rightarrow> string option) \<times> 's \<Rightarrow> (string \<Rightarrow> string option) \<times> 's" where
  "trim_tick W [] st = st"
| "trim_tick W (q # qs) st = trim_tick W qs (trim_queue W q (fst st) (snd st))"

subsection \<open>Recovery\<close>

definition RECOVERY_SCAN_BATCH :: nat where
  "RECOVERY_SCAN_BATCH = 128"

definition reclaim_margin_ms :: "ctx \<Rightarrow> u64" where
  "reclaim_margin_ms cx = max (sat_mul (a_redis_timeout (cx_args cx)) 1000) BACKSTOP_GRACE_MS"

definition visibility_timeout_ms :: "u64 \<Rightarrow> u64" where
  "visibility_timeout_ms visibility_timeout_s = sat_mul visibility_timeout_s 1000"

definition required_idle_ms :: "u64 \<Rightarrow> u64 \<Rightarrow> envelope option \<Rightarrow> u64" where
  "required_idle_ms vt_ms margin_ms parsed =
     (case parsed of
        Some env \<Rightarrow> max vt_ms (sat_add (sat_add (e_timeout_ms env) BACKSTOP_GRACE_MS) margin_ms)
      | None \<Rightarrow> vt_ms)"

text \<open>The observations of \<open>admission_open\<close>: \<open>None\<close> while it waits, \<open>Some None\<close> on shutdown.\<close>

fun admission_open :: "gate_obs list \<Rightarrow> nat option option" where
  "admission_open [] = None"
| "admission_open (ob # obs) =
     (if go_shutdown ob then Some None
      else if go_permits ob > 0 \<and> go_backlog ob = 0 then Some (Some (min (go_permits ob) RECOVERY_SCAN_BATCH))
      else admission_open obs)"

type_synonym pending_entry = "string \<times> string \<times> u64 \<times> u64"

text \<open>What is worth claiming: the entry still exists, was idle long enough and is not held here.\<close>

record candidate =
  cd_id :: string
  cd_idle :: u64
  cd_deliveries :: u64
  cd_env :: "envelope option"

fun candidates :: "ctx \<Rightarrow> inflight \<Rightarrow> string \<Rightarrow> u64 \<Rightarrow> (pending_entry \<times> string option option) list \<Rightarrow> candidate list" where
  "candidates cx held queue vt_ms [] = []"
| "candidates cx held queue vt_ms (((entry_id, _, idle, delivery_count), peek) # rest) =
     (case peek of
        None \<Rightarrow> candidates cx held queue vt_ms rest
      | Some raw_opt \<Rightarrow>
          (let parsed = (case raw_opt of None \<Rightarrow> None | Some r \<Rightarrow> envelope_from_str (cx_json cx) r)
           in if idle < required_idle_ms vt_ms (reclaim_margin_ms cx) parsed \<or> holds_entry queue entry_id held
              then candidates cx held queue vt_ms rest
              else \<lparr>cd_id = entry_id, cd_idle = idle, cd_deliveries = delivery_count, cd_env = parsed\<rparr>
                     # candidates cx held queue vt_ms rest))"

datatype recovered = Redelivered string "string option" | DeadLettered string

fun redeliver :: "ctx \<Rightarrow> 's world \<Rightarrow> 's submitter \<Rightarrow> string \<Rightarrow> (candidate \<times> string option option) list \<Rightarrow> 's
    \<Rightarrow> recovered list \<times> counter_op list \<times> 's" where
  "redeliver cx W sub queue [] s = ([], [], s)"
| "redeliver cx W sub queue ((c, claim) # rest) s =
     (case claim of
        None \<Rightarrow> redeliver cx W sub queue rest s
      | Some raw \<Rightarrow>
          if redelivery_limit (cd_env c) < cd_deliveries c
          then (let (ops, s1) = dlq_terminal cx W sub queue (cd_id c) (case raw of Some r \<Rightarrow> r | None \<Rightarrow> '''')
                                  ''redelivery_limit'' None s;
                    (acts, ops2, s2) = redeliver cx W sub queue rest s1
                in (DeadLettered (cd_id c) # acts, ops @ ops2, s2))
          else (let (acts, ops2, s2) = redeliver cx W sub queue rest s
                in (Redelivered (cd_id c) raw # acts, ops2, s2)))"

definition next_cursor :: "nat \<Rightarrow> pending_entry list \<Rightarrow> string option" where
  "next_cursor page pend =
     (if pend \<noteq> [] \<and> length pend = page then Some (''('' @ fst (last pend)) else None)"

definition recover_page :: "ctx \<Rightarrow> 's world \<Rightarrow> 's submitter \<Rightarrow> inflight \<Rightarrow> string \<Rightarrow> u64 \<Rightarrow> string \<Rightarrow> nat \<Rightarrow> 's
    \<Rightarrow> string option \<times> recovered list \<times> counter_op list \<times> 's" where
  "recover_page cx W sub held queue vt_ms start page s =
     (case xpending_idle W queue vt_ms start page s of
        (Inl _, s1) \<Rightarrow> (None, [], [], s1)
      | (Inr pend, s1) \<Rightarrow>
          (case peek_entries W queue (map fst pend) s1 of
             (Inl _, s2) \<Rightarrow> (None, [], [], s2)
           | (Inr peeked, s2) \<Rightarrow>
               (let eligible = candidates cx held queue vt_ms (zip pend peeked)
                in if eligible = [] then (next_cursor page pend, [], [], s2)
                   else case xclaim_entries W queue (cx_consumer cx) vt_ms (map cd_id eligible) s2 of
                          (Inl _, s3) \<Rightarrow> (None, [], [], s3)
                        | (Inr claimed, s3) \<Rightarrow>
                            (next_cursor page pend, redeliver cx W sub queue (zip eligible claimed) s3))))"

text \<open>One pass over the queues of the drain loop. \<open>pages\<close> are the results of \<open>admission_open\<close>, in order:
  a page size, or \<open>None\<close> for shutdown. The flag tells that the pass was broken off.\<close>

fun recovery_pass :: "ctx \<Rightarrow> 's world \<Rightarrow> 's submitter \<Rightarrow> inflight \<Rightarrow> u64 \<Rightarrow> nat option list \<Rightarrow> (string \<times> string option) list \<Rightarrow> 's
    \<Rightarrow> (string \<times> string option) list \<times> (string \<times> recovered) list \<times> counter_op list \<times> nat option list \<times> bool \<times> 's" where
  "recovery_pass cx W sub held vt_ms pages [] s = ([], [], [], pages, False, s)"
| "recovery_pass cx W sub held vt_ms pages ((q, None) # cs) s =
     (let (cs', acts, ops, pages', broke, s') = recovery_pass cx W sub held vt_ms pages cs s
      in ((q, None) # cs', acts, ops, pages', broke, s'))"
| "recovery_pass cx W sub held vt_ms [] ((q, Some start) # cs) s = ((q, None) # cs, [], [], [], True, s)"
| "recovery_pass cx W sub held vt_ms (None # pages) ((q, Some start) # cs) s = ((q, None) # cs, [], [], pages, True, s)"
| "recovery_pass cx W sub held vt_ms (Some page # pages) ((q, Some start) # cs) s =
     (let (cursor, acts1, ops1, s1) = recover_page cx W sub held q vt_ms start page s;
          (cs', acts2, ops2, pages', broke, s2) = recovery_pass cx W sub held vt_ms pages cs s1
      in ((q, cursor) # cs', map (Pair q) acts1 @ acts2, ops1 @ ops2, pages', broke, s2))"

lemma recovery_pass_le:
  "recovery_pass cx W sub held vt_ms pages cs s = (cs', acts, ops, pages', broke, s') \<Longrightarrow> length pages' \<le> length pages"
  by (induction cx W sub held vt_ms pages cs s arbitrary: cs' acts ops pages' broke s' rule: recovery_pass.induct)
     (auto simp: Let_def le_SucI split: prod.splits)

lemma recovery_pass_pages:
  "recovery_pass cx W sub held vt_ms pages cs s = (cs', acts, ops, pages', broke, s') \<Longrightarrow>
     list_ex (\<lambda>c. snd c \<noteq> None) cs \<Longrightarrow> pages \<noteq> [] \<Longrightarrow> length pages' < length pages"
proof (induction cx W sub held vt_ms pages cs s arbitrary: cs' acts ops pages' broke s' rule: recovery_pass.induct)
  case (5 cx W sub held vt_ms page pages q start cs s)
  obtain cu a1 o1 s1 where r: "recover_page cx W sub held q vt_ms start page s = (cu, a1, o1, s1)" by (metis prod_cases4)
  obtain c2 a2 o2 p2 b2 s2 where "recovery_pass cx W sub held vt_ms pages cs s1 = (c2, a2, o2, p2, b2, s2)" by (metis prod_cases6)
  with r 5(2) recovery_pass_le [OF this] show ?case by (simp add: Let_def less_Suc_eq_le)
qed (auto simp: Let_def split: prod.splits)

text \<open>The drain loop of a tick: passes until every queue is done, shutdown begins, or the admissions
  observed so far are used up.\<close>

function recovery_drain :: "ctx \<Rightarrow> 's world \<Rightarrow> 's submitter \<Rightarrow> inflight \<Rightarrow> u64 \<Rightarrow> nat option list \<Rightarrow> (string \<times> string option) list \<Rightarrow> 's
    \<Rightarrow> (string \<times> recovered) list \<times> counter_op list \<times> 's" where
  "recovery_drain cx W sub held vt_ms pages cs s =
     (if pages = [] \<or> \<not> list_ex (\<lambda>c. snd c \<noteq> None) cs then ([], [], s)
      else case recovery_pass cx W sub held vt_ms pages cs s of
             (cs', acts, ops, pages', broke, s') \<Rightarrow>
               if broke then (acts, ops, s')
               else let (acts2, ops2, s2) = recovery_drain cx W sub held vt_ms pages' cs' s'
                    in (acts @ acts2, ops @ ops2, s2))"
  by pat_completeness auto
termination
  by (relation "measure (\<lambda>(cx, W, sub, held, vt, pages, cs, s). length pages)") (auto dest: recovery_pass_pages [OF sym])

declare recovery_drain.simps [simp del]

subsection \<open>Reaping dead consumers\<close>

definition CONSUMER_REAP_EVERY_TICKS :: u64 where
  "CONSUMER_REAP_EVERY_TICKS = 20"

definition CONSUMER_REAP_MIN_IDLE_MS :: u64 where
  "CONSUMER_REAP_MIN_IDLE_MS = 10 * 60 * 1000"

definition consumer_reap_idle_ms :: "u64 \<Rightarrow> u64" where
  "consumer_reap_idle_ms vt_ms = max (sat_mul vt_ms 4) CONSUMER_REAP_MIN_IDLE_MS"

definition consumer_is_reapable :: "string \<Rightarrow> nat \<Rightarrow> u64 \<Rightarrow> string \<Rightarrow> u64 \<Rightarrow> bool" where
  "consumer_is_reapable name pending idle_ms self_name min_idle_ms \<longleftrightarrow>
     pending = 0 \<and> name \<noteq> self_name \<and> min_idle_ms \<le> idle_ms"

datatype reap_log = Reaped string string | ReapedPending string string int | ReapFailed string string | ReapSkipped string

fun reap_consumers :: "ctx \<Rightarrow> 's world \<Rightarrow> string \<Rightarrow> u64 \<Rightarrow> (string \<times> nat \<times> u64) list \<Rightarrow> 's \<Rightarrow> reap_log list \<times> 's" where
  "reap_consumers cx W q min_idle_ms [] s = ([], s)"
| "reap_consumers cx W q min_idle_ms ((name, pending, idle) # cs) s =
     (if \<not> consumer_is_reapable name pending idle (cx_consumer cx) min_idle_ms
      then reap_consumers cx W q min_idle_ms cs s
      else let (r, s1) = w_query W (XGROUP_DELCONSUMER (q_key q) ''cauli'' name) s;
               (more, s2) = reap_consumers cx W q min_idle_ms cs s1
           in ((case r of
                  Inr (RInt n) \<Rightarrow> (if n = 0 then Reaped q name else ReapedPending q name n)
                | _ \<Rightarrow> ReapFailed q name) # more, s2))"

fun reap_queues :: "ctx \<Rightarrow> 's world \<Rightarrow> u64 \<Rightarrow> string list \<Rightarrow> 's \<Rightarrow> reap_log list \<times> 's" where
  "reap_queues cx W min_idle_ms [] s = ([], s)"
| "reap_queues cx W min_idle_ms (q # qs) s =
     (let (l1, s1) =
            (case w_query W (XINFO_CONSUMERS (q_key q) ''cauli'') s of
               (Inr (RConsumers cs), s1) \<Rightarrow> reap_consumers cx W q min_idle_ms cs s1
             | (_, s1) \<Rightarrow> ([ReapSkipped q], s1));
          (l2, s2) = reap_queues cx W min_idle_ms qs s1
      in (l1 @ l2, s2))"

definition reap_stale_consumers :: "ctx \<Rightarrow> 's world \<Rightarrow> u64 \<Rightarrow> 's \<Rightarrow> reap_log list \<times> 's" where
  "reap_stale_consumers cx W vt_ms s = reap_queues cx W (consumer_reap_idle_ms vt_ms) (cx_queues cx) s"

text \<open>One tick of \<open>recovery_loop\<close>: \<open>ticks\<close> is its counter, \<open>shutdown\<close> what it reads first.\<close>

definition recovery_tick :: "ctx \<Rightarrow> 's world \<Rightarrow> 's submitter \<Rightarrow> inflight \<Rightarrow> bool \<Rightarrow> nat option list \<Rightarrow> u64 \<times> 's
    \<Rightarrow> reap_log list \<times> (string \<times> recovered) list \<times> counter_op list \<times> u64 \<times> 's" where
  "recovery_tick cx W sub held shutdown pages st =
     (case st of (ticks, s) \<Rightarrow>
        if shutdown then ([], [], [], ticks, s)
        else let vt_ms = visibility_timeout_ms (a_visibility_timeout (cx_args cx));
                 (reaped, s1) = (if ticks mod CONSUMER_REAP_EVERY_TICKS = 0 then reap_stale_consumers cx W vt_ms s else ([], s));
                 (acts, ops, s2) = recovery_drain cx W sub held vt_ms pages (map (\<lambda>q. (q, Some ''-'')) (cx_queues cx)) s1
             in (reaped, acts, ops, ticks + 1, s2))"

subsection \<open>The wedge watchdog\<close>

definition HEARTBEAT_INTERVAL_MS :: u64 where
  "HEARTBEAT_INTERVAL_MS = 5000"

definition WEDGE_WINDOW_MS :: u64 where
  "WEDGE_WINDOW_MS = 3 * HEARTBEAT_INTERVAL_MS"

definition WEDGE_EXIT_CODE :: int where
  "WEDGE_EXIT_CODE = 87"

record loop_beat =
  lb_lag_ms :: u64
  lb_outstanding :: u64
  lb_completed :: u64

record loop_watch =
  lw_completed :: u64
  lw_progress_at :: nat

definition wedge_confirmed :: "u64 \<Rightarrow> u64 \<Rightarrow> u64 \<Rightarrow> u64 option \<Rightarrow> bool" where
  "wedge_confirmed lag_ms outstanding since_progress_ms since_rejection_ms =
     (let stamp_stale = WEDGE_WINDOW_MS \<le> lag_ms;
          nothing_finishing = outstanding > 0 \<and> WEDGE_WINDOW_MS \<le> since_progress_ms;
          rejecting = (case since_rejection_ms of None \<Rightarrow> False | Some ms \<Rightarrow> ms \<le> WEDGE_WINDOW_MS)
      in stamp_stale \<and> (nothing_finishing \<or> rejecting))"

definition ms_since :: "nat \<Rightarrow> nat \<Rightarrow> u64" where
  "ms_since earlier now = of_nat (now - earlier)"

text \<open>\<open>Vec::resize_with\<close>.\<close>

definition resize_with :: "nat \<Rightarrow> 'a \<Rightarrow> 'a list \<Rightarrow> 'a list" where
  "resize_with n x xs = take n xs @ replicate (n - length xs) x"

definition beat_watch :: "nat \<Rightarrow> loop_beat \<Rightarrow> loop_watch \<Rightarrow> loop_watch" where
  "beat_watch now beat watch =
     (if lb_completed beat \<noteq> lw_completed watch
      then \<lparr>lw_completed = lb_completed beat, lw_progress_at = now\<rparr> else watch)"

text \<open>The loop over the beats: \<open>Inl\<close> is the exit, with the index and the beat of the wedged loop.\<close>

fun check_beats :: "nat \<Rightarrow> u64 option \<Rightarrow> nat \<Rightarrow> (loop_beat \<times> loop_watch) list \<Rightarrow> (nat \<times> loop_beat, loop_watch list) result" where
  "check_beats now since_rejection idx [] = Inr []"
| "check_beats now since_rejection idx ((beat, watch) # rest) =
     (let watch = beat_watch now beat watch
      in if wedge_confirmed (lb_lag_ms beat) (lb_outstanding beat) (ms_since (lw_progress_at watch) now) since_rejection
         then Inl (idx, beat)
         else case check_beats now since_rejection (Suc idx) rest of
                Inl w \<Rightarrow> Inl w
              | Inr watches \<Rightarrow> Inr (watch # watches))"

record wedge_state =
  ws_watches :: "loop_watch list"
  ws_rejected :: u64
  ws_rejected_at :: "nat option"
  ws_probe_warned :: bool
  ws_lag_ms :: u64

text \<open>What a tick sees: shutdown, the probe (\<open>None\<close> when the probe itself panicked), the time and the
  counter of rejected submissions.\<close>

record wedge_obs =
  wo_shutdown :: bool
  wo_probe :: "(string, loop_beat list) result option"
  wo_now :: nat
  wo_rejected :: u64

definition wedge_tick :: "wedge_obs \<Rightarrow> wedge_state \<Rightarrow> (nat \<times> loop_beat, wedge_state) result" where
  "wedge_tick ob ws =
     (if wo_shutdown ob then Inr ws
      else case wo_probe ob of
             None \<Rightarrow> Inr ws
           | Some (Inl _) \<Rightarrow> Inr (ws\<lparr>ws_probe_warned := True\<rparr>)
           | Some (Inr beats) \<Rightarrow>
               (let now = wo_now ob;
                    lag = fold max (map lb_lag_ms beats) 0;
                    (rejected, rejected_at) =
                      (if ws_rejected ws < wo_rejected ob then (wo_rejected ob, Some now)
                       else (ws_rejected ws, ws_rejected_at ws));
                    since_rejection = map_option (\<lambda>t. ms_since t now) rejected_at;
                    watches = resize_with (length beats) \<lparr>lw_completed = 0, lw_progress_at = now\<rparr> (ws_watches ws)
                in case check_beats now since_rejection 0 (zip beats watches) of
                     Inl w \<Rightarrow> Inl w
                   | Inr watches' \<Rightarrow> Inr (ws\<lparr>ws_watches := watches', ws_rejected := rejected, ws_rejected_at := rejected_at,
                                           ws_lag_ms := lag\<rparr>)))"

fun wedge_loop :: "wedge_obs list \<Rightarrow> wedge_state \<Rightarrow> (nat \<times> loop_beat, wedge_state) result" where
  "wedge_loop [] ws = Inr ws"
| "wedge_loop (ob # obs) ws = (case wedge_tick ob ws of Inl w \<Rightarrow> Inl w | Inr ws' \<Rightarrow> wedge_loop obs ws')"

subsection \<open>The stats probe\<close>

definition stream_id_age_ms :: "string \<Rightarrow> u64 \<Rightarrow> u64" where
  "stream_id_age_ms i now_ms =
     (case parse_u64 (takeWhile (\<lambda>c. c \<noteq> CHR ''-'') i) of None \<Rightarrow> 0 | Some ms \<Rightarrow> sat_sub now_ms ms)"

fun oldest_of_queues :: "'s world \<Rightarrow> u64 \<Rightarrow> string list \<Rightarrow> u64 \<Rightarrow> 's \<Rightarrow> u64 \<times> 's" where
  "oldest_of_queues W now [] oldest s = (oldest, s)"
| "oldest_of_queues W now (q # qs) oldest s =
     (let (r1, s1) = oldest_pending_id W q s;
          oldest1 = (case r1 of Inr (Some i) \<Rightarrow> max oldest (stream_id_age_ms i now) | _ \<Rightarrow> oldest);
          (r2, s2) = oldest_undelivered_id W q s1;
          oldest2 = (case r2 of Inr (Some i) \<Rightarrow> max oldest1 (stream_id_age_ms i now) | _ \<Rightarrow> oldest1)
      in oldest_of_queues W now qs oldest2 s2)"

definition oldest_unacked_ms :: "ctx \<Rightarrow> 's world \<Rightarrow> 's \<Rightarrow> u64 \<times> 's" where
  "oldest_unacked_ms cx W s = (let (now, s1) = w_now W s in oldest_of_queues W now (cx_queues cx) 0 s1)"

text \<open>The line of \<open>stats_loop\<close>: the counters' line and the probes the loop reads next to it.\<close>

record stats_probes =
  sp_cpu_rss_mb :: u64
  sp_sync_live :: nat
  sp_sync_abandoned :: u64
  sp_async_rejected :: u64
  sp_cpu_overflow :: nat
  sp_loop_lag_ms :: u64

definition stats_report :: "string \<Rightarrow> u64 \<Rightarrow> stats_probes \<Rightarrow> string" where
  "stats_report line oldest p =
     line @ '' oldest_ms='' @ show_u64 oldest @ '' cpu_rss_mb='' @ show_u64 (sp_cpu_rss_mb p)
     @ '' sync_live='' @ show_nat (sp_sync_live p) @ '' sync_abandoned='' @ show_u64 (sp_sync_abandoned p)
     @ '' async_rejected='' @ show_u64 (sp_async_rejected p) @ '' cpu_backlog='' @ show_nat (sp_cpu_overflow p)
     @ '' loop_lag_ms='' @ show_u64 (sp_loop_lag_ms p)"

section \<open>Correctness of the loops\<close>

subsection \<open>Fetching\<close>

text \<open>
  An empty poll never runs into the client's own deadline: for every accepted \<open>--redis-timeout\<close> the
  block window is at most half of it and at most a second, and at least 50 ms.
\<close>

theorem fetch_block_within_deadline:
  assumes "redis_timeout_s \<noteq> 0"
  shows "2 * unat (fetch_block_ms redis_timeout_s) \<le> 1000 * unat redis_timeout_s
    \<and> 50 \<le> unat (fetch_block_ms redis_timeout_s) \<and> unat (fetch_block_ms redis_timeout_s) \<le> 1000"
proof -
  define n where "n = unat redis_timeout_s"
  have n: "1 \<le> n" using assms by (simp add: n_def Suc_le_eq unat_gt_0)
  have half: "unat (sat_mul redis_timeout_s 1000 div 2) = min (n * 1000) (2 ^ 64 - 1) div 2"
    by (simp add: unat_div unat_sat_mul n_def)
  have "unat (fetch_block_ms redis_timeout_s) = max (min 1000 (min (n * 1000) (2 ^ 64 - 1) div 2)) 50"
    by (simp only: fetch_block_ms_def Let_def unat_max unat_min half FETCH_BLOCK_MS_def) simp
  moreover have "50 \<le> min (n * 1000) (2 ^ 64 - 1) div 2" "2 * (min (n * 1000) (2 ^ 64 - 1) div 2) \<le> n * 1000"
    using n by auto
  ultimately show ?thesis unfolding n_def [symmetric] by (auto simp: max_def min_def)
qed

theorem fetch_block_within_deadline_witness: "2 * unat (fetch_block_ms 1) \<le> 1000"
  using fetch_block_within_deadline [of 1] by simp

lemma entries_of_streams_length:
  "length (entries_of_streams rs) = sum_list (map (\<lambda>r. length (snd r)) rs)"
  by (induction rs) (auto simp: entries_of_streams_def split: prod.splits)

lemma sum_list_bound: "\<forall>x\<in>set xs. f x \<le> n \<Longrightarrow> sum_list (map f xs) \<le> length xs * (n :: nat)"
  by (induction xs) auto

lemma fetched_bound:
  assumes "group_reader W env" "fetch_once cx W ob s = (Fetched_entries es, s')"
  shows "length es \<le> length (cx_queues cx) * per_stream cx (go_permits ob) \<and> min_permits cx \<le> go_permits ob \<and> go_backlog ob = 0"
proof -
  let ?c = "XREADGROUP ''cauli'' (cx_consumer cx) (map q_key (cx_queues cx)) (per_stream cx (go_permits ob))
    (fetch_block_ms (a_redis_timeout (cx_args cx)))"
  have gate: "min_permits cx \<le> go_permits ob" "go_backlog ob = 0"
    using assms(2) by (auto simp: fetch_once_def split: if_splits)
  then obtain rs where q: "w_query W ?c s = (Inr (RStreams rs), s')" and es: "es = entries_of_streams rs"
    using assms(2)
    by (auto simp: fetch_once_def Let_def split: if_splits prod.splits sum.splits redis_value.splits)
  obtain t where "w_call W ?c t = (Inr (RStreams rs), s')"
    using redis_conn.query_ok [OF group_reader.axioms(1) [OF assms(1)] q] by blast
  from group_reader.read_ok [OF assms(1) this]
  have "length rs \<le> length (cx_queues cx)" "\<forall>r\<in>set rs. length (snd r) \<le> per_stream cx (go_permits ob)" by auto
  then have "length es \<le> length (cx_queues cx) * per_stream cx (go_permits ob)"
    unfolding es entries_of_streams_length
    using sum_list_bound [of rs "\<lambda>r. length (snd r)"] mult_le_mono1 le_trans by blast
  then show ?thesis using gate by simp
qed

text \<open>
  The worker never takes more than it can start: with at least as many io slots as queues, a fetch
  delivers no more entries than there are free permits and no more than the batch size (or one per
  queue), and it fetches nothing while a cpu task is waiting for a place.
\<close>

theorem fetch_never_overcommits:
  assumes "group_reader W env" "fetch_once cx W ob s = (Fetched_entries es, s')"
    and "cx_queues cx \<noteq> []" "length (cx_queues cx) \<le> cx_io_concurrency cx"
  shows "length es \<le> go_permits ob \<and> length es \<le> max (a_batch (cx_args cx)) (length (cx_queues cx)) \<and> go_backlog ob = 0"
proof -
  let ?n = "length (cx_queues cx)" and ?b = "min (a_batch (cx_args cx)) (go_permits ob)"
  note b = fetched_bound [OF assms(1,2)]
  have n: "fetch_streams cx = ?n" "0 < ?n" using assms(3) by (cases "cx_queues cx"; simp add: fetch_streams_def)+
  have "?n \<le> go_permits ob" using b assms(3,4) n by (simp add: min_permits_def)
  moreover have "?n * per_stream cx (go_permits ob) = max (?n * (?b div ?n)) ?n"
    unfolding per_stream_def n(1) by (simp add: nat_mult_max_right)
  moreover have "?n * (?b div ?n) \<le> ?b" by (rule times_div_less_eq_dividend)
  ultimately show ?thesis using b by auto
qed

text \<open>With fewer io slots than queues the page does not fit: one entry per queue is taken, whatever is
  free.\<close>

lemma fetch_overcommits_below_queue_count:
  assumes "cx_io_concurrency cx < length (cx_queues cx)" "go_permits ob = cx_io_concurrency cx" "0 < cx_io_concurrency cx"
  shows "\<not> go_permits ob < min_permits cx
    \<and> length (cx_queues cx) * per_stream cx (go_permits ob) = length (cx_queues cx) \<and> go_permits ob < length (cx_queues cx)"
  using assms by (auto simp: min_permits_def fetch_streams_def per_stream_def max_def min_def)

definition demo_stream :: mem where
  "demo_stream = up_stream (q_key ''q'')
     (\<lambda>st. st\<lparr>ms_entries := [((1, 0), [(''e'', ''x'')]), ((2, 0), [(''e'', ''y'')]), ((3, 0), [])], ms_top := (3, 0),
              ms_group := Some (0, 0)\<rparr>) (empty_mem 7)"

theorem fetch_never_overcommits_witness:
  "\<exists>es s'. fetch_once demo_ctx mem_world \<lparr>go_shutdown = False, go_permits = 2, go_backlog = 0, go_has_pool = False\<rparr> demo_stream
     = (Fetched_entries es, s') \<and> length es = 2 \<and> length es \<le> 2"
proof -
  let ?ob = "\<lparr>go_shutdown = False, go_permits = 2, go_backlog = 0, go_has_pool = False\<rparr>"
  have cx: "cx_queues demo_ctx = [''q'']" "cx_io_concurrency demo_ctx = 4" "2 \<le> a_batch (cx_args demo_ctx)"
    by (simp_all add: demo_ctx_def args_default_def)
  then have c: "min_permits demo_ctx = 1" "per_stream demo_ctx 2 = 2"
    by (simp_all add: min_permits_def per_stream_def fetch_streams_def)
  have "\<exists>es s'. fetch_once demo_ctx mem_world ?ob demo_stream = (Fetched_entries es, s') \<and> length es = 2"
    by (simp add: fetch_once_def c cx mem_world_def demo_stream_def empty_mem_def empty_stream_def Let_def
        entries_of_streams_def q_key_def word_less_nat_alt)
  then obtain es s' where es: "fetch_once demo_ctx mem_world ?ob demo_stream = (Fetched_entries es, s')" "length es = 2" by blast
  with fetch_never_overcommits [OF mem_reader.group_reader_axioms es(1)] cx show ?thesis by auto
qed

subsection \<open>The mover\<close>

text \<open>The mover alone with the server: scripts run on the state as it is, the commands it uses do not
  fail and do not move the clock.\<close>

locale quiet_mover = delayed_store W env zscore backlog for W :: "'s world" and env zscore backlog +
  assumes eval_now: "w_eval W f s = f s"
    and clock_reads: "w_now W s = (fst (w_now W s), s)"
    and clock_still: "w_call W c s = (r, s') \<Longrightarrow> fst (w_now W s') = fst (w_now W s)"
    and zrange_works: "\<exists>v s'. w_call W (ZRANGEBYSCORE k mx n) s = (Inr v, s')"
    and xadd_works: "\<exists>v s'. w_call W (XADD k fs) s = (Inr v, s')"
    and zrem_works: "\<exists>v s'. w_call W (ZREM k m) s = (Inr v, s')"
    and zset_finite: "finite {m. zscore s k m \<noteq> None}"

context quiet_mover
begin

definition due :: "'s \<Rightarrow> string \<Rightarrow> string set" where
  "due s q = {e. \<exists>sc. zscore s (delayed_key q) e = Some sc \<and> sc \<le> fst (w_now W s)}"

lemma finite_due: "finite (due s q)"
  using zset_finite [of s "delayed_key q"] by (rule rev_finite_subset) (auto simp: due_def)

lemma moves_work: "\<exists>s'. mover_moves (w_call W) k1 k2 es s = (None, s') \<and> fst (w_now W s') = fst (w_now W s)"
proof (induction es arbitrary: s)
  case (Cons e es)
  obtain v s1 where x: "w_call W (XADD k2 [(''e'', e)]) s = (Inr v, s1)" using xadd_works by blast
  obtain w s2 where z: "w_call W (ZREM k1 e) s1 = (Inr w, s2)" using zrem_works by blast
  obtain s3 where "mover_moves (w_call W) k1 k2 es s2 = (None, s3)" "fst (w_now W s3) = fst (w_now W s2)"
    using Cons.IH by blast
  then show ?case using x z clock_still [OF x] clock_still [OF z] by simp
qed simp

lemma run_mover_works:
  "\<exists>n s'. run_mover W q (fst (w_now W s)) limit s = (Inr (int n), s') \<and> n \<le> limit \<and> fst (w_now W s') = fst (w_now W s)
     \<and> (n < limit \<longrightarrow> due s' q = {}) \<and> card (due s' q) + n = card (due s q)"
proof -
  let ?k = "delayed_key q" and ?now = "fst (w_now W s)"
  obtain v s1 where z: "w_call W (ZRANGEBYSCORE ?k ?now limit) s = (Inr v, s1)" using zrange_works by blast
  from zrange_ok [OF z] obtain d where d: "s1 = s" "v = RList d" by auto
  obtain s2 where m: "mover_moves (w_call W) ?k (q_key q) d s = (None, s2)" "fst (w_now W s2) = ?now"
    using moves_work by blast
  have L: "MOVER_LUA (w_call W) ?k (q_key q) ?now limit s = (Inr (RInt (int (length d))), s2)"
    using z d m(1) by (simp add: MOVER_LUA_def)
  obtain d' where d': "int (length d) = int (length d')" "distinct d'" "length d' \<le> limit"
    "set d' \<subseteq> {e. \<exists>sc. zscore s ?k e = Some sc \<and> sc \<le> ?now}"
    "length d' < limit \<longrightarrow> {e. \<exists>sc. zscore s2 ?k e = Some sc \<and> sc \<le> ?now} = {}"
    "zscore s2 ?k = (\<lambda>m. if m \<in> set d' then None else zscore s ?k m)"
    by (rule MOVER_LUA_moves [OF L])
  have "due s2 q = due s q - set d'" using d'(6) m(2) by (auto simp: due_def split: if_splits)
  moreover have sub: "set d' \<subseteq> due s q" using d'(4) by (simp add: due_def)
  ultimately have "card (due s2 q) + length d' = card (due s q)"
    using card_Diff_subset [OF finite_set sub] card_mono [OF finite_due sub] distinct_card [OF d'(2)] by simp
  moreover have "length d' < limit \<longrightarrow> due s2 q = {}" using d'(5) m(2) by (simp add: due_def)
  ultimately show ?thesis using L d'(1,3) m(2) by (intro exI [of _ "length d'"] exI [of _ s2]) (simp add: run_mover_def eval_now)
qed

lemma rounds_drain:
  "limit < 2 ^ 64 \<Longrightarrow> card (due s q) < n * limit \<Longrightarrow>
     \<exists>s'. mover_rounds W q limit n s = ([], s') \<and> due s' q = {}"
proof (induction n arbitrary: s)
  case (Suc n)
  obtain m s1 where r: "run_mover W q (fst (w_now W s)) limit s = (Inr (int m), s1)" "m \<le> limit"
    "m < limit \<longrightarrow> due s1 q = {}" "card (due s1 q) + m = card (due s q)"
    using run_mover_works by blast
  have m: "unat (word_of_int (int m) :: u64) = m"
    using r(2) Suc.prems(1) by (simp add: unat_of_nat take_bit_nat_eq_self)
  have step: "mover_rounds W q limit (Suc n) s = (if m < limit then ([], s1) else mover_rounds W q limit n s1)"
    by (simp only: mover_rounds.simps, subst clock_reads) (simp only: r(1) m Let_def prod.case sum.case)
  show ?case
  proof (cases "m < limit")
    case True
    then show ?thesis using step r(3) by simp
  next
    case False
    then have "card (due s1 q) < n * limit" using Suc.prems r(2,4) by simp
    from Suc.IH [OF Suc.prems(1) this] show ?thesis using step False by simp
  qed
qed simp

end

lemma mem_call_clock: "mem_call c s = (r, s') \<Longrightarrow> mm_clock s' = mm_clock s"
proof -
  have "mem_read c n ks s = (rs, s') \<Longrightarrow> mm_clock s' = mm_clock s" for c n ks s rs s'
  proof (induction ks arbitrary: s rs s')
    case (Cons k ks)
    then show ?case by (force simp: Let_def split: prod.splits if_splits)
  qed simp
  then show "mem_call c s = (r, s') \<Longrightarrow> mm_clock s' = mm_clock s"
    by (cases c) (auto simp: mem_xadd_def mem_claim_def Let_def split: option.splits if_splits prod.splits)
qed

interpretation mem_quiet: quiet_mover mem_world mem_env
  "\<lambda>s k. map_of (mm_zset s k)" "\<lambda>s k. map snd (ms_entries (mm_stream s k))"
proof unfold_locales
  fix s :: mem and k show "finite {m. map_of (mm_zset s k) m \<noteq> None}"
    using finite_dom_map_of [of "mm_zset s k"] by (simp add: dom_def)
qed (auto simp: mem_world_def mem_xadd_def Let_def dest: mem_call_clock)



subsection \<open>Recovery\<close>

definition parsed_of :: "ctx \<Rightarrow> string option \<Rightarrow> envelope option" where
  "parsed_of cx raw = (case raw of None \<Rightarrow> None | Some r \<Rightarrow> envelope_from_str (cx_json cx) r)"

lemma candidates_sound:
  "c \<in> set (candidates cx held queue vt ps) \<Longrightarrow>
     \<exists>consumer raw. ((cd_id c, consumer, cd_idle c, cd_deliveries c), Some raw) \<in> set ps
       \<and> cd_env c = parsed_of cx raw \<and> required_idle_ms vt (reclaim_margin_ms cx) (parsed_of cx raw) \<le> cd_idle c
       \<and> \<not> holds_entry queue (cd_id c) held"
proof (induction ps)
  case (Cons p ps)
  obtain i k idle n peek where p: "p = ((i, k, idle, n), peek)" by (metis prod_cases5 prod.collapse)
  show ?case
  proof (cases "c \<in> set (candidates cx held queue vt ps)")
    case True
    then show ?thesis using Cons.IH by auto
  next
    case False
    then have "\<exists>raw. peek = Some raw \<and> c = \<lparr>cd_id = i, cd_idle = idle, cd_deliveries = n, cd_env = parsed_of cx raw\<rparr>
        \<and> required_idle_ms vt (reclaim_margin_ms cx) (parsed_of cx raw) \<le> idle \<and> \<not> holds_entry queue i held"
      using Cons.prems unfolding p by (cases peek) (simp_all add: Let_def parsed_of_def [symmetric] not_less split: if_splits)
    then show ?thesis unfolding p by (elim exE) (rule exI [of _ k], auto)
  qed
qed simp

lemma redeliver_sound:
  "act \<in> set (fst (redeliver cx W sub queue ps s)) \<Longrightarrow>
     \<exists>c raw. (c, Some raw) \<in> set ps
       \<and> (act = DeadLettered (cd_id c) \<and> redelivery_limit (cd_env c) < cd_deliveries c
          \<or> act = Redelivered (cd_id c) raw \<and> cd_deliveries c \<le> redelivery_limit (cd_env c))"
proof (induction cx W sub queue ps s rule: redeliver.induct)
  case (2 cx W sub queue c claim rest s)
  show ?case
  proof (cases claim)
    case None
    then show ?thesis using 2 by auto
  next
    case (Some raw)
    obtain ops s1 where d: "dlq_terminal cx W sub queue (cd_id c) (case raw of Some r \<Rightarrow> r | None \<Rightarrow> '''') ''redelivery_limit'' None s = (ops, s1)"
      by fastforce
    show ?thesis
    proof (cases "redelivery_limit (cd_env c) < cd_deliveries c")
      case True
      then have "act = DeadLettered (cd_id c) \<or> act \<in> set (fst (redeliver cx W sub queue rest s1))"
        using 2(4) Some d by (auto simp: Let_def split: prod.splits)
      then show ?thesis using 2(2) [OF Some True d [symmetric]] True Some by auto
    next
      case False
      then have "act = Redelivered (cd_id c) raw \<or> act \<in> set (fst (redeliver cx W sub queue rest s))"
        using 2(4) Some by (auto simp: Let_def split: prod.splits)
      then show ?thesis using 2(3) [OF Some False] False Some by (auto simp: not_less)
    qed
  qed
qed simp

lemma recover_page_acts:
  assumes "recover_page cx W sub held queue vt start page s = (cur, acts, ops, s')" "act \<in> set acts"
    and "xpending_idle W queue vt start page s = (Inr pend, s1)" "peek_entries W queue (map fst pend) s1 = (Inr peeked, s2)"
  obtains claimed s3 where "act \<in> set (fst (redeliver cx W sub queue (zip (candidates cx held queue vt (zip pend peeked)) claimed) s3))"
proof (cases "candidates cx held queue vt (zip pend peeked) = []")
  case True
  then show ?thesis using assms by (simp add: recover_page_def)
next
  case False
  obtain x s3 where x: "xclaim_entries W queue (cx_consumer cx) vt (map cd_id (candidates cx held queue vt (zip pend peeked))) s2 = (x, s3)"
    by fastforce
  show ?thesis
  proof (cases x)
    case (Inl e)
    then show ?thesis using False assms x by (simp add: recover_page_def)
  next
    case (Inr claimed)
    then have "(acts, ops, s') = redeliver cx W sub queue (zip (candidates cx held queue vt (zip pend peeked)) claimed) s3"
      using False assms x by (simp add: recover_page_def)
    then show ?thesis using that [of claimed s3] assms(2) by (metis fst_conv)
  qed
qed

lemma unat_required_idle:
  "unat (required_idle_ms vt margin (Some env)) =
     max (unat vt) (min (min (unat (e_timeout_ms env) + 2000) (2 ^ 64 - 1) + unat margin) (2 ^ 64 - 1))"
  by (simp add: required_idle_ms_def unat_max unat_sat_add BACKSTOP_GRACE_MS_def)

text \<open>
  C5. Recovery touches only what is abandoned. Whatever an XPENDING page lists, an entry that recovery
  redelivers or dead-letters was idle for at least the visibility timeout and, if its envelope is
  readable, for its own timeout plus the execution grace and the reclaim margin; this process does not
  hold it; and it is dead-lettered exactly when it was delivered more often than its limit allows.
\<close>

theorem recovery_takes_only_abandoned:
  assumes "recover_page cx W sub held queue vt start page s = (cur, acts, ops, s')" "act \<in> set acts"
    and "xpending_idle W queue vt start page s = (Inr pend, s1)" "peek_entries W queue (map fst pend) s1 = (Inr peeked, s2)"
  shows "\<exists>i consumer idle deliveries raw. ((i, consumer, idle, deliveries), Some raw) \<in> set (zip pend peeked)
    \<and> vt \<le> idle \<and> \<not> holds_entry queue i held
    \<and> (case parsed_of cx raw of None \<Rightarrow> True
       | Some env \<Rightarrow> min (unat (e_timeout_ms env) + 2000 + unat (reclaim_margin_ms cx)) (2 ^ 64 - 1) \<le> unat idle)
    \<and> (if redelivery_limit (parsed_of cx raw) < deliveries then act = DeadLettered i else \<exists>claimed. act = Redelivered i claimed)"
proof -
  obtain claimed s3 where "act \<in> set (fst (redeliver cx W sub queue (zip (candidates cx held queue vt (zip pend peeked)) claimed) s3))"
    using recover_page_acts [OF assms] by blast
  then obtain c raw' where c: "c \<in> set (candidates cx held queue vt (zip pend peeked))"
    "act = DeadLettered (cd_id c) \<and> redelivery_limit (cd_env c) < cd_deliveries c
      \<or> act = Redelivered (cd_id c) raw' \<and> cd_deliveries c \<le> redelivery_limit (cd_env c)"
    using redeliver_sound by (meson in_set_zipE)
  from candidates_sound [OF c(1)] obtain consumer raw where r:
    "((cd_id c, consumer, cd_idle c, cd_deliveries c), Some raw) \<in> set (zip pend peeked)" "cd_env c = parsed_of cx raw"
    "required_idle_ms vt (reclaim_margin_ms cx) (parsed_of cx raw) \<le> cd_idle c" "\<not> holds_entry queue (cd_id c) held" by blast
  have vt: "vt \<le> cd_idle c"
    using r(3) by (auto simp: required_idle_ms_def split: option.splits)
  have "min (unat (e_timeout_ms env) + 2000 + unat (reclaim_margin_ms cx)) (2 ^ 64 - 1) \<le> unat (cd_idle c)"
    if "parsed_of cx raw = Some env" for env
    using r(3) unfolding that word_le_nat_alt unat_required_idle by auto
  then show ?thesis
    using r vt c(2) by (intro exI [of _ "cd_id c"] exI [of _ consumer] exI [of _ "cd_idle c"] exI [of _ "cd_deliveries c"] exI [of _ raw])
      (auto split: option.splits)
qed

definition demo_pending :: mem where
  "demo_pending = up_stream (q_key ''q'')
     (\<lambda>st. st\<lparr>ms_entries := [((1, 0), []), ((2, 0), [])], ms_top := (2, 0), ms_group := Some (2, 0),
              ms_pel := [((1, 0), ''w1'', 70000, 1), ((2, 0), ''w1'', 500, 1)]\<rparr>) (empty_mem 7)"

lemma sid_1_0: "show_sid (1, 0) = ''1-0''" "read_sid ''1-0'' = Some (1, 0)"
proof -
  show 1: "show_sid (1, 0) = ''1-0''"
    by (simp add: show_sid_def show_nat.simps digit_char_def char_of_def bit_Suc_0_iff)
  show "read_sid ''1-0'' = Some (1, 0)" using read_show_sid [of "(1, 0)"] unfolding 1 .
qed

theorem recovery_takes_only_abandoned_witness:
  "case recover_page demo_ctx mem_world demo_sub [''q'' \<mapsto> {}] ''q'' 60000 ''-'' 8 demo_pending of
     (cur, acts, ops, s') \<Rightarrow> acts = [Redelivered ''1-0'' None] \<and> (\<exists>idle. (60000 :: u64) \<le> idle \<and> \<not> holds_entry ''q'' ''1-0'' [''q'' \<mapsto> {}])"
proof -
  let ?held = "[''q'' \<mapsto> {} :: stream_id set]"
  have pend: "xpending_idle mem_world ''q'' 60000 ''-'' 8 demo_pending = (Inr [(''1-0'', ''w1'', 70000, 1)], demo_pending)"
    by (simp add: xpending_idle_def mem_world_def demo_pending_def pel_of_def past_def up_to_def sid_1_0 word_le_nat_alt)
  have peek: "peek_entries mem_world ''q'' (map fst [(''1-0'', ''w1'', 70000 :: u64, 1 :: u64)]) demo_pending = (Inr [Some None], demo_pending)"
    by (simp add: peek_entries_def entries_of_pipe_def mem_world_def demo_pending_def past_def up_to_def sid_1_0
        pick_entry_def raw_e_field_def word_le_nat_alt)
  have held: "\<not> holds_entry ''q'' ''1-0'' ?held" by (simp add: holds_entry_def split: option.splits)
  obtain s3 where claim: "xclaim_entries mem_world ''q'' (cx_consumer demo_ctx) 60000 [''1-0''] demo_pending = (Inr [Some None], s3)"
    by (simp add: xclaim_entries_def entries_of_pipe_def mem_world_def demo_pending_def mem_claim_def sid_1_0
        pick_entry_def raw_e_field_def word_le_nat_alt)
  have r: "recover_page demo_ctx mem_world demo_sub ?held ''q'' 60000 ''-'' 8 demo_pending
      = (None, [Redelivered ''1-0'' None], [], s3)"
    using pend peek claim
    by (simp add: recover_page_def required_idle_ms_def held next_cursor_def redelivery_limit_def d_max_retries_def)
  from recovery_takes_only_abandoned [OF r _ pend peek, of "Redelivered ''1-0'' None"]
  have "\<not> holds_entry ''q'' ''1-0'' ?held" by (auto split: if_splits)
  then show ?thesis unfolding r by (auto intro: exI [of _ 60000])
qed

subsection \<open>Reaping\<close>

lemma reap_consumers_sound:
  "l \<in> set (fst (reap_consumers cx W q m cs s)) \<Longrightarrow>
     \<exists>name idle. (name, 0, idle) \<in> set cs \<and> name \<noteq> cx_consumer cx \<and> m \<le> idle
       \<and> (l = Reaped q name \<or> (\<exists>n. l = ReapedPending q name n) \<or> l = ReapFailed q name)"
proof (induction cs arbitrary: s)
  case (Cons c cs)
  obtain name p idle where c: "c = (name, p, idle)" by (metis prod_cases3)
  obtain r s1 where d: "w_query W (XGROUP_DELCONSUMER (q_key q) ''cauli'' name) s = (r, s1)" by fastforce
  show ?case
  proof (cases "consumer_is_reapable name p idle (cx_consumer cx) m")
    case True
    then have "(l = Reaped q name \<or> (\<exists>n. l = ReapedPending q name n) \<or> l = ReapFailed q name)
        \<or> l \<in> set (fst (reap_consumers cx W q m cs s1))"
      using Cons.prems c d by (auto simp: Let_def split: prod.splits sum.splits redis_value.splits if_splits)
    then show ?thesis
    proof
      assume "l = Reaped q name \<or> (\<exists>n. l = ReapedPending q name n) \<or> l = ReapFailed q name"
      then show ?thesis using True c by (intro exI [of _ name] exI [of _ idle]) (auto simp: consumer_is_reapable_def)
    next
      assume "l \<in> set (fst (reap_consumers cx W q m cs s1))"
      from Cons.IH [OF this] show ?thesis by auto
    qed
  next
    case False
    then have "l \<in> set (fst (reap_consumers cx W q m cs s))" using Cons.prems c by simp
    from Cons.IH [OF this] show ?thesis by auto
  qed
qed simp

text \<open>
  Only a consumer that can hold nothing is deleted: every consumer the reaper asks Redis to delete
  is not this worker's own, was listed with no pending entry, and had been idle for ten minutes and
  for four visibility timeouts at least.
\<close>

theorem reaper_deletes_only_idle_empty:
  assumes "l \<in> set (fst (reap_consumers cx W q (consumer_reap_idle_ms vt_ms) cs s))"
  shows "\<exists>name idle. (name, 0, idle) \<in> set cs \<and> name \<noteq> cx_consumer cx
    \<and> 600000 \<le> unat idle \<and> min (4 * unat vt_ms) (2 ^ 64 - 1) \<le> unat idle
    \<and> (l = Reaped q name \<or> (\<exists>n. l = ReapedPending q name n) \<or> l = ReapFailed q name)"
proof -
  from reap_consumers_sound [OF assms] obtain name idle where r: "(name, 0, idle) \<in> set cs" "name \<noteq> cx_consumer cx"
    "consumer_reap_idle_ms vt_ms \<le> idle" "l = Reaped q name \<or> (\<exists>n. l = ReapedPending q name n) \<or> l = ReapFailed q name" by blast
  have "600000 \<le> unat idle" "min (4 * unat vt_ms) (2 ^ 64 - 1) \<le> unat idle"
    using r(3) unfolding word_le_nat_alt consumer_reap_idle_ms_def unat_max unat_sat_mul CONSUMER_REAP_MIN_IDLE_MS_def
    by (auto simp: mult.commute)
  then show ?thesis using r by blast
qed

theorem reaper_deletes_only_idle_empty_witness:
  "fst (reap_consumers demo_ctx mem_world ''q'' (consumer_reap_idle_ms 60000)
     [(''host:1'', 0, 900000), (''old:7'', 0, 900000), (''busy:8'', 2, 900000)] demo_pending) = [ReapFailed ''q'' ''old:7'']
   \<and> (600000 :: nat) \<le> unat (900000 :: u64)"
proof -
  have m: "consumer_reap_idle_ms 60000 \<le> 900000"
    by (simp add: consumer_reap_idle_ms_def CONSUMER_REAP_MIN_IDLE_MS_def word_le_nat_alt unat_max unat_sat_mul)
  have r: "fst (reap_consumers demo_ctx mem_world ''q'' (consumer_reap_idle_ms 60000)
     [(''host:1'', 0, 900000), (''old:7'', 0, 900000), (''busy:8'', 2, 900000)] demo_pending) = [ReapFailed ''q'' ''old:7'']"
    using m by (simp add: consumer_is_reapable_def demo_ctx_def mem_world_def Let_def)
  from reaper_deletes_only_idle_empty [of "ReapFailed ''q'' ''old:7''" demo_ctx mem_world "''q''" 60000
      "[(''host:1'', 0, 900000), (''old:7'', 0, 900000), (''busy:8'', 2, 900000)]" demo_pending]
  show ?thesis unfolding r by auto
qed

subsection \<open>The watchdog\<close>

lemma check_beats_Inl:
  "check_beats now sr i bws = Inl (j, beat) \<Longrightarrow>
     \<exists>m < length bws. j = i + m \<and> beat = fst (bws ! m)
       \<and> wedge_confirmed (lb_lag_ms beat) (lb_outstanding beat)
           (ms_since (lw_progress_at (beat_watch now beat (snd (bws ! m)))) now) sr"
proof (induction now sr i bws rule: check_beats.induct)
  case (2 now sr i b w rest)
  show ?case
  proof (cases "wedge_confirmed (lb_lag_ms b) (lb_outstanding b) (ms_since (lw_progress_at (beat_watch now b w)) now) sr")
    case True
    then show ?thesis using 2(2) by (intro exI [of _ 0]) (auto simp: Let_def)
  next
    case False
    then have "check_beats now sr (Suc i) rest = Inl (j, beat)" using 2(2) by (auto simp: Let_def split: sum.splits)
    from 2(1) [OF refl False this] obtain m where "m < length rest" "j = Suc i + m" "beat = fst (rest ! m)"
      "wedge_confirmed (lb_lag_ms beat) (lb_outstanding beat) (ms_since (lw_progress_at (beat_watch now beat (snd (rest ! m)))) now) sr"
      by blast
    then show ?thesis by (intro exI [of _ "Suc m"]) auto
  qed
qed simp

lemma check_beats_Inr:
  "check_beats now sr i bws = Inr ws \<Longrightarrow> ws = map (\<lambda>(b, w). beat_watch now b w) bws"
  by (induction now sr i bws arbitrary: ws rule: check_beats.induct) (auto simp: Let_def split: if_splits sum.splits)

definition seen_beats :: "wedge_obs \<Rightarrow> loop_beat list option" where
  "seen_beats ob = (if wo_shutdown ob then None else case wo_probe ob of Some (Inr beats) \<Rightarrow> Some beats | _ \<Rightarrow> None)"

lemma wedge_tick_unseen: "seen_beats ob = None \<Longrightarrow> \<exists>w. wedge_tick ob ws = Inr (ws\<lparr>ws_probe_warned := w\<rparr>)"
  by (cases ws) (auto simp: seen_beats_def wedge_tick_def split: if_splits option.splits sum.splits)

lemma wedge_loop_snoc:
  "wedge_loop (obs @ [ob]) ws = (case wedge_loop obs ws of Inl w \<Rightarrow> Inl w | Inr ws' \<Rightarrow> wedge_tick ob ws')"
  by (induction obs arbitrary: ws) (auto split: sum.splits)

text \<open>What the watches know of the ticks so far: a tick that saw another completion count is not later
  than the last progress, and a remembered rejection was seen.\<close>

definition wedge_inv :: "nat \<Rightarrow> u64 \<Rightarrow> wedge_obs list \<Rightarrow> wedge_state \<Rightarrow> bool" where
  "wedge_inv n r0 obs ws \<longleftrightarrow>
     (if \<exists>ob\<in>set obs. seen_beats ob \<noteq> None then length (ws_watches ws) = n else ws_watches ws = [])
     \<and> (\<forall>ob\<in>set obs. \<forall>beats. seen_beats ob = Some beats \<longrightarrow>
          (\<forall>k<n. lb_completed (beats ! k) \<noteq> lw_completed (ws_watches ws ! k) \<longrightarrow> wo_now ob \<le> lw_progress_at (ws_watches ws ! k)))
     \<and> r0 \<le> ws_rejected ws
     \<and> (\<forall>t. ws_rejected_at ws = Some t \<longrightarrow> (\<exists>ob\<in>set obs. wo_now ob = t \<and> r0 < wo_rejected ob))"

text \<open>The watches a seen tick compares with: those of before, or fresh ones at the first.\<close>

lemma resized_watches:
  assumes "wedge_inv n r0 obs ws" "length beats = n" "k < n"
  shows "length (resize_with n w (ws_watches ws)) = n
    \<and> (\<forall>ob\<in>set obs. seen_beats ob \<noteq> None \<longrightarrow> resize_with n w (ws_watches ws) = ws_watches ws)"
  using assms by (auto simp: wedge_inv_def resize_with_def split: if_splits)

lemma wedge_inv_watch:
  assumes inv: "wedge_inv n r0 obs ws" and len: "length beats = n" and k: "k < n" and later: "\<forall>ob\<in>set obs. wo_now ob \<le> now"
    and ob: "ob \<in> set obs" "seen_beats ob = Some bs"
    and w: "w = beat_watch now (beats ! k) (resize_with n fresh (ws_watches ws) ! k)"
  shows "lb_completed (bs ! k) \<noteq> lw_completed w \<longrightarrow> wo_now ob \<le> lw_progress_at w"
proof -
  have same: "resize_with n fresh (ws_watches ws) = ws_watches ws" using resized_watches [OF inv len k] ob by auto
  have "lb_completed (bs ! k) \<noteq> lw_completed (ws_watches ws ! k) \<longrightarrow> wo_now ob \<le> lw_progress_at (ws_watches ws ! k)"
    using inv ob k by (auto simp: wedge_inv_def)
  then show ?thesis using w later ob(1) unfolding same by (auto simp: beat_watch_def)
qed

lemma wedge_tick_seen:
  assumes "seen_beats ob = Some beats"
  obtains r ra where "r = (if ws_rejected ws < wo_rejected ob then wo_rejected ob else ws_rejected ws)"
    "ra = (if ws_rejected ws < wo_rejected ob then Some (wo_now ob) else ws_rejected_at ws)"
    "wedge_tick ob ws =
       (case check_beats (wo_now ob) (map_option (\<lambda>t. ms_since t (wo_now ob)) ra) 0
          (zip beats (resize_with (length beats) \<lparr>lw_completed = 0, lw_progress_at = wo_now ob\<rparr> (ws_watches ws))) of
          Inl w \<Rightarrow> Inl w
        | Inr watches' \<Rightarrow> Inr (ws\<lparr>ws_watches := watches', ws_rejected := r, ws_rejected_at := ra,
                                ws_lag_ms := fold max (map lb_lag_ms beats) 0\<rparr>))"
proof -
  have "\<not> wo_shutdown ob" "wo_probe ob = Some (Inr beats)"
    using assms by (auto simp: seen_beats_def split: if_splits option.splits sum.splits)
  then show ?thesis by (intro that [OF refl refl]) (simp add: wedge_tick_def Let_def)
qed

lemma wedge_inv_tick:
  assumes inv: "wedge_inv n r0 obs ws" and tick: "wedge_tick ob ws = Inr ws'"
    and later: "\<forall>o'\<in>set obs. wo_now o' \<le> wo_now ob" and len: "\<forall>beats. seen_beats ob = Some beats \<longrightarrow> length beats = n"
  shows "wedge_inv n r0 (obs @ [ob]) ws'"
proof (cases "seen_beats ob")
  case None
  from wedge_tick_unseen [OF this, of ws] tick obtain w where "ws' = ws\<lparr>ws_probe_warned := w\<rparr>" by auto
  then show ?thesis using inv None by (auto simp: wedge_inv_def)
next
  case (Some beats)
  let ?fresh = "\<lparr>lw_completed = 0, lw_progress_at = wo_now ob\<rparr>"
  let ?old = "resize_with n ?fresh (ws_watches ws)"
  have n: "length beats = n" using len Some by simp
  from wedge_tick_seen [OF Some, of ws] obtain r ra where
    r: "r = (if ws_rejected ws < wo_rejected ob then wo_rejected ob else ws_rejected ws)"
    "ra = (if ws_rejected ws < wo_rejected ob then Some (wo_now ob) else ws_rejected_at ws)"
    and t: "wedge_tick ob ws = (case check_beats (wo_now ob) (map_option (\<lambda>t. ms_since t (wo_now ob)) ra) 0 (zip beats ?old) of
          Inl w \<Rightarrow> Inl w
        | Inr watches' \<Rightarrow> Inr (ws\<lparr>ws_watches := watches', ws_rejected := r, ws_rejected_at := ra,
                                ws_lag_ms := fold max (map lb_lag_ms beats) 0\<rparr>))"
    unfolding n by blast
  define W where "W = map (\<lambda>(b, w). beat_watch (wo_now ob) b w) (zip beats ?old)"
  have ws': "ws_watches ws' = W" "ws_rejected ws' = r" "ws_rejected_at ws' = ra"
    using t tick by (auto simp: W_def split: sum.splits dest: check_beats_Inr)
  have old_len: "length ?old = n" by (simp add: resize_with_def)
  have W: "length W = n" "k < n \<Longrightarrow> W ! k = beat_watch (wo_now ob) (beats ! k) (?old ! k)" for k
    using n old_len by (simp_all add: W_def)
  have now: "lb_completed (beats ! k) = lw_completed (W ! k)" if "k < n" for k
    using W(2) [OF that] by (simp add: beat_watch_def)
  have before: "lb_completed (bs ! k) \<noteq> lw_completed (W ! k) \<longrightarrow> wo_now o' \<le> lw_progress_at (W ! k)"
    if "o' \<in> set obs" "seen_beats o' = Some bs" "k < n" for o' bs k
    using wedge_inv_watch [OF inv n that(3) later that(1,2) W(2) [OF that(3)]] .
  have rej: "r0 \<le> r" "\<forall>t. ra = Some t \<longrightarrow> (\<exists>o'\<in>set (obs @ [ob]). wo_now o' = t \<and> r0 < wo_rejected o')"
    using inv r by (auto simp: wedge_inv_def)
  show ?thesis using W(1) now before rej Some unfolding wedge_inv_def ws' by auto
qed

lemma wedge_inv_loop:
  assumes "wedge_loop obs ws = Inr ws'" "sorted (map wo_now obs)" "ws_watches ws = []" "ws_rejected_at ws = None"
    and "\<forall>ob\<in>set obs. \<forall>beats. seen_beats ob = Some beats \<longrightarrow> length beats = n"
  shows "wedge_inv n (ws_rejected ws) obs ws'"
  using assms
proof (induction obs arbitrary: ws' rule: rev_induct)
  case Nil
  then show ?case by (simp add: wedge_inv_def)
next
  case (snoc ob obs)
  then obtain ws1 where ws1: "wedge_loop obs ws = Inr ws1" "wedge_tick ob ws1 = Inr ws'"
    by (auto simp: wedge_loop_snoc split: sum.splits)
  show ?case
    by (rule wedge_inv_tick [OF snoc.IH [OF ws1(1)] ws1(2)]) (use snoc.prems in \<open>auto simp: sorted_append\<close>)
qed



end
