(* ===== verification/Assoc.thy ===== *)
theory Assoc
  imports Prelude "HOL-Library.AList" "HOL-Library.Multiset"
begin

section \<open>Association lists as tables\<close>

text \<open>Lemmas on tables with distinct keys that the cpu pool and the Python runtime share: a new key goes to
  the end, and removing a key removes exactly its value.\<close>

lemma update_fresh: "k \<notin> set (map fst ps) \<Longrightarrow> AList.update k v ps = ps @ [(k, v)]"
  by (induction ps) auto

lemma delete_absent: "map_of ps k = None \<Longrightarrow> AList.delete k ps = ps"
  unfolding AList.delete_eq by (force simp: filter_id_conv map_of_eq_None_iff)

lemma mset_delete:
  assumes "distinct (map fst ps)" "map_of ps k = Some x"
  shows "mset (map snd ps) = add_mset x (mset (map snd (AList.delete k ps)))"
  using assms
proof (induction ps)
  case (Cons p ps)
  show ?case
  proof (cases "fst p = k")
    case True
    then have "map_of ps k = None" using Cons.prems(1) by (auto simp: map_of_eq_None_iff)
    from delete_absent [OF this] show ?thesis using True Cons.prems by (cases p) (auto simp: AList.delete_eq)
  next
    case False
    then show ?thesis using Cons by (cases p) (auto simp: AList.delete_eq)
  qed
qed simp

end
