(* ===== verification/Cpu.thy ===== *)
theory Cpu
  imports Exec Startup Assoc
begin

section \<open>The cpu pool (cpu.rs)\<close>

text \<open>
  The pool of child processes for cpu tasks: its sizes, the handshakes with the fork server and with
  a child, the loop that serves one child connection, the loops that replace children, and the stdio
  fallback. \<open>serve_child\<close> is a \<open>select!\<close> loop: one turn is \<open>serve_step\<close> on the event that completed,
  with the guards of the branches (an event whose guard is false gives \<open>None\<close>); times are milliseconds
  of the monotonic clock. The answer channel of a job is the token \<open>cj_resp\<close>; replies, gauge updates and
  signals are effects.
\<close>

subsection \<open>Jobs and the pool\<close>

definition READY_TIMEOUT_MS :: nat where
  "READY_TIMEOUT_MS = 30000"

definition FORK_WAIT_MS :: nat where
  "FORK_WAIT_MS = 60000"

record cpu_job =
  cj_id :: string
  cj_req_line :: string
  cj_timeout_ms :: u64
  cj_resp :: nat

text \<open>The numbers a pool is built with, and how its children are launched.\<close>

record cpu_pool =
  cp_channel :: nat
  cp_open :: bool
  cp_admission :: nat
  cp_fork_server :: bool

definition cpu_child_argv :: "string \<Rightarrow> string \<Rightarrow> string \<times> string list" where
  "cpu_child_argv python app = (python, [''-m'', ''cauli._exec'', ''--app'', app])"

definition parent_argv :: "string list \<Rightarrow> string \<Rightarrow> nat \<Rightarrow> string list" where
  "parent_argv argv sock_path child_threads =
     argv @ [''--fork-server'', ''--connect'', sock_path, ''--child-threads'', show_nat child_threads]"

definition cpu_disabled :: cpu_pool where
  "cpu_disabled = \<lparr>cp_channel = 1, cp_open = False, cp_admission = 1, cp_fork_server = False\<rparr>"

text \<open>\<open>start\<close>: \<open>fork_ok\<close> tells whether the fork server came up. Sizes are 64 bit: the channel size is a
  plain product, the admission a saturating one.\<close>

definition cpu_start :: "start_cfg \<Rightarrow> bool \<Rightarrow> cpu_pool" where
  "cpu_start cfg fork_ok =
     (let child_threads = max (sc_child_threads cfg) 1;
          cap = max ((2 * sc_workers cfg * child_threads) mod 2 ^ 64) 1
      in \<lparr>cp_channel = cap, cp_open = True,
          cp_admission = max (min (sc_workers cfg * min (child_threads + sc_prefetch cfg) (2 ^ 64 - 1)) (2 ^ 64 - 1)) 1,
          cp_fork_server = (\<not> sc_no_fork_server cfg \<and> fork_ok)\<rparr>)"

text \<open>\<open>Ctx::cpu_pool\<close> (ctx.rs): the cell is filled once, by the first cpu task or at boot.\<close>

definition ctx_cpu_pool :: "start_cfg option \<Rightarrow> bool \<Rightarrow> cpu_pool option \<Rightarrow> cpu_pool \<times> cpu_pool option" where
  "ctx_cpu_pool cfg fork_ok cell =
     (case cell of
        Some p \<Rightarrow> (p, Some p)
      | None \<Rightarrow> (let p = (case cfg of Some c \<Rightarrow> cpu_start c fork_ok | None \<Rightarrow> cpu_disabled) in (p, Some p)))"

definition track_pid :: "nat \<Rightarrow> bool \<Rightarrow> nat list \<Rightarrow> nat list" where
  "track_pid pid add pids = (if add then pids @ [pid] else filter (\<lambda>p. p \<noteq> pid) pids)"

text \<open>The pids a kill really signals.\<close>

definition kill_pid :: "nat \<Rightarrow> nat list" where
  "kill_pid pid = (if pid \<le> 1 then [] else [pid])"

definition kill_children :: "nat list \<Rightarrow> nat list" where
  "kill_children pids = concat (map kill_pid pids)"

subsection \<open>Handshakes\<close>

text \<open>Indexing of a parsed value, and \<open>as_u64\<close>.\<close>

definition jget :: "jval \<Rightarrow> string \<Rightarrow> jval" where
  "jget v k = (case v of JObj ms \<Rightarrow> (case map_of (rev ms) k of Some x \<Rightarrow> x | None \<Rightarrow> JNull) | _ \<Rightarrow> JNull)"

definition jhas :: "jval \<Rightarrow> string \<Rightarrow> bool" where
  "jhas v k = (case v of JObj ms \<Rightarrow> map_of (rev ms) k \<noteq> None | _ \<Rightarrow> False)"

definition as_u64 :: "jval \<Rightarrow> u64 option" where
  "as_u64 v = (case v of JNum n \<Rightarrow> parse_u64 n | _ \<Rightarrow> None)"

text \<open>A line within the handshake budget, or none (timeout, read error, end of file).\<close>

definition server_ready :: "json_lib \<Rightarrow> string option \<Rightarrow> bool" where
  "server_ready L line =
     (case line of None \<Rightarrow> False
      | Some l \<Rightarrow> (case jl_tree L l of None \<Rightarrow> False | Some v \<Rightarrow> jget v ''server'' = JBool True))"

datatype fork_result = Forked u32 | Refused string

definition fork_reply :: "json_lib \<Rightarrow> string option \<Rightarrow> fork_result option" where
  "fork_reply L line =
     (case line of
        None \<Rightarrow> None
      | Some l \<Rightarrow>
          (case jl_tree L l of
             None \<Rightarrow> None
           | Some v \<Rightarrow>
               (case as_u64 (jget v ''forked'') of
                  Some p \<Rightarrow>
                    if p > 1 then Some (Forked (ucast p))
                    else if jhas v ''error'' then Some (Refused (case jget v ''error'' of JStr e \<Rightarrow> e | e \<Rightarrow> jl_show L e)) else None
                | None \<Rightarrow>
                    if jhas v ''error'' then Some (Refused (case jget v ''error'' of JStr e \<Rightarrow> e | e \<Rightarrow> jl_show L e)) else None)))"

record child_conn =
  cc_pid :: u32
  cc_concurrency :: nat

datatype ready_error = WrongUid | NoReadyLine | Unparseable | NotReady | NoPid

text \<open>\<open>peer_pid\<close> is the kernel's answer, a signed process id if it has one.\<close>

definition read_child_ready :: "json_lib \<Rightarrow> nat \<Rightarrow> nat \<Rightarrow> int option \<Rightarrow> string option \<Rightarrow> nat \<Rightarrow> (ready_error, child_conn) result" where
  "read_child_ready L our_uid peer_uid peer_pid line child_threads =
     (if peer_uid \<noteq> our_uid then Inl WrongUid
      else case line of
        None \<Rightarrow> Inl NoReadyLine
      | Some l \<Rightarrow>
          (case jl_tree L l of
             None \<Rightarrow> Inl Unparseable
           | Some v \<Rightarrow>
               if jget v ''ready'' \<noteq> JBool True then Inl NotReady
               else
                 (let claimed = (case as_u64 (jget v ''pid'') of Some p \<Rightarrow> (if p > 1 then Some (ucast p :: u32) else None) | None \<Rightarrow> None);
                      kernel = (case peer_pid of
                                  Some p \<Rightarrow> (if 1 < p \<and> p < 2 ^ 32 then Some (word_of_int p :: u32) else None)
                                | None \<Rightarrow> None);
                      pid = (case kernel of Some p \<Rightarrow> Some p | None \<Rightarrow> claimed);
                      wanted = (case as_u64 (jget v ''concurrency'') of Some c \<Rightarrow> unat (max c 1) | None \<Rightarrow> 1)
                  in case pid of
                       None \<Rightarrow> Inl NoPid
                     | Some p \<Rightarrow> Inr \<lparr>cc_pid = p, cc_concurrency = min wanted child_threads\<rparr>)))"

subsection \<open>Serving a child\<close>

record serve_cfg =
  sg_concurrency :: nat
  sg_prefetch :: nat
  sg_recycle :: nat

record pend =
  pd_resp :: nat
  pd_timeout_ms :: u64
  pd_deadline :: "nat option"

record pending_write =
  pw_id :: string
  pw_buf :: string
  pw_sent :: nat
  pw_resp :: nat
  pw_timeout_ms :: u64
  pw_budget :: nat

record serve =
  sh_pending :: "(string \<times> pend) list"
  sh_order :: "string list"
  sh_completed :: nat
  sh_write :: "pending_write option"
  sh_stall :: "nat option"
  sh_idle :: bool

datatype child_gone = Exited_child | HardTimeout | Wedged | Recycled | ShutdownGone

datatype serve_exit = ServeShutdown | ServeRecycled | ServeDied

datatype cpu_effect = Replied nat cpu_outcome | CpuEnter | CpuLeave | IdleAdd | IdleRemove | Killed nat | UnknownId

datatype serve_event = LineIn string | ReadClosed | JobIn cpu_job | JobsClosed | Wrote nat | WriteError
  | DeadlineFired | StallFired | IdleDropped

text \<open>One turn: the time at the top of the loop, the number of idle slots read there, the branch that
  completed and when.\<close>

record turn =
  tu_top :: nat
  tu_idle_slots :: nat
  tu_event :: serve_event
  tu_now :: nat

definition INSTANT_MAX_MS :: nat where
  "INSTANT_MAX_MS = 2 ^ 63 * 1000"

definition deadline_for :: "nat \<Rightarrow> u64 \<Rightarrow> nat" where
  "deadline_for now timeout_ms =
     (if now + unat timeout_ms < INSTANT_MAX_MS then now + unat timeout_ms else now + 86400 * 365 * 1000)"

definition is_armed :: "pend \<Rightarrow> bool" where
  "is_armed p \<longleftrightarrow> pd_deadline p \<noteq> None"

fun arm_loop :: "nat \<Rightarrow> nat \<Rightarrow> string list \<Rightarrow> nat \<Rightarrow> (string \<times> pend) list \<Rightarrow> (string \<times> pend) list" where
  "arm_loop now concurrency [] armed ps = ps"
| "arm_loop now concurrency (i # is) armed ps =
     (if armed \<ge> concurrency then ps
      else case map_of ps i of
             None \<Rightarrow> arm_loop now concurrency is armed ps
           | Some p \<Rightarrow>
               if \<not> is_armed p
               then arm_loop now concurrency is (armed + 1)
                      (AList.update i (p\<lparr>pd_deadline := Some (deadline_for now (pd_timeout_ms p))\<rparr>) ps)
               else arm_loop now concurrency is armed ps)"

definition arm_started :: "nat \<Rightarrow> nat \<Rightarrow> string list \<Rightarrow> (string \<times> pend) list \<Rightarrow> (string \<times> pend) list" where
  "arm_started now concurrency order ps =
     arm_loop now concurrency order (length (filter (\<lambda>p. is_armed (snd p)) ps)) ps"

definition next_deadline :: "(string \<times> pend) list \<Rightarrow> nat option" where
  "next_deadline ps =
     (case List.map_filter (\<lambda>p. pd_deadline (snd p)) ps of [] \<Rightarrow> None | d # ds \<Rightarrow> Some (fold min ds d))"

text \<open>\<open>IdOnly\<close>: the \<open>id\<close> member of a response line, borrowed from the line, which an escape prevents.\<close>

definition de_borrowed :: "json_lib \<Rightarrow> string \<Rightarrow> string option" where
  "de_borrowed L raw = (if CHR 0x5C \<in> set raw then None else de_string L raw)"

definition id_only :: "json_lib \<Rightarrow> string \<Rightarrow> string option" where
  "id_only L l =
     do {
       ms \<leftarrow> struct_members L [''id''] l;
       i \<leftarrow> field ms ''id'' (de_opt L de_borrowed) (Some None);
       i
     }"

definition in_child :: "serve \<Rightarrow> nat" where
  "in_child st = length (sh_pending st) + (if sh_write st = None then 0 else 1)"

text \<open>The top of the loop: the idle slot count follows \<open>pending\<close>, and a write with nothing in flight to
  excuse it starts to count as stalled.\<close>

definition serve_top :: "serve_cfg \<Rightarrow> nat \<Rightarrow> serve \<Rightarrow> serve \<times> cpu_effect list" where
  "serve_top cfg now st =
     (let now_idle = in_child st < sg_concurrency cfg;
          eff = (if now_idle = sh_idle st then [] else if now_idle then [IdleAdd] else [IdleRemove]);
          stall = (if sh_write st \<noteq> None \<and> next_deadline (sh_pending st) = None
                   then Some (case sh_stall st of Some t \<Rightarrow> t | None \<Rightarrow> now) else None)
      in (st\<lparr>sh_idle := now_idle, sh_stall := stall\<rparr>, eff))"

definition may_admit :: "nat \<Rightarrow> serve \<Rightarrow> bool" where
  "may_admit idle_slots st \<longleftrightarrow> sh_idle st \<or> idle_slots = 0"

definition write_fallback_at :: "serve \<Rightarrow> nat option" where
  "write_fallback_at st =
     (case (sh_stall st, sh_write st) of (Some since, Some pw) \<Rightarrow> Some (since + pw_budget pw) | _ \<Rightarrow> None)"

text \<open>The guards of the branches.\<close>

definition enabled :: "serve_cfg \<Rightarrow> turn \<Rightarrow> serve \<Rightarrow> bool" where
  "enabled cfg tu st =
     (let intake = sh_write st = None
                   \<and> length (sh_pending st) < sg_concurrency cfg + sg_prefetch cfg
                   \<and> may_admit (tu_idle_slots tu) st
                   \<and> (sg_recycle cfg = 0 \<or> sh_completed st + length (sh_pending st) < sg_recycle cfg)
      in case tu_event tu of
           LineIn _ \<Rightarrow> True
         | ReadClosed \<Rightarrow> True
         | JobIn _ \<Rightarrow> intake
         | JobsClosed \<Rightarrow> intake
         | Wrote _ \<Rightarrow> sh_write st \<noteq> None
         | WriteError \<Rightarrow> sh_write st \<noteq> None
         | DeadlineFired \<Rightarrow> (case next_deadline (sh_pending st) of None \<Rightarrow> False | Some d \<Rightarrow> d \<le> tu_now tu)
         | StallFired \<Rightarrow> (case write_fallback_at st of None \<Rightarrow> False | Some d \<Rightarrow> d \<le> tu_now tu)
         | IdleDropped \<Rightarrow> \<not> may_admit (tu_idle_slots tu) st)"

definition on_line :: "json_lib \<Rightarrow> serve_cfg \<Rightarrow> nat \<Rightarrow> string \<Rightarrow> serve \<Rightarrow> serve \<times> cpu_effect list \<times> child_gone option" where
  "on_line L cfg now l st =
     (case id_only L l of
        None \<Rightarrow> (st, [UnknownId], None)
      | Some i \<Rightarrow>
          (case map_of (sh_pending st) i of
             None \<Rightarrow> (st, [UnknownId], None)
           | Some p \<Rightarrow>
               (let ps = AList.delete i (sh_pending st);
                    order = filter (\<lambda>x. x \<noteq> i) (sh_order st);
                    ps = arm_started now (sg_concurrency cfg) order ps;
                    completed = sh_completed st + 1;
                    st' = st\<lparr>sh_pending := ps, sh_order := order, sh_completed := completed\<rparr>
                in (st', [Replied (pd_resp p) (Resp l), CpuLeave],
                    if sg_recycle cfg > 0 \<and> completed \<ge> sg_recycle cfg \<and> ps = [] then Some Recycled else None))))"

definition on_job :: "cpu_job \<Rightarrow> serve \<Rightarrow> serve" where
  "on_job job st =
     st\<lparr>sh_write := Some \<lparr>pw_id = cj_id job, pw_buf = cj_req_line job @ [CHR 0x0A], pw_sent = 0, pw_resp = cj_resp job,
          pw_timeout_ms = cj_timeout_ms job, pw_budget = min (unat (cj_timeout_ms job)) 5000\<rparr>\<rparr>"

definition on_written :: "serve_cfg \<Rightarrow> nat \<Rightarrow> nat \<Rightarrow> pending_write \<Rightarrow> serve \<Rightarrow> serve \<times> cpu_effect list \<times> child_gone option" where
  "on_written cfg now n pw st =
     (if n = 0 then (st\<lparr>sh_write := None\<rparr>, [Replied (pw_resp pw) Lost], Some Exited_child)
      else let sent = pw_sent pw + n
           in if sent < length (pw_buf pw) then (st\<lparr>sh_write := Some (pw\<lparr>pw_sent := sent\<rparr>)\<rparr>, [], None)
              else let order = sh_order st @ [pw_id pw];
                       ps = AList.update (pw_id pw)
                              \<lparr>pd_resp = pw_resp pw, pd_timeout_ms = pw_timeout_ms pw, pd_deadline = None\<rparr> (sh_pending st)
                   in (st\<lparr>sh_write := None, sh_order := order, sh_pending := arm_started now (sg_concurrency cfg) order ps\<rparr>,
                       [CpuEnter], None))"

definition serve_step :: "json_lib \<Rightarrow> serve_cfg \<Rightarrow> turn \<Rightarrow> serve \<Rightarrow> (serve \<times> cpu_effect list \<times> child_gone option) option" where
  "serve_step L cfg tu st0 =
     (let (st, eff) = serve_top cfg (tu_top tu) st0
      in if \<not> enabled cfg tu st then None
         else let (st', eff', why) =
                (case tu_event tu of
                   LineIn l \<Rightarrow> on_line L cfg (tu_now tu) l st
                 | ReadClosed \<Rightarrow> (st, [], Some Exited_child)
                 | JobIn job \<Rightarrow> (on_job job st, [], None)
                 | JobsClosed \<Rightarrow> (st, [], Some ShutdownGone)
                 | Wrote n \<Rightarrow> (case sh_write st of None \<Rightarrow> (st, [], None) | Some pw \<Rightarrow> on_written cfg (tu_now tu) n pw st)
                 | WriteError \<Rightarrow>
                     (case sh_write st of None \<Rightarrow> (st, [], None)
                      | Some pw \<Rightarrow> (st\<lparr>sh_write := None\<rparr>, [Replied (pw_resp pw) Lost], Some Exited_child))
                 | DeadlineFired \<Rightarrow> (st, [], Some HardTimeout)
                 | StallFired \<Rightarrow> (st, [], Some Wedged)
                 | IdleDropped \<Rightarrow> (st, [], None))
              in Some (st', eff @ eff', why))"

fun serve_loop :: "json_lib \<Rightarrow> serve_cfg \<Rightarrow> turn list \<Rightarrow> serve \<Rightarrow> (serve \<times> cpu_effect list \<times> child_gone option) option" where
  "serve_loop L cfg [] st = Some (st, [], None)"
| "serve_loop L cfg (tu # tus) st =
     (case serve_step L cfg tu st of
        None \<Rightarrow> None
      | Some (st', eff, Some why) \<Rightarrow> (if tus = [] then Some (st', eff, Some why) else None)
      | Some (st', eff, None) \<Rightarrow>
          (case serve_loop L cfg tus st' of
             None \<Rightarrow> None
           | Some (st'', eff', why) \<Rightarrow> Some (st'', eff @ eff', why)))"

text \<open>After the loop: kill unless the child is gone already, answer what is left, return the idle slot.\<close>

definition drain_outcome :: "child_gone \<Rightarrow> nat \<Rightarrow> pend \<Rightarrow> cpu_outcome" where
  "drain_outcome why now p =
     (if why = HardTimeout \<and> (case pd_deadline p of None \<Rightarrow> False | Some d \<Rightarrow> d \<le> now) then Timeout else Lost)"

definition serve_end :: "child_gone \<Rightarrow> nat \<Rightarrow> nat \<Rightarrow> serve \<Rightarrow> cpu_effect list" where
  "serve_end why pid now st =
     (if why = Exited_child then [] else map Killed (kill_pid pid))
     @ (case sh_write st of None \<Rightarrow> [] | Some pw \<Rightarrow> [Replied (pw_resp pw) Lost])
     @ concat (map (\<lambda>(_, p). [Replied (pd_resp p) (drain_outcome why now p), CpuLeave]) (sh_pending st))
     @ (if sh_idle st then [] else [IdleAdd])"

definition serve_exit_of :: "child_gone \<Rightarrow> serve_exit" where
  "serve_exit_of why =
     (case why of ShutdownGone \<Rightarrow> ServeShutdown | Recycled \<Rightarrow> ServeRecycled | _ \<Rightarrow> ServeDied)"

definition serve_start :: serve where
  "serve_start = \<lparr>sh_pending = [], sh_order = [], sh_completed = 0, sh_write = None, sh_stall = None, sh_idle = True\<rparr>"

definition serve_child :: "json_lib \<Rightarrow> serve_cfg \<Rightarrow> nat \<Rightarrow> turn list \<Rightarrow> nat \<Rightarrow> (serve_exit \<times> cpu_effect list) option" where
  "serve_child L cfg pid tus now =
     (case serve_loop L cfg tus serve_start of
        Some (st, eff, Some why) \<Rightarrow> Some (serve_exit_of why, eff @ serve_end why pid now st)
      | _ \<Rightarrow> None)"

subsection \<open>Replacing children\<close>

definition BACKOFF_START_MS :: nat where
  "BACKOFF_START_MS = 100"

definition next_backoff :: "nat \<Rightarrow> nat" where
  "next_backoff backoff = min (backoff * 2) 2000"

text \<open>What a slot meets after it asks for a fork: no control loop any more, nobody connected in time, the
  channel of connections closed, or a child served until it was gone.\<close>

datatype slot_input = ForkChannelClosed | ConnChannelClosed | NoChildInTime | Served serve_exit

text \<open>The pauses the slot makes, and whether it ended. It counts as idle from its start to its end.\<close>

fun slot_rounds :: "nat \<Rightarrow> slot_input list \<Rightarrow> nat list \<times> bool" where
  "slot_rounds backoff [] = ([], False)"
| "slot_rounds backoff (inp # rest) =
     (case inp of
        ForkChannelClosed \<Rightarrow> ([], True)
      | ConnChannelClosed \<Rightarrow> ([], True)
      | NoChildInTime \<Rightarrow> slot_rounds backoff rest
      | Served ServeShutdown \<Rightarrow> ([], True)
      | Served ServeRecycled \<Rightarrow> slot_rounds BACKOFF_START_MS rest
      | Served ServeDied \<Rightarrow> (let (ps, ended) = slot_rounds (next_backoff backoff) rest in (backoff # ps, ended)))"

definition slot_loop :: "slot_input list \<Rightarrow> nat list \<times> cpu_effect list \<times> bool" where
  "slot_loop inputs =
     (let (pauses, ended) = slot_rounds BACKOFF_START_MS inputs
      in (pauses, IdleAdd # (if ended then [IdleRemove] else []), ended))"

text \<open>The fork server's parent: what a fork request meets, and the attempts to bring up a new parent.\<close>

datatype respawn_try = SpawnFail | NotReadyYet nat | ParentReady nat

datatype control_effect = ForkedChild u32 | Pause nat | KillParent nat | TrackParent nat | UntrackParent nat

fun respawn_parent :: "respawn_try list \<Rightarrow> nat option \<times> control_effect list \<times> respawn_try list" where
  "respawn_parent [] = (None, [], [])"
| "respawn_parent (t # ts) =
     (case t of
        ParentReady pid \<Rightarrow> (Some pid, [Pause 1000, TrackParent pid], ts)
      | NotReadyYet pid \<Rightarrow> (let (r, eff, rest) = respawn_parent ts in (r, Pause 1000 # KillParent pid # eff, rest))
      | SpawnFail \<Rightarrow> (let (r, eff, rest) = respawn_parent ts in (r, Pause 1000 # eff, rest)))"

text \<open>One request of a slot: replies of the parent in order (\<open>None\<close>: the control channel broke). The
  result is the parent it ends with, if the request was served.\<close>

fun control_request :: "nat \<Rightarrow> nat \<Rightarrow> fork_result option list \<Rightarrow> respawn_try list
    \<Rightarrow> nat option \<times> control_effect list \<times> respawn_try list" where
  "control_request parent backoff [] tries = (None, [], tries)"
| "control_request parent backoff (r # rs) tries =
     (case r of
        Some (Forked pid) \<Rightarrow> (Some parent, [ForkedChild pid], tries)
      | Some (Refused _) \<Rightarrow>
          (let (p, eff, tries') = control_request parent (next_backoff backoff) rs tries
           in (p, Pause backoff # eff, tries'))
      | None \<Rightarrow>
          (case respawn_parent tries of
             (None, eff, tries') \<Rightarrow> (None, KillParent parent # UntrackParent parent # eff, tries')
           | (Some parent', eff, tries') \<Rightarrow>
               (let (p, eff2, tries'') = control_request parent' backoff rs tries'
                in (p, KillParent parent # UntrackParent parent # eff @ eff2, tries''))))"

subsection \<open>The stdio fallback\<close>

text \<open>One child's life: each job with what its exchange met.\<close>

datatype stdio_exchange = StdioWriteFailed | StdioLine string | StdioClosed | StdioTimedOut

datatype stdio_end = StdioRecycled | StdioDied | StdioShutdown | StdioRunning

definition stdio_ready :: "json_lib \<Rightarrow> string option \<Rightarrow> bool" where
  "stdio_ready L line =
     (case line of None \<Rightarrow> False
      | Some l \<Rightarrow> (case jl_tree L l of None \<Rightarrow> False | Some v \<Rightarrow> jget v ''ready'' = JBool True))"

fun stdio_serve :: "nat \<Rightarrow> nat \<Rightarrow> (cpu_job \<times> stdio_exchange) option list \<Rightarrow> cpu_effect list \<times> stdio_end \<times> (cpu_job \<times> stdio_exchange) option list" where
  "stdio_serve recycle completed [] = ([], StdioRunning, [])"
| "stdio_serve recycle completed (None # rest) = ([], StdioShutdown, rest)"
| "stdio_serve recycle completed (Some (job, x) # rest) =
     (case x of
        StdioWriteFailed \<Rightarrow> ([CpuEnter, Replied (cj_resp job) Lost, CpuLeave], StdioDied, rest)
      | StdioClosed \<Rightarrow> ([CpuEnter, Replied (cj_resp job) Lost, CpuLeave], StdioDied, rest)
      | StdioTimedOut \<Rightarrow> ([CpuEnter, Replied (cj_resp job) Timeout, CpuLeave], StdioDied, rest)
      | StdioLine l \<Rightarrow>
          (let eff = [CpuEnter, Replied (cj_resp job) (Resp l), CpuLeave]
           in if recycle > 0 \<and> completed + 1 \<ge> recycle then (eff, StdioRecycled, rest)
              else let (eff', e, rest') = stdio_serve recycle (completed + 1) rest in (eff @ eff', e, rest')))"

text \<open>The loop over children: failed starts and what each life ended with; its pauses.\<close>

datatype stdio_life = StdioSpawnFailed | StdioNotReady | StdioLived stdio_end

fun stdio_lives :: "nat \<Rightarrow> stdio_life list \<Rightarrow> nat list \<times> bool" where
  "stdio_lives backoff [] = ([], False)"
| "stdio_lives backoff (x # xs) =
     (case x of
        StdioSpawnFailed \<Rightarrow> (let (ps, e) = stdio_lives backoff xs in (1000 # ps, e))
      | StdioNotReady \<Rightarrow> (let (ps, e) = stdio_lives backoff xs in (1000 # ps, e))
      | StdioLived StdioDied \<Rightarrow> (let (ps, e) = stdio_lives (next_backoff backoff) xs in (backoff # ps, e))
      | StdioLived StdioRecycled \<Rightarrow> stdio_lives BACKOFF_START_MS xs
      | StdioLived StdioShutdown \<Rightarrow> ([], True)
      | StdioLived StdioRunning \<Rightarrow> ([], False))"

section \<open>Correctness of the pool\<close>

subsection \<open>The clock of a request starts when it starts\<close>

text \<open>Exactly the first \<open>n\<close> requests in send order are running.\<close>

definition staged :: "nat \<Rightarrow> (string \<times> pend) list \<Rightarrow> bool" where
  "staged n ps \<longleftrightarrow> (\<forall>x\<in>set (take n ps). is_armed (snd x)) \<and> (\<forall>x\<in>set (drop n ps). \<not> is_armed (snd x))"

definition arm_one :: "nat \<Rightarrow> string \<times> pend \<Rightarrow> string \<times> pend" where
  "arm_one now x = (fst x, (snd x)\<lparr>pd_deadline := Some (deadline_for now (pd_timeout_ms (snd x)))\<rparr>)"

lemma update_middle: "k \<notin> set (map fst xs) \<Longrightarrow> AList.update k v (xs @ (k, w) # ys) = xs @ (k, v) # ys"
  by (induction xs) auto

lemma arm_loop_running_at:
  assumes "distinct (map fst (xs @ ys))" "\<forall>x\<in>set xs. is_armed (snd x)"
  shows "arm_loop now c (map fst xs @ is) n (xs @ ys) = (if n \<ge> c then xs @ ys else arm_loop now c is n (xs @ ys))"
proof -
  have "arm_loop now c (map fst zs @ is) n (xs @ ys) = (if n \<ge> c then xs @ ys else arm_loop now c is n (xs @ ys))"
    if "set zs \<subseteq> set xs" for zs
    using that
  proof (induction zs)
    case Nil
    then show ?case by (cases "is") auto
  next
    case (Cons z zs)
    have "is_armed (snd z)" using Cons.prems assms(2) by simp
    moreover have "map_of (xs @ ys) (fst z) = Some (snd z)"
      using Cons.prems by (subst map_of_eq_Some_iff [OF assms(1)]) simp
    ultimately show ?case using Cons by simp
  qed
  from this [OF subset_refl] show ?thesis .
qed

lemma arm_loop_waiting:
  assumes "distinct (map fst (xs @ ys))" "\<forall>y\<in>set ys. \<not> is_armed (snd y)"
  shows "arm_loop now c (map fst ys) n (xs @ ys) = xs @ map (arm_one now) (take (c - n) ys) @ drop (c - n) ys"
  using assms
proof (induction ys arbitrary: xs n)
  case (Cons y ys)
  obtain k p where y: "y = (k, p)" by fastforce
  have k: "k \<notin> set (map fst xs)" using Cons.prems(1) y by auto
  have mk: "map_of (xs @ y # ys) k = Some p"
    using y by (subst map_of_eq_Some_iff [OF Cons.prems(1)]) simp
  show ?case
  proof (cases "c \<le> n")
    case False
    then obtain m where m: "c - n = Suc m" "c - Suc n = m" by (cases "c - n") auto
    have "arm_loop now c (map fst (y # ys)) n (xs @ y # ys) = arm_loop now c (map fst ys) (Suc n) ((xs @ [arm_one now y]) @ ys)"
      using False k mk Cons.prems(2) y by (simp add: update_middle arm_one_def del: map_of_append)
    also have "\<dots> = (xs @ [arm_one now y]) @ map (arm_one now) (take m ys) @ drop m ys"
      using Cons.IH [of "xs @ [arm_one now y]" "Suc n"] Cons.prems y m by (simp add: arm_one_def)
    finally show ?thesis using m by simp
  qed simp
qed simp

text \<open>The optimised routine against its meaning: given that the first \<open>a\<close> requests run, arming makes it
  the first \<open>concurrency\<close>, each new one from now on.\<close>

lemma arm_started_prefix:
  assumes "distinct (map fst ps)" "staged a ps" "a \<le> c"
  shows "arm_started now c (map fst ps) ps = take a ps @ map (arm_one now) (take (c - a) (drop a ps)) @ drop c ps"
proof -
  let ?xs = "take a ps" and ?ys = "drop a ps"
  have armed: "\<forall>x\<in>set ?xs. is_armed (snd x)" "\<forall>y\<in>set ?ys. \<not> is_armed (snd y)"
    using assms(2) by (auto simp: staged_def)
  have n: "length (filter (\<lambda>p. is_armed (snd p)) ps) = min a (length ps)"
    using armed by (subst append_take_drop_id [of a ps, symmetric], subst filter_append)
      (simp add: filter_id_conv [THEN iffD2] filter_empty_conv [THEN iffD2] min.commute)
  have d: "distinct (map fst (?xs @ ?ys))" using assms(1) by simp
  have "arm_started now c (map fst ps) ps = arm_loop now c (map fst ?xs @ map fst ?ys) (min a (length ps)) (?xs @ ?ys)"
    unfolding arm_started_def n by (simp flip: map_append)
  also have "\<dots> = (if c \<le> min a (length ps) then ?xs @ ?ys
      else ?xs @ map (arm_one now) (take (c - min a (length ps)) ?ys) @ drop (c - min a (length ps)) ?ys)"
    by (subst arm_loop_running_at [OF d armed(1)], subst arm_loop_waiting [OF d armed(2)]) (rule refl)
  finally show ?thesis
    using assms(3) by (cases "a \<le> length ps") (auto simp: min_def)
qed

lemma arm_one_simps [simp]:
  "fst (arm_one now x) = fst x" "pd_resp (snd (arm_one now x)) = pd_resp (snd x)" "is_armed (snd (arm_one now x))"
  by (simp_all add: arm_one_def is_armed_def)

lemma arm_started_staged:
  assumes "distinct (map fst ps)" "staged a ps" "a \<le> c"
  shows "map fst (arm_started now c (map fst ps) ps) = map fst ps
    \<and> map (pd_resp \<circ> snd) (arm_started now c (map fst ps) ps) = map (pd_resp \<circ> snd) ps
    \<and> staged c (arm_started now c (map fst ps) ps)"
proof -
  let ?r = "take a ps @ map (arm_one now) (take (c - a) (drop a ps)) @ drop c ps"
  have split: "ps = take a ps @ take (c - a) (drop a ps) @ drop c ps"
    using assms(3) by (metis add_diff_inverse_nat append_take_drop_id drop_drop le_antisym not_le nat_less_le add.commute)
  have "map f ?r = map f ps" if "\<And>x. f (arm_one now x) = f x" for f :: "string \<times> pend \<Rightarrow> 'b"
  proof -
    have "map f ?r = map f (take a ps @ take (c - a) (drop a ps) @ drop c ps)" by (simp add: that)
    then show ?thesis using split by simp
  qed
  note keep = this
  have "staged c ?r"
  proof (cases "c \<le> length ps")
    case True
    then have "length (take a ps @ map (arm_one now) (take (c - a) (drop a ps))) = c" using assms(3) by simp
    then have "take c ?r = take a ps @ map (arm_one now) (take (c - a) (drop a ps))" "drop c ?r = drop c ps"
      using assms(3) unfolding append_assoc [symmetric] by (simp_all add: min_absorb2)
    moreover have "set (drop c ps) \<subseteq> set (drop a ps)" using assms(3) by (rule set_drop_subset_set_drop)
    ultimately show ?thesis using assms(2) unfolding staged_def by auto
  next
    case False
    then have "drop c ?r = []" "take c ?r = ?r" using assms(3) by auto
    moreover have "drop c ps = []" using False by simp
    ultimately show ?thesis using assms(2) unfolding staged_def by (auto simp del: take_append drop_append)
  qed
  then show ?thesis using keep [of fst] keep [of "pd_resp \<circ> snd"] unfolding arm_started_prefix [OF assms] by simp
qed

lemma staged_remove:
  assumes "staged c (xs @ z # ys)"
  shows "\<exists>a \<le> c. staged a (xs @ ys)"
proof (cases "length xs < c")
  case True
  then obtain m where m: "c - length xs = Suc m" "c - 1 - length xs = m" by (cases "c - length xs") auto
  then have "staged (c - 1) (xs @ ys)" using assms True by (auto simp: staged_def)
  then show ?thesis by (intro exI [of _ "c - 1"]) simp
next
  case False
  then have "c - length xs = 0" by simp
  then have "staged c (xs @ ys)" using assms by (auto simp: staged_def)
  then show ?thesis by auto
qed

lemma staged_append:
  assumes "staged c ps" "\<not> is_armed (snd z)"
  shows "\<exists>a \<le> c. staged a (ps @ [z])"
proof (cases "length ps < c")
  case True
  then have "staged (length ps) (ps @ [z])" using assms by (auto simp: staged_def)
  then show ?thesis using True by (intro exI [of _ "length ps"]) simp
next
  case False
  then show ?thesis using assms by (intro exI [of _ c]) (auto simp: staged_def)
qed

subsection \<open>The invariant of a connection\<close>

text \<open>What the loop owes: an answer to every request in the child and to the one being written.\<close>

definition owed :: "serve \<Rightarrow> nat list" where
  "owed st = map (pd_resp \<circ> snd) (sh_pending st) @ (case sh_write st of None \<Rightarrow> [] | Some pw \<Rightarrow> [pw_resp pw])"

definition serve_inv :: "serve_cfg \<Rightarrow> serve \<Rightarrow> bool" where
  "serve_inv cfg st \<longleftrightarrow>
     distinct (map fst (sh_pending st)) \<and> sh_order st = map fst (sh_pending st)
     \<and> staged (sg_concurrency cfg) (sh_pending st)
     \<and> in_child st \<le> sg_concurrency cfg + sg_prefetch cfg
     \<and> (sg_recycle cfg = 0 \<or> sh_completed st + in_child st \<le> sg_recycle cfg)
     \<and> (case sh_write st of None \<Rightarrow> True | Some pw \<Rightarrow> pw_id pw \<notin> set (map fst (sh_pending st)))"

definition known_ids :: "serve \<Rightarrow> string set" where
  "known_ids st = set (map fst (sh_pending st)) \<union> (case sh_write st of None \<Rightarrow> {} | Some pw \<Rightarrow> {pw_id pw})"

fun replies :: "cpu_effect list \<Rightarrow> (nat \<times> cpu_outcome) list" where
  "replies [] = []"
| "replies (Replied ch out # eff) = (ch, out) # replies eff"
| "replies (_ # eff) = replies eff"

fun gauge :: "cpu_effect list \<Rightarrow> int" where
  "gauge [] = 0"
| "gauge (CpuEnter # eff) = 1 + gauge eff"
| "gauge (CpuLeave # eff) = gauge eff - 1"
| "gauge (_ # eff) = gauge eff"

fun idle_change :: "cpu_effect list \<Rightarrow> int" where
  "idle_change [] = 0"
| "idle_change (IdleAdd # eff) = 1 + idle_change eff"
| "idle_change (IdleRemove # eff) = idle_change eff - 1"
| "idle_change (_ # eff) = idle_change eff"

lemma replies_append [simp]: "replies (a @ b) = replies a @ replies b"
  by (induction a rule: replies.induct) auto

lemma gauge_append [simp]: "gauge (a @ b) = gauge a + gauge b"
  by (induction a rule: gauge.induct) auto

lemma idle_change_append [simp]: "idle_change (a @ b) = idle_change a + idle_change b"
  by (induction a rule: idle_change.induct) auto

text \<open>The account of a turn: it keeps the invariant; what it owed and was given is answered or still
  owed; the gauges move with the state; and only an exited child costs an answer.\<close>

definition turn_ok :: "serve_cfg \<Rightarrow> nat list \<Rightarrow> string set \<Rightarrow> serve \<Rightarrow> serve \<times> cpu_effect list \<times> child_gone option \<Rightarrow> bool" where
  "turn_ok cfg taken ids st r \<longleftrightarrow>
     (case r of (st', eff, why) \<Rightarrow>
        serve_inv cfg st' \<and> known_ids st' \<subseteq> known_ids st \<union> ids
        \<and> mset (map fst (replies eff)) + mset (owed st') = mset (owed st) + mset taken
        \<and> gauge eff = int (length (sh_pending st')) - int (length (sh_pending st))
        \<and> idle_change eff = of_bool (sh_idle st') - of_bool (sh_idle st)
        \<and> (\<forall>x\<in>set (replies eff). (\<exists>l. snd x = Resp l) \<or> snd x = Lost \<and> why = Some Exited_child)
        \<and> (why = Some Recycled \<longrightarrow> owed st' = []))"

lemma owed_update [simp]: "owed (st\<lparr>sh_idle := i\<rparr>) = owed st" "owed (st\<lparr>sh_stall := w\<rparr>) = owed st"
  by (simp_all add: owed_def)

lemma on_line_ok:
  assumes inv: "serve_inv cfg st"
  shows "turn_ok cfg [] {} st (on_line L cfg now l st)"
proof (cases "id_only L l")
  case None
  then show ?thesis using inv by (simp add: on_line_def turn_ok_def)
next
  case (Some i)
  show ?thesis
  proof (cases "map_of (sh_pending st) i")
    case None
    then show ?thesis using inv Some by (simp add: on_line_def turn_ok_def)
  next
    case p: (Some p)
    let ?c = "sg_concurrency cfg"
    note I = inv [unfolded serve_inv_def]
    obtain xs ys where xy: "sh_pending st = xs @ (i, p) # ys" using map_of_SomeD [OF p] by (auto simp: in_set_conv_decomp)
    have fresh: "i \<notin> fst ` set xs" "i \<notin> fst ` set ys" using I xy by auto
    have del: "AList.delete i (sh_pending st) = xs @ ys"
      using fresh unfolding xy AList.delete_eq by (auto simp: filter_id_conv split_def image_iff)
    have ord: "filter (\<lambda>x. x \<noteq> i) (sh_order st) = map fst (xs @ ys)"
    proof -
      have "filter (\<lambda>x. x \<noteq> i) (map fst zs) = map fst zs" if "i \<notin> fst ` set zs" for zs :: "(string \<times> pend) list"
        using that by (intro filter_True) auto
      then show ?thesis using I fresh xy by simp
    qed
    obtain a where a: "a \<le> ?c" "staged a (xs @ ys)" using staged_remove I xy by metis
    define ps where "ps = arm_started now ?c (map fst (xs @ ys)) (xs @ ys)"
    have d: "distinct (map fst (xs @ ys))" using I xy by auto
    have ps: "map fst ps = map fst (xs @ ys)" "map (pd_resp \<circ> snd) ps = map (pd_resp \<circ> snd) (xs @ ys)" "staged ?c ps"
      using arm_started_staged [OF d a(2,1)] by (simp_all add: ps_def)
    have len: "length ps = length xs + length ys" using arg_cong [OF ps(1), of length] by simp
    define st' where "st' = st\<lparr>sh_pending := ps, sh_order := map fst (xs @ ys), sh_completed := sh_completed st + 1\<rparr>"
    have res: "on_line L cfg now l st = (st', [Replied (pd_resp p) (Resp l), CpuLeave],
        if sg_recycle cfg > 0 \<and> sh_completed st + 1 \<ge> sg_recycle cfg \<and> ps = [] then Some Recycled else None)"
      unfolding on_line_def Some p option.case Let_def del ord ps_def [symmetric] st'_def by simp
    have child: "in_child st = Suc (in_child st')" using xy len by (simp add: in_child_def st'_def)
    have inv': "serve_inv cfg st'"
      using I d ps child xy len by (auto simp: serve_inv_def st'_def split: option.splits)
    have "owed st' = []" if "sg_recycle cfg > 0" "sh_completed st + 1 \<ge> sg_recycle cfg"
    proof -
      have "in_child st' = 0" using I that child by auto
      then show ?thesis by (auto simp: in_child_def owed_def split: if_splits)
    qed
    moreover have "mset (owed st) = {#pd_resp p#} + mset (owed st')"
      unfolding owed_def st'_def using ps(2) xy by (simp add: comp_def)
    moreover have "known_ids st' \<subseteq> known_ids st" using ps(1) xy by (auto simp: known_ids_def st'_def)
    ultimately show ?thesis
      unfolding res turn_ok_def using inv' xy len by (auto simp: st'_def)
  qed
qed

lemma on_written_ok:
  assumes inv: "serve_inv cfg st" and pw: "sh_write st = Some pw"
  shows "turn_ok cfg [] {} st (on_written cfg now n pw st)"
proof -
  let ?c = "sg_concurrency cfg"
  note I = inv [unfolded serve_inv_def]
  define z where "z = (pw_id pw, \<lparr>pd_resp = pw_resp pw, pd_timeout_ms = pw_timeout_ms pw, pd_deadline = None\<rparr>)"
  consider (gone) "n = 0" | (part) "n \<noteq> 0" "pw_sent pw + n < length (pw_buf pw)" | (full) "n \<noteq> 0" "\<not> pw_sent pw + n < length (pw_buf pw)"
    by blast
  then show ?thesis
  proof cases
    case gone
    then show ?thesis using I pw by (auto simp: on_written_def turn_ok_def serve_inv_def in_child_def owed_def known_ids_def)
  next
    case part
    then show ?thesis using I pw by (auto simp: on_written_def turn_ok_def serve_inv_def in_child_def owed_def known_ids_def Let_def)
  next
    case full
    have fresh: "pw_id pw \<notin> set (map fst (sh_pending st))" using I pw by simp
    have up: "AList.update (pw_id pw) \<lparr>pd_resp = pw_resp pw, pd_timeout_ms = pw_timeout_ms pw, pd_deadline = None\<rparr> (sh_pending st)
        = sh_pending st @ [z]"
      using update_fresh [OF fresh] by (simp add: z_def)
    have ord: "sh_order st @ [pw_id pw] = map fst (sh_pending st @ [z])" using I by (simp add: z_def)
    obtain a where a: "a \<le> ?c" "staged a (sh_pending st @ [z])"
      using staged_append [of ?c "sh_pending st" z] I by (auto simp: z_def is_armed_def)
    have d: "distinct (map fst (sh_pending st @ [z]))" using I fresh by (simp add: z_def)
    define ps where "ps = arm_started now ?c (map fst (sh_pending st @ [z])) (sh_pending st @ [z])"
    have ps: "map fst ps = map fst (sh_pending st @ [z])" "map (pd_resp \<circ> snd) ps = map (pd_resp \<circ> snd) (sh_pending st @ [z])"
      "staged ?c ps"
      using arm_started_staged [OF d a(2,1)] by (simp_all add: ps_def)
    have len: "length ps = Suc (length (sh_pending st))" using arg_cong [OF ps(1), of length] by simp
    define st' where "st' = st\<lparr>sh_write := None, sh_order := map fst (sh_pending st @ [z]), sh_pending := ps\<rparr>"
    have res: "on_written cfg now n pw st = (st', [CpuEnter], None)"
      using full unfolding on_written_def Let_def up ord ps_def [symmetric] st'_def by simp
    have "serve_inv cfg st'"
      using I d ps len pw by (auto simp: serve_inv_def st'_def in_child_def)
    moreover have "owed st' = owed st" using ps(2) pw by (simp add: owed_def st'_def z_def)
    moreover have "known_ids st' \<subseteq> known_ids st" using ps(1) pw by (auto simp: known_ids_def st'_def z_def)
    ultimately show ?thesis unfolding res turn_ok_def using len by (simp add: st'_def)
  qed
qed

lemma serve_top_ok:
  assumes "serve_inv cfg st" "serve_top cfg now st = (st1, eff)"
  shows "serve_inv cfg st1 \<and> owed st1 = owed st \<and> known_ids st1 = known_ids st \<and> sh_pending st1 = sh_pending st
    \<and> replies eff = [] \<and> gauge eff = 0 \<and> idle_change eff = of_bool (sh_idle st1) - of_bool (sh_idle st)"
proof -
  obtain i w where st1: "st1 = st\<lparr>sh_idle := i, sh_stall := w\<rparr>" and eff: "eff = (if i = sh_idle st then [] else if i then [IdleAdd] else [IdleRemove])"
    using assms(2) by (auto simp: serve_top_def Let_def)
  have "serve_inv cfg st1" using assms(1) by (simp add: st1 serve_inv_def in_child_def split: option.splits)
  then show ?thesis by (auto simp: st1 eff owed_def known_ids_def)
qed

lemma turn_ok_trans:
  assumes "turn_ok cfg ts1 ids1 st (st1, eff1, None)" "turn_ok cfg ts2 ids2 st1 (st2, eff2, why)"
  shows "turn_ok cfg (ts1 @ ts2) (ids1 \<union> ids2) st (st2, eff1 @ eff2, why)"
proof -
  note A = assms(1) [unfolded turn_ok_def prod.case] and B = assms(2) [unfolded turn_ok_def prod.case]
  have "mset (map fst (replies (eff1 @ eff2))) + mset (owed st2) = mset (map fst (replies eff1)) + (mset (map fst (replies eff2)) + mset (owed st2))"
    by (simp add: add.assoc)
  also have "\<dots> = mset (map fst (replies eff1)) + mset (owed st1) + mset ts2" using B by (simp add: add.assoc)
  also have "\<dots> = mset (owed st) + mset (ts1 @ ts2)" using A by (simp add: add.assoc)
  finally have "mset (map fst (replies (eff1 @ eff2))) + mset (owed st2) = mset (owed st) + mset (ts1 @ ts2)" .
  then show ?thesis using A B unfolding turn_ok_def prod.case by auto
qed

text \<open>The jobs a turn takes in.\<close>

fun taken :: "serve_event \<Rightarrow> cpu_job list" where
  "taken (JobIn job) = [job]"
| "taken _ = []"

lemma turn_ok_refl: "serve_inv cfg st \<Longrightarrow> why \<noteq> Some Recycled \<Longrightarrow> turn_ok cfg [] {} st (st, [], why)"
  by (simp add: turn_ok_def)

lemma event_ok:
  assumes inv: "serve_inv cfg st" and en: "enabled cfg tu st"
    and fresh: "\<forall>job\<in>set (taken (tu_event tu)). cj_id job \<notin> known_ids st"
  shows "turn_ok cfg (map cj_resp (taken (tu_event tu))) (cj_id ` set (taken (tu_event tu))) st
    (case tu_event tu of
       LineIn l \<Rightarrow> on_line L cfg (tu_now tu) l st
     | ReadClosed \<Rightarrow> (st, [], Some Exited_child)
     | JobIn job \<Rightarrow> (on_job job st, [], None)
     | JobsClosed \<Rightarrow> (st, [], Some ShutdownGone)
     | Wrote n \<Rightarrow> (case sh_write st of None \<Rightarrow> (st, [], None) | Some pw \<Rightarrow> on_written cfg (tu_now tu) n pw st)
     | WriteError \<Rightarrow>
         (case sh_write st of None \<Rightarrow> (st, [], None)
          | Some pw \<Rightarrow> (st\<lparr>sh_write := None\<rparr>, [Replied (pw_resp pw) Lost], Some Exited_child))
     | DeadlineFired \<Rightarrow> (st, [], Some HardTimeout)
     | StallFired \<Rightarrow> (st, [], Some Wedged)
     | IdleDropped \<Rightarrow> (st, [], None))"
proof (cases "tu_event tu")
  case (LineIn l)
  then show ?thesis using on_line_ok [OF inv] by simp
next
  case (JobIn job)
  have g: "sh_write st = None" "length (sh_pending st) < sg_concurrency cfg + sg_prefetch cfg"
    "sg_recycle cfg = 0 \<or> sh_completed st + length (sh_pending st) < sg_recycle cfg"
    using en JobIn by (simp_all add: enabled_def Let_def)
  then show ?thesis
    using inv fresh JobIn
    by (auto simp: on_job_def turn_ok_def serve_inv_def in_child_def owed_def known_ids_def)
next
  case (Wrote n)
  then show ?thesis using on_written_ok [OF inv] turn_ok_refl [OF inv] by (cases "sh_write st") simp_all
next
  case WriteError
  then show ?thesis
    using inv turn_ok_refl [OF inv]
    by (auto simp: turn_ok_def serve_inv_def in_child_def owed_def known_ids_def split: option.splits)
qed (simp_all add: turn_ok_refl [OF inv])

lemma serve_step_ok:
  assumes "serve_inv cfg st" "serve_step L cfg tu st = Some r"
    and "\<forall>job\<in>set (taken (tu_event tu)). cj_id job \<notin> known_ids st"
  shows "turn_ok cfg (map cj_resp (taken (tu_event tu))) (cj_id ` set (taken (tu_event tu))) st r"
proof -
  obtain st1 eff where top: "serve_top cfg (tu_top tu) st = (st1, eff)" by fastforce
  note T = serve_top_ok [OF assms(1) top]
  have en: "enabled cfg tu st1" using assms(2) top by (auto simp: serve_step_def split: if_splits)
  have fresh: "\<forall>job\<in>set (taken (tu_event tu)). cj_id job \<notin> known_ids st1" using assms(3) T by simp
  note E = event_ok [OF _ en fresh, of L]
  show ?thesis
    using assms(2) top en E T
    unfolding serve_step_def turn_ok_def by (auto simp: Let_def split: prod.splits)
qed

definition jobs_of :: "turn list \<Rightarrow> cpu_job list" where
  "jobs_of tus = concat (map (taken \<circ> tu_event) tus)"

lemma serve_loop_ok:
  assumes "serve_inv cfg st" "serve_loop L cfg tus st = Some r"
    and "distinct (map cj_id (jobs_of tus))" "cj_id ` set (jobs_of tus) \<inter> known_ids st = {}"
  shows "turn_ok cfg (map cj_resp (jobs_of tus)) (cj_id ` set (jobs_of tus)) st r"
  using assms
proof (induction tus arbitrary: st r)
  case Nil
  then show ?case by (auto simp: jobs_of_def turn_ok_refl)
next
  case (Cons tu tus)
  have jobs: "jobs_of (tu # tus) = taken (tu_event tu) @ jobs_of tus" by (simp add: jobs_of_def)
  obtain st1 eff why where s: "serve_step L cfg tu st = Some (st1, eff, why)"
    using Cons.prems(2) by (cases "serve_step L cfg tu st") auto
  have ok1: "turn_ok cfg (map cj_resp (taken (tu_event tu))) (cj_id ` set (taken (tu_event tu))) st (st1, eff, why)"
    using Cons.prems(4) by (intro serve_step_ok [OF Cons.prems(1) s]) (auto simp: jobs)
  show ?case
  proof (cases why)
    case (Some w)
    then have "tus = []" "r = (st1, eff, why)" using Cons.prems(2) s by (auto split: if_splits)
    then show ?thesis using ok1 by (simp add: jobs_of_def)
  next
    case None
    obtain st2 eff2 why2 where l: "serve_loop L cfg tus st1 = Some (st2, eff2, why2)" and r: "r = (st2, eff @ eff2, why2)"
      using Cons.prems(2) s None by (cases "serve_loop L cfg tus st1") auto
    have inv1: "serve_inv cfg st1" and ids1: "known_ids st1 \<subseteq> known_ids st \<union> cj_id ` set (taken (tu_event tu))"
      using ok1 by (auto simp: turn_ok_def)
    have "cj_id ` set (jobs_of tus) \<inter> known_ids st1 = {}" using Cons.prems(3,4) ids1 unfolding jobs by auto
    then have ok2: "turn_ok cfg (map cj_resp (jobs_of tus)) (cj_id ` set (jobs_of tus)) st1 (st2, eff2, why2)"
      using Cons.prems(3) by (intro Cons.IH [OF inv1 l]) (auto simp: jobs)
    show ?thesis
      using turn_ok_trans [OF ok1 [unfolded None] ok2] unfolding r jobs by (simp add: image_Un)
  qed
qed

lemma serve_inv_start: "serve_inv cfg serve_start"
  by (simp add: serve_inv_def serve_start_def in_child_def staged_def)

lemma served:
  assumes "serve_child L cfg pid tus now = Some (ex, eff)" "distinct (map cj_id (jobs_of tus))"
  obtains st eff1 why where "serve_loop L cfg tus serve_start = Some (st, eff1, Some why)" "ex = serve_exit_of why"
    "eff = eff1 @ serve_end why pid now st"
    "turn_ok cfg (map cj_resp (jobs_of tus)) (cj_id ` set (jobs_of tus)) serve_start (st, eff1, Some why)"
proof -
  obtain st eff1 why where l: "serve_loop L cfg tus serve_start = Some (st, eff1, Some why)" "ex = serve_exit_of why"
    "eff = eff1 @ serve_end why pid now st"
    using assms(1) by (auto simp: serve_child_def split: option.splits prod.splits)
  moreover have "known_ids serve_start = {}" by (simp add: known_ids_def serve_start_def)
  ultimately show ?thesis using that serve_loop_ok [OF serve_inv_start l(1) assms(2)] by auto
qed

lemma serve_end_account:
  "mset (map fst (replies (serve_end why pid now st))) = mset (owed st)"
  "gauge (serve_end why pid now st) = - int (length (sh_pending st))"
  "idle_change (serve_end why pid now st) = 1 - of_bool (sh_idle st)"
proof -
  have k: "replies (map Killed ks) = []" "gauge (map Killed ks) = 0" "idle_change (map Killed ks) = 0" for ks
    by (induction ks) auto
  have p: "map fst (replies (concat (map (\<lambda>(_, p). [Replied (pd_resp p) (drain_outcome why now p), CpuLeave]) ps))) = map (pd_resp \<circ> snd) ps"
    "gauge (concat (map (\<lambda>(_, p). [Replied (pd_resp p) (drain_outcome why now p), CpuLeave]) ps)) = - int (length ps)"
    "idle_change (concat (map (\<lambda>(_, p). [Replied (pd_resp p) (drain_outcome why now p), CpuLeave]) ps)) = 0" for ps
    by (induction ps) auto
  show "mset (map fst (replies (serve_end why pid now st))) = mset (owed st)"
    by (auto simp: serve_end_def owed_def k p simp del: map_map split: option.splits)
  show "gauge (serve_end why pid now st) = - int (length (sh_pending st))"
    "idle_change (serve_end why pid now st) = 1 - of_bool (sh_idle st)"
    by (auto simp: serve_end_def k p split: option.splits)
qed

lemma serve_child_account:
  assumes "serve_child L cfg pid tus now = Some (ex, eff)" "distinct (map cj_id (jobs_of tus))"
  shows "mset (map fst (replies eff)) = mset (map cj_resp (jobs_of tus)) \<and> gauge eff = 0 \<and> idle_change eff = 0"
proof -
  obtain st eff1 why where l: "eff = eff1 @ serve_end why pid now st"
    "turn_ok cfg (map cj_resp (jobs_of tus)) (cj_id ` set (jobs_of tus)) serve_start (st, eff1, Some why)"
    by (rule served [OF assms])
  note ok = l(2) [unfolded turn_ok_def prod.case]
  have s: "owed serve_start = []" "sh_pending serve_start = []" "sh_idle serve_start"
    by (simp_all add: owed_def serve_start_def)
  have "mset (map fst (replies eff)) = mset (map cj_resp (jobs_of tus))"
    using ok serve_end_account(1) [of why pid now st] unfolding l(1) replies_append map_append mset_append s by simp
  moreover have "gauge eff = 0" using ok serve_end_account(2) [of why pid now st] unfolding l(1) gauge_append s by simp
  moreover have "idle_change eff = 0" using ok s(3) serve_end_account(3) [of why pid now st] unfolding l(1) idle_change_append by simp
  ultimately show ?thesis by blast
qed

text \<open>
  C12. Every cpu request a child was given is answered exactly once, whatever the child does: over the
  whole life of a connection (responses in any order, unknown ids, partial writes, a death, a hard
  timeout, a wedge, a recycle, shutdown) the answers are the admitted requests, no more and no less; the
  in-flight gauge and the count of idle slots end where they began.
\<close>

theorem every_cpu_request_answered_once:
  assumes "serve_child L cfg pid tus now = Some (ex, eff)" "distinct (map cj_id (jobs_of tus))"
  shows "mset (map fst (replies eff)) = mset (map cj_resp (jobs_of tus)) \<and> gauge eff = 0 \<and> idle_change eff = 0"
  by (rule serve_child_account [OF assms])

text \<open>
  A planned recycle loses nothing: when a child is replaced after \<open>--cpu-max-tasks-per-child\<close>
  tasks, every request it was ever given has been answered with the child's own response.
\<close>

theorem recycle_loses_nothing:
  assumes "serve_child L cfg pid tus now = Some (ServeRecycled, eff)" "distinct (map cj_id (jobs_of tus))"
  shows "\<forall>x\<in>set (replies eff). \<exists>l. snd x = Resp l"
proof -
  obtain st eff1 why where l: "ServeRecycled = serve_exit_of why" "eff = eff1 @ serve_end why pid now st"
    "turn_ok cfg (map cj_resp (jobs_of tus)) (cj_id ` set (jobs_of tus)) serve_start (st, eff1, Some why)"
    by (rule served [OF assms])
  have why: "why = Recycled" using l(1) by (cases why) (auto simp: serve_exit_of_def)
  note ok = l(3) [unfolded turn_ok_def prod.case why]
  have "owed st = []" using ok by simp
  then have "replies (serve_end why pid now st) = []"
    using serve_end_account(1) [of why pid now st] by simp
  then show ?thesis using ok unfolding l(2) by simp
qed

lemma drain_replies:
  "(ch, out) \<in> set (replies (concat (map (\<lambda>(_, p). [Replied (pd_resp p) (drain_outcome why now p), CpuLeave]) ps))) \<Longrightarrow>
     \<exists>j<length ps. ch = pd_resp (snd (ps ! j)) \<and> out = drain_outcome why now (snd (ps ! j))"
proof (induction ps)
  case (Cons x ps)
  obtain i p where x: "x = (i, p)" by fastforce
  show ?case
  proof (cases "ch = pd_resp p \<and> out = drain_outcome why now p")
    case True
    then show ?thesis using x by (intro exI [of _ 0]) simp
  next
    case False
    then obtain j where "j < length ps" "ch = pd_resp (snd (ps ! j))" "out = drain_outcome why now (snd (ps ! j))"
      using Cons x by auto
    then show ?thesis by (intro exI [of _ "Suc j"]) simp
  qed
qed simp

lemma staged_index:
  assumes "staged c ps" "j < length ps" "is_armed (snd (ps ! j))"
  shows "j < c"
proof (rule ccontr)
  assume "\<not> j < c"
  then have "ps ! j = drop c ps ! (j - c)" "j - c < length (drop c ps)" using assms(2) by auto
  then have "ps ! j \<in> set (drop c ps)" by (metis nth_mem)
  then show False using assms(1,3) by (auto simp: staged_def)
qed

text \<open>
  C30. Only a request that ran too long times out: a request answered with a timeout was among the first
  \<open>concurrency\<close> unanswered ones, so its clock was running, and its own deadline had passed; requests
  still waiting behind it are answered as lost, which is retryable.
\<close>

theorem timeout_only_past_own_deadline:
  assumes "serve_loop L cfg tus serve_start = Some (st, eff, Some why)" "distinct (map cj_id (jobs_of tus))"
    and "(ch, Timeout) \<in> set (replies (eff @ serve_end why pid now st))"
  shows "why = HardTimeout \<and> (\<exists>j < sg_concurrency cfg. j < length (sh_pending st)
    \<and> pd_resp (snd (sh_pending st ! j)) = ch \<and> (\<exists>d \<le> now. pd_deadline (snd (sh_pending st ! j)) = Some d))"
proof -
  have ok: "turn_ok cfg (map cj_resp (jobs_of tus)) (cj_id ` set (jobs_of tus)) serve_start (st, eff, Some why)"
    using serve_loop_ok [OF serve_inv_start assms(1,2)] by (simp add: known_ids_def serve_start_def)
  then have "(ch, Timeout) \<notin> set (replies eff)" by (auto simp: turn_ok_def)
  moreover have "replies (map Killed ks) = []" for ks by (induction ks) auto
  ultimately have "(ch, Timeout) \<in> set (replies (concat (map (\<lambda>(_, p). [Replied (pd_resp p) (drain_outcome why now p), CpuLeave]) (sh_pending st))))"
    using assms(3) by (auto simp: serve_end_def split: option.splits if_splits)
  from drain_replies [OF this] obtain j where j: "j < length (sh_pending st)" "ch = pd_resp (snd (sh_pending st ! j))"
    "drain_outcome why now (snd (sh_pending st ! j)) = Timeout" by auto
  then have d: "why = HardTimeout" "\<exists>d \<le> now. pd_deadline (snd (sh_pending st ! j)) = Some d"
    by (auto simp: drain_outcome_def split: if_splits option.splits)
  then have "is_armed (snd (sh_pending st ! j))" by (auto simp: is_armed_def)
  moreover have "staged (sg_concurrency cfg) (sh_pending st)" using ok by (simp add: turn_ok_def serve_inv_def)
  ultimately have "j < sg_concurrency cfg" using staged_index j(1) by blast
  then show ?thesis using d j by blast
qed

text \<open>
  C31. A child is never given more than it may hold: at every point of a connection the requests in the
  child and the one being written are at most its threads plus the prefetch, exactly the first
  \<open>concurrency\<close> of them in send order have a running clock, and with a recycle limit no more requests are
  taken than it has left.
\<close>

theorem child_load_bounded:
  assumes "serve_loop L cfg tus serve_start = Some (st, eff, why)" "distinct (map cj_id (jobs_of tus))"
  shows "in_child st \<le> sg_concurrency cfg + sg_prefetch cfg
    \<and> sh_order st = map fst (sh_pending st) \<and> staged (sg_concurrency cfg) (sh_pending st)
    \<and> (sg_recycle cfg = 0 \<or> sh_completed st + in_child st \<le> sg_recycle cfg)"
  using serve_loop_ok [OF serve_inv_start assms] by (simp add: turn_ok_def serve_inv_def known_ids_def serve_start_def)

subsection \<open>A connection\<close>

text \<open>A reader for which a line is its own id, and a life of one thread with one request staged behind:
  the first is answered, the second starts then and runs out of time.\<close>

definition echo_json :: json_lib where
  "echo_json = \<lparr>jl_members = (\<lambda>l. Some [(''id'', l)]), jl_elems = (\<lambda>_. None), jl_tree = (\<lambda>l. Some (JStr l)), jl_show = (\<lambda>_. ''''),
     jl_object = (\<lambda>_. ''''), jl_f64 = (\<lambda>_. None), jl_show_f64 = (\<lambda>_. ''''), jl_describe = (\<lambda>_. '''')\<rparr>"

lemma echo_id: "CHR 0x5C \<notin> set l \<Longrightarrow> id_only echo_json l = Some l"
  by (simp add: id_only_def echo_json_def struct_members_def field_def de_opt_def de_borrowed_def de_string_def)

definition demo_job :: "string \<Rightarrow> nat \<Rightarrow> cpu_job" where
  "demo_job i ch = \<lparr>cj_id = i, cj_req_line = ''r'', cj_timeout_ms = 50, cj_resp = ch\<rparr>"

definition demo_turn :: "serve_event \<Rightarrow> nat \<Rightarrow> turn" where
  "demo_turn ev t = \<lparr>tu_top = t, tu_idle_slots = 0, tu_event = ev, tu_now = t\<rparr>"

definition demo_life :: "turn list" where
  "demo_life = [demo_turn (JobIn (demo_job ''a'' 1)) 0, demo_turn (Wrote 2) 1, demo_turn (JobIn (demo_job ''b'' 2)) 2,
     demo_turn (Wrote 2) 3, demo_turn (LineIn ''a'') 10, demo_turn DeadlineFired 70]"

lemmas serve_eval = serve_step_def serve_top_def enabled_def in_child_def may_admit_def next_deadline_def on_job_def on_written_def
  on_line_def arm_started_def is_armed_def deadline_for_def INSTANT_MAX_MS_def demo_turn_def demo_job_def serve_start_def
  map_filter_simps Let_def AList.delete_eq

lemma demo_life_loop:
  "\<exists>st eff. serve_loop echo_json \<lparr>sg_concurrency = 1, sg_prefetch = 1, sg_recycle = 0\<rparr> demo_life serve_start
     = Some (st, eff, Some HardTimeout)
   \<and> replies (eff @ serve_end HardTimeout 9 70 st) = [(1, Resp ''a''), (2, Timeout)]
   \<and> length (sh_pending st) = 1"
  by (simp add: demo_life_def serve_eval echo_id serve_end_def kill_pid_def drain_outcome_def)

lemma demo_life_jobs: "jobs_of demo_life = [demo_job ''a'' 1, demo_job ''b'' 2]"
  by (simp add: jobs_of_def demo_life_def demo_turn_def)

theorem every_cpu_request_answered_once_witness:
  "\<exists>eff. serve_child echo_json \<lparr>sg_concurrency = 1, sg_prefetch = 1, sg_recycle = 0\<rparr> 9 demo_life 70 = Some (ServeDied, eff)
     \<and> mset (map fst (replies eff)) = {#1, 2#} \<and> gauge eff = 0"
proof -
  obtain eff where e: "serve_child echo_json \<lparr>sg_concurrency = 1, sg_prefetch = 1, sg_recycle = 0\<rparr> 9 demo_life 70 = Some (ServeDied, eff)"
    using demo_life_loop by (auto simp: serve_child_def serve_exit_of_def)
  have "distinct (map cj_id (jobs_of demo_life))" by (simp add: demo_life_jobs demo_job_def)
  from every_cpu_request_answered_once [OF e this] e show ?thesis by (auto simp: demo_life_jobs demo_job_def)
qed

theorem timeout_only_past_own_deadline_witness:
  "\<exists>st eff. serve_loop echo_json \<lparr>sg_concurrency = 1, sg_prefetch = 1, sg_recycle = 0\<rparr> demo_life serve_start = Some (st, eff, Some HardTimeout)
     \<and> (2, Timeout) \<in> set (replies (eff @ serve_end HardTimeout 9 70 st))
     \<and> (\<exists>d \<le> 70. pd_deadline (snd (sh_pending st ! 0)) = Some d)"
proof -
  obtain st eff where l: "serve_loop echo_json \<lparr>sg_concurrency = 1, sg_prefetch = 1, sg_recycle = 0\<rparr> demo_life serve_start = Some (st, eff, Some HardTimeout)"
    "replies (eff @ serve_end HardTimeout 9 70 st) = [(1, Resp ''a''), (2, Timeout)]"
    using demo_life_loop by blast
  have d: "distinct (map cj_id (jobs_of demo_life))" by (simp add: demo_life_jobs demo_job_def)
  have t: "(2, Timeout) \<in> set (replies (eff @ serve_end HardTimeout 9 70 st))" unfolding l(2) by simp
  from timeout_only_past_own_deadline [OF l(1) d t] l(1) t show ?thesis by auto
qed

theorem child_load_bounded_witness:
  "\<exists>st eff why. serve_loop echo_json \<lparr>sg_concurrency = 1, sg_prefetch = 1, sg_recycle = 0\<rparr> demo_life serve_start = Some (st, eff, why)
     \<and> in_child st \<le> 2 \<and> staged 1 (sh_pending st)"
proof -
  obtain st eff where l: "serve_loop echo_json \<lparr>sg_concurrency = 1, sg_prefetch = 1, sg_recycle = 0\<rparr> demo_life serve_start = Some (st, eff, Some HardTimeout)"
    using demo_life_loop by blast
  have d: "distinct (map cj_id (jobs_of demo_life))" by (simp add: demo_life_jobs demo_job_def)
  from child_load_bounded [OF l d] l show ?thesis by auto
qed

theorem recycle_loses_nothing_witness:
  "\<exists>eff. serve_child echo_json \<lparr>sg_concurrency = 1, sg_prefetch = 1, sg_recycle = 1\<rparr> 9
       [demo_turn (JobIn (demo_job ''a'' 1)) 0, demo_turn (Wrote 2) 1, demo_turn (LineIn ''a'') 10] 11 = Some (ServeRecycled, eff)
     \<and> (\<forall>x\<in>set (replies eff). \<exists>l. snd x = Resp l)"
proof -
  let ?tus = "[demo_turn (JobIn (demo_job ''a'' 1)) 0, demo_turn (Wrote 2) 1, demo_turn (LineIn ''a'') 10]"
  have "\<exists>eff. serve_child echo_json \<lparr>sg_concurrency = 1, sg_prefetch = 1, sg_recycle = 1\<rparr> 9 ?tus 11 = Some (ServeRecycled, eff)"
    by (simp add: serve_child_def serve_eval echo_id serve_exit_of_def)
  then obtain eff where e: "serve_child echo_json \<lparr>sg_concurrency = 1, sg_prefetch = 1, sg_recycle = 1\<rparr> 9 ?tus 11 = Some (ServeRecycled, eff)"
    by blast
  have "distinct (map cj_id (jobs_of ?tus))" by (simp add: jobs_of_def demo_turn_def)
  from recycle_loses_nothing [OF e this] e show ?thesis by blast
qed

subsection \<open>Handshake, capacity and replacement\<close>

text \<open>
  A connection is served only for a child of our own user, under the process id the kernel reports
  for it and never under one a child made up; a concurrency it claims is at least one and never more
  than the threads it was started with.
\<close>

theorem child_handshake_checked:
  assumes "read_child_ready L our_uid peer_uid (Some p) line child_threads = Inr conn" "1 < p" "p < 2 ^ 31" "1 \<le> child_threads"
  shows "peer_uid = our_uid \<and> uint (cc_pid conn) = p \<and> 1 \<le> cc_concurrency conn \<and> cc_concurrency conn \<le> child_threads"
proof -
  obtain wanted where w: "peer_uid = our_uid" "cc_pid conn = word_of_int p" "cc_concurrency conn = min wanted child_threads" "1 \<le> wanted"
    using assms(1-3)
    by (auto simp: read_child_ready_def Let_def unat_max split: if_splits option.splits)
  have "uint (word_of_int p :: u32) = p" using assms(2,3) by (simp add: uint_word_of_int take_bit_int_eq_self)
  then show ?thesis using w assms(4) by simp
qed

theorem child_handshake_checked_witness:
  "\<exists>conn. read_child_ready (echo_json\<lparr>jl_tree := (\<lambda>_. Some (JObj [(''ready'', JBool True), (''concurrency'', JNum ''8'')]))\<rparr>)
     1000 1000 (Some 77) (Some '''') 2 = Inr conn \<and> cc_concurrency conn = 2 \<and> uint (cc_pid conn) = 77"
proof -
  let ?L = "echo_json\<lparr>jl_tree := (\<lambda>_. Some (JObj [(''ready'', JBool True), (''concurrency'', JNum ''8'')]))\<rparr>"
  have eight: "parse_u64 ''8'' = Some 8" by (simp add: parse_u64_def is_digit_def)
  obtain conn where c: "read_child_ready ?L 1000 1000 (Some 77) (Some '''') 2 = Inr conn" "cc_concurrency conn = 2"
    by (simp add: read_child_ready_def jget_def as_u64_def eight unat_max)
  from child_handshake_checked [OF c(1)] c show ?thesis by simp
qed

text \<open>
  The pool's admission slots cover exactly what its children can hold: however many connections
  are being served, one per worker, the requests in all children never exceed the admission slots, as
  long as the product of the settings fits in 64 bits.
\<close>

theorem admission_covers_children:
  assumes "length lives \<le> sc_workers cfg" "sc_workers cfg * (max (sc_child_threads cfg) 1 + sc_prefetch cfg) < 2 ^ 64"
    and lives: "\<forall>(c, tus, st)\<in>set lives. c \<le> max (sc_child_threads cfg) 1 \<and> distinct (map cj_id (jobs_of tus))
      \<and> (\<exists>eff why. serve_loop L \<lparr>sg_concurrency = c, sg_prefetch = sc_prefetch cfg, sg_recycle = sc_recycle cfg\<rparr> tus serve_start = Some (st, eff, why))"
  shows "sum_list (map (\<lambda>(c, tus, st). in_child st) lives) \<le> cp_admission (cpu_start cfg fork_ok)"
proof -
  let ?t = "max (sc_child_threads cfg) 1" and ?w = "sc_workers cfg"
  have each: "(case x of (c, tus, st) \<Rightarrow> in_child st) \<le> ?t + sc_prefetch cfg" if x: "x \<in> set lives" for x
  proof -
    obtain c tus st where e: "x = (c, tus, st)" by (metis prod_cases3)
    then obtain eff why where "serve_loop L \<lparr>sg_concurrency = c, sg_prefetch = sc_prefetch cfg, sg_recycle = sc_recycle cfg\<rparr> tus serve_start = Some (st, eff, why)"
      "distinct (map cj_id (jobs_of tus))" "c \<le> ?t" using lives x by fastforce
    from serve_loop_ok [OF serve_inv_start this(1,2)] this(3) show ?thesis
      by (auto simp: e turn_ok_def serve_inv_def known_ids_def serve_start_def)
  qed
  have "sum_list (map (\<lambda>(c, tus, st). in_child st) lives) \<le> length lives * (?t + sc_prefetch cfg)"
    using each by (induction lives) fastforce+
  also have "\<dots> \<le> ?w * (?t + sc_prefetch cfg)" using assms(1) by simp
  also have "\<dots> \<le> cp_admission (cpu_start cfg fork_ok)"
  proof (cases "?w = 0")
    case False
    define n where "n = ?t + sc_prefetch cfg"
    have lt: "?w * n < 2 ^ 64" using assms(2) by (simp only: n_def)
    have "n \<le> ?w * n" using False by simp
    then have "n < 2 ^ 64" using lt by (rule le_less_trans)
    then have "min n (2 ^ 64 - 1) = n" by simp
    moreover have "min (?w * n) (2 ^ 64 - 1) = ?w * n" using lt by simp
    ultimately show ?thesis unfolding cpu_start_def Let_def cpu_pool.select_convs n_def by simp
  qed simp
  finally show ?thesis .
qed

theorem admission_covers_children_witness:
  "\<exists>st eff. serve_loop echo_json \<lparr>sg_concurrency = 1, sg_prefetch = 1, sg_recycle = 0\<rparr> demo_life serve_start = Some (st, eff, Some HardTimeout)
     \<and> in_child st \<le> cp_admission (cpu_start \<lparr>sc_workers = 2, sc_child_threads = 1, sc_prefetch = 1, sc_recycle = 0,
          sc_python = '''', sc_app_spec = '''', sc_no_fork_server = False\<rparr> True)"
proof -
  let ?cfg = "\<lparr>sc_workers = 2, sc_child_threads = 1, sc_prefetch = 1, sc_recycle = 0, sc_python = '''', sc_app_spec = '''', sc_no_fork_server = False\<rparr>"
  obtain st eff where l: "serve_loop echo_json \<lparr>sg_concurrency = 1, sg_prefetch = 1, sg_recycle = 0\<rparr> demo_life serve_start = Some (st, eff, Some HardTimeout)"
    using demo_life_loop by blast
  have d: "distinct (map cj_id (jobs_of demo_life))" by (simp add: demo_life_jobs demo_job_def)
  from admission_covers_children [of "[(1, demo_life, st)]" ?cfg echo_json True] l d show ?thesis by auto
qed

lemma next_backoff_range: "100 \<le> b \<Longrightarrow> 100 \<le> next_backoff b \<and> next_backoff b \<le> 2000"
  by (auto simp: next_backoff_def)

lemma slot_rounds_range: "100 \<le> b \<Longrightarrow> b \<le> 2000 \<Longrightarrow> \<forall>p\<in>set (fst (slot_rounds b inputs)). 100 \<le> p \<and> p \<le> 2000"
  by (induction b inputs rule: slot_rounds.induct)
     (auto split: slot_input.splits serve_exit.splits prod.splits simp: BACKOFF_START_MS_def next_backoff_range)

text \<open>
  A child that dies at once is not forked again at full speed: between an unplanned death and the
  next fork request a slot pauses at least 100 ms and at most two seconds, whatever happened before.
\<close>

theorem slot_pauses_bounded:
  "case slot_loop inputs of (pauses, eff, ended) \<Rightarrow>
     (\<forall>p\<in>set pauses. 100 \<le> p \<and> p \<le> 2000) \<and> idle_change eff = (if ended then 0 else 1)"
  using slot_rounds_range [of BACKOFF_START_MS inputs]
  by (auto simp: slot_loop_def BACKOFF_START_MS_def split: prod.splits)

theorem slot_pauses_bounded_witness:
  "slot_loop [Served ServeDied, NoChildInTime, Served ServeDied, Served ServeRecycled, Served ServeDied, ForkChannelClosed]
     = ([100, 200, 100], [IdleAdd, IdleRemove], True) \<and> (\<forall>p\<in>set [100, 200, 100 :: nat]. p \<le> 2000)"
  using slot_pauses_bounded [of "[Served ServeDied, NoChildInTime, Served ServeDied, Served ServeRecycled, Served ServeDied, ForkChannelClosed]"]
  by (simp add: slot_loop_def BACKOFF_START_MS_def next_backoff_def)

text \<open>In the fallback too every job taken is answered once and the gauge returns.\<close>

lemma stdio_serve_answers:
  "stdio_serve recycle completed xs = (eff, e, rest) \<Longrightarrow>
     \<exists>ys. xs = map Some ys @ (if e = StdioShutdown then [None] else []) @ rest
       \<and> map fst (replies eff) = map (cj_resp \<circ> fst) ys \<and> gauge eff = 0"
proof (induction recycle completed xs arbitrary: eff e rest rule: stdio_serve.induct)
  case (3 recycle completed job x rest0)
  show ?case
  proof (cases "\<exists>l. x = StdioLine l \<and> \<not> (recycle > 0 \<and> completed + 1 \<ge> recycle)")
    case True
    then obtain l where l: "x = StdioLine l" "\<not> (recycle > 0 \<and> completed + 1 \<ge> recycle)" by blast
    obtain eff' e' rest' where r: "stdio_serve recycle (completed + 1) rest0 = (eff', e', rest')" by (metis prod_cases3)
    obtain ys where ys: "rest0 = map Some ys @ (if e' = StdioShutdown then [None] else []) @ rest'"
      "map fst (replies eff') = map (cj_resp \<circ> fst) ys" "gauge eff' = 0"
      using 3(1) [OF l(1) refl l(2) r] by blast
    then show ?thesis using 3(2) l r by (intro exI [of _ "(job, x) # ys"]) (auto simp: Let_def)
  next
    case False
    then show ?thesis using 3(2)
      by (intro exI [of _ "[(job, x)]"]) (auto simp: Let_def split: stdio_exchange.splits if_splits)
  qed
qed auto

end
