(* ===== verification/Idle.thy ===== *)
theory Idle
  imports Cpu
begin

section \<open>Idle slots shared by the children (cpu.rs)\<close>

text \<open>
  The slots of a fork-server pool share \<open>IdleSlots\<close>: a count of the slots that could start a request now, and
  a notification when it drops. Each slot serves its child with the turns of Cpu; here the slots of a pool
  run together. A turn is cut where another slot may run: the update at the top of the loop, the reading
  of the count, the wait with its registration for the notification, and the event. \<open>notify_waiters\<close> reaches
  the slots registered at that moment, no others.
\<close>

subsection \<open>State\<close>

text \<open>Where a slot is: not started, without a child, before the top of the loop, after it, with the count
  read, waiting. The second number of the last two is not in the code: how many slots were idle when the
  count was read. The flag tells whether the wait has been notified.\<close>

datatype phase =
    Absent
  | Down
  | AtTop serve
  | Topped serve
  | Loaded serve nat nat
  | Select serve nat nat bool

record idle_pool =
  ip_count :: int
  ip_slots :: "phase list"

datatype idle_effect = Staged nat nat

fun is_idle :: "phase \<Rightarrow> bool" where
  "is_idle Absent = False"
| "is_idle Down = True"
| "is_idle (AtTop st) = sh_idle st"
| "is_idle (Topped st) = sh_idle st"
| "is_idle (Loaded st _ _) = sh_idle st"
| "is_idle (Select st _ _ _) = sh_idle st"

definition idle_now :: "idle_pool \<Rightarrow> nat" where
  "idle_now p = length (filter is_idle (ip_slots p))"

subsection \<open>\<open>IdleSlots\<close>\<close>

fun wake :: "phase \<Rightarrow> phase" where
  "wake (Select st n g _) = Select st n g True"
| "wake ph = ph"

definition idle_add :: "idle_pool \<Rightarrow> idle_pool" where
  "idle_add p = p\<lparr>ip_count := ip_count p + 1\<rparr>"

definition idle_remove :: "idle_pool \<Rightarrow> idle_pool" where
  "idle_remove p = p\<lparr>ip_count := ip_count p - 1, ip_slots := map wake (ip_slots p)\<rparr>"

text \<open>The effects of a turn on it, in their order.\<close>

fun bump :: "cpu_effect list \<Rightarrow> idle_pool \<Rightarrow> idle_pool" where
  "bump [] p = p"
| "bump (IdleAdd # eff) p = bump eff (idle_add p)"
| "bump (IdleRemove # eff) p = bump eff (idle_remove p)"
| "bump (_ # eff) p = bump eff p"

definition set_slot :: "nat \<Rightarrow> phase \<Rightarrow> idle_pool \<Rightarrow> idle_pool" where
  "set_slot i ph p = p\<lparr>ip_slots := (ip_slots p)[i := ph]\<rparr>"

subsection \<open>Steps\<close>

datatype idle_action =
    SlotStart nat
  | Connect nat
  | Do_top nat nat
  | Load nat
  | Register nat
  | Event nat nat turn
  | SlotEnd nat

definition slot_at :: "nat \<Rightarrow> idle_pool \<Rightarrow> phase" where
  "slot_at i p = (if i < length (ip_slots p) then ip_slots p ! i else Absent)"

fun idle_step :: "json_lib \<Rightarrow> serve_cfg \<Rightarrow> idle_action \<Rightarrow> idle_pool \<Rightarrow> (idle_pool \<times> idle_effect list) option" where
  "idle_step L cfg (SlotStart i) p =
     (if i < length (ip_slots p) \<and> slot_at i p = Absent then Some (set_slot i Down (idle_add p), []) else None)"
| "idle_step L cfg (Connect i) p = (if slot_at i p = Down then Some (set_slot i (AtTop serve_start) p, []) else None)"
| "idle_step L cfg (Do_top i now) p =
     (case slot_at i p of
        AtTop st \<Rightarrow> (let (st', eff) = serve_top cfg now st in Some (set_slot i (Topped st') (bump eff p), []))
      | _ \<Rightarrow> None)"
| "idle_step L cfg (Load i) p =
     (case slot_at i p of Topped st \<Rightarrow> Some (set_slot i (Loaded st (nat (ip_count p)) (idle_now p)) p, []) | _ \<Rightarrow> None)"
| "idle_step L cfg (Register i) p =
     (case slot_at i p of Loaded st n g \<Rightarrow> Some (set_slot i (Select st n g False) p, []) | _ \<Rightarrow> None)"
| "idle_step L cfg (Event i pid tu) p =
     (case slot_at i p of
        Select st n g notified \<Rightarrow>
          if tu_idle_slots tu = n \<and> (tu_event tu = IdleDropped \<longrightarrow> notified)
          then (case serve_step L cfg tu st of
                  None \<Rightarrow> None
                | Some (st', eff, why) \<Rightarrow>
                    Some (case why of
                            None \<Rightarrow> set_slot i (AtTop st') (bump eff p)
                          | Some w \<Rightarrow> set_slot i Down (bump (eff @ serve_end w pid (tu_now tu) st') p),
                          if taken (tu_event tu) \<noteq> [] \<and> \<not> sh_idle st then [Staged i g] else []))
          else None
      | _ \<Rightarrow> None)"
| "idle_step L cfg (SlotEnd i) p =
     (if slot_at i p = Down then Some (set_slot i Absent (idle_remove p), []) else None)"

fun idle_run :: "json_lib \<Rightarrow> serve_cfg \<Rightarrow> idle_action list \<Rightarrow> idle_pool \<Rightarrow> (idle_pool \<times> idle_effect list) option" where
  "idle_run L cfg [] p = Some (p, [])"
| "idle_run L cfg (a # as) p =
     (case idle_step L cfg a p of
        None \<Rightarrow> None
      | Some (p', eff) \<Rightarrow>
          (case idle_run L cfg as p' of None \<Rightarrow> None | Some (p'', eff') \<Rightarrow> Some (p'', eff @ eff')))"

interpretation idle: machine "idle_step L cfg" "idle_run L cfg" for L cfg
  by unfold_locales simp_all

definition idle_start :: "nat \<Rightarrow> idle_pool" where
  "idle_start workers = \<lparr>ip_count = 0, ip_slots = replicate workers Absent\<rparr>"

section \<open>Correctness of the shared count\<close>

text \<open>After the top of its loop a slot's flag says whether it could start a request.\<close>

definition settled :: "serve_cfg \<Rightarrow> serve \<Rightarrow> bool" where
  "settled cfg st \<longleftrightarrow> sh_idle st = (in_child st < sg_concurrency cfg)"

fun phase_ok :: "serve_cfg \<Rightarrow> phase \<Rightarrow> bool" where
  "phase_ok cfg (Topped st) = settled cfg st"
| "phase_ok cfg (Loaded st n g) \<longleftrightarrow> settled cfg st \<and> n = g"
| "phase_ok cfg (Select st n g _) \<longleftrightarrow> settled cfg st \<and> n = g"
| "phase_ok cfg _ = True"

definition idle_inv :: "serve_cfg \<Rightarrow> idle_pool \<Rightarrow> bool" where
  "idle_inv cfg p \<longleftrightarrow> ip_count p = int (idle_now p) \<and> list_all (phase_ok cfg) (ip_slots p)"

lemma wake_sel [simp]: "is_idle (wake ph) = is_idle ph" "phase_ok cfg (wake ph) = phase_ok cfg ph"
  by (cases ph; simp)+

lemma bump_count: "ip_count (bump eff p) = ip_count p + idle_change eff"
  by (induction eff p rule: bump.induct) (simp_all add: idle_add_def idle_remove_def)

lemma bump_slots: "length (ip_slots (bump eff p)) = length (ip_slots p)"
  "map is_idle (ip_slots (bump eff p)) = map is_idle (ip_slots p)"
  "list_all (phase_ok cfg) (ip_slots (bump eff p)) = list_all (phase_ok cfg) (ip_slots p)"
  by (induction eff p rule: bump.induct) (simp_all add: idle_add_def idle_remove_def comp_def list_all_length)

lemma idle_now_map: "idle_now p = length (filter (\<lambda>b. b) (map is_idle (ip_slots p)))"
  by (simp add: idle_now_def filter_map comp_def)

lemma filter_bool_update:
  "i < length bs \<Longrightarrow> int (length (filter (\<lambda>b. b) (bs[i := b]))) = int (length (filter (\<lambda>b. b) bs)) + of_bool b - of_bool (bs ! i)"
proof (induction bs arbitrary: i)
  case (Cons a bs)
  then show ?case by (cases i) auto
qed simp

text \<open>A slot moves to another phase, and the count moves with its flag.\<close>

lemma idle_inv_move:
  assumes "idle_inv cfg p" "i < length (ip_slots p)" "phase_ok cfg ph"
    and "idle_change eff = of_bool (is_idle ph) - of_bool (is_idle (ip_slots p ! i))"
  shows "idle_inv cfg (set_slot i ph (bump eff p))"
proof -
  let ?q = "set_slot i ph (bump eff p)"
  have m: "map is_idle (ip_slots ?q) = (map is_idle (ip_slots p))[i := is_idle ph]"
    by (simp add: set_slot_def map_update bump_slots(2))
  have "int (idle_now ?q) = int (idle_now p) + of_bool (is_idle ph) - of_bool (is_idle (ip_slots p ! i))"
    unfolding idle_now_map m using filter_bool_update [of i "map is_idle (ip_slots p)"] assms(2) by simp
  moreover have "list_all (phase_ok cfg) (ip_slots ?q)"
    using assms(1-3) bump_slots(1) [of eff p] bump_slots(3) [of cfg eff p]
    by (auto simp: idle_inv_def set_slot_def list_all_length nth_list_update)
  ultimately show ?thesis using assms(1,4) by (simp add: idle_inv_def bump_count set_slot_def idle_now_def)
qed

lemma serve_top_idle:
  assumes "serve_top cfg now st = (st', eff)"
  shows "idle_change eff = of_bool (sh_idle st') - of_bool (sh_idle st)" "settled cfg st'" "settled cfg st \<Longrightarrow> sh_idle st' = sh_idle st"
  using assms by (auto simp: serve_top_def Let_def settled_def in_child_def)

lemma event_idle:
  assumes "serve_step L cfg tu st = Some (st', eff, why)"
  shows "idle_change eff = of_bool (sh_idle st') - of_bool (sh_idle st)"
proof -
  obtain st1 eff1 where top: "serve_top cfg (tu_top tu) st = (st1, eff1)" by fastforce
  have ln: "sh_idle (fst (on_line L cfg n l st1)) = sh_idle st1 \<and> idle_change (fst (snd (on_line L cfg n l st1))) = 0" for n l
    by (simp add: on_line_def Let_def split: option.splits)
  have wr: "sh_idle (fst (on_written cfg n k pw st1)) = sh_idle st1 \<and> idle_change (fst (snd (on_written cfg n k pw st1))) = 0" for n k pw
    by (simp add: on_written_def Let_def)
  obtain eff2 where "eff = eff1 @ eff2" "idle_change eff2 = 0" "sh_idle st' = sh_idle st1"
    using assms top ln wr by (auto simp: serve_step_def Let_def on_job_def split: if_splits serve_event.splits option.splits prod.splits) (metis fst_conv snd_conv)+
  then show ?thesis using serve_top_idle(1) [OF top] by simp
qed

text \<open>A busy slot takes a job only if the count it read was zero.\<close>

lemma staged_none_idle:
  assumes "serve_step L cfg tu st = Some r" "settled cfg st" "taken (tu_event tu) \<noteq> []" "\<not> sh_idle st"
  shows "tu_idle_slots tu = 0"
proof -
  obtain st1 eff1 where top: "serve_top cfg (tu_top tu) st = (st1, eff1)" by fastforce
  have "enabled cfg tu st1" using assms(1) top by (auto simp: serve_step_def split: if_splits)
  moreover obtain job where "tu_event tu = JobIn job" using assms(3) by (cases "tu_event tu") auto
  ultimately have "may_admit (tu_idle_slots tu) st1" by (simp add: enabled_def Let_def)
  then show ?thesis using serve_top_idle(3) [OF top assms(2)] assms(4) by (simp add: may_admit_def)
qed

definition staged_ok :: "idle_effect \<Rightarrow> bool" where
  "staged_ok e = (case e of Staged i g \<Rightarrow> g = 0)"

lemma slot_at_in: "slot_at i p = ph \<Longrightarrow> ph \<noteq> Absent \<Longrightarrow> i < length (ip_slots p) \<and> ip_slots p ! i = ph"
  by (auto simp: slot_at_def split: if_splits)

lemma slot_ok: "idle_inv cfg p \<Longrightarrow> slot_at i p = ph \<Longrightarrow> ph \<noteq> Absent \<Longrightarrow> phase_ok cfg ph"
  using slot_at_in [of i p ph] by (auto simp: idle_inv_def list_all_length)

lemma idle_event_inv:
  assumes inv: "idle_inv cfg p" and s: "idle_step L cfg (Event i pid tu) p = Some (q, eff)"
  shows "idle_inv cfg q \<and> list_all staged_ok eff"
proof -
  obtain st n g b st' e why where sl: "slot_at i p = Select st n g b" and n: "tu_idle_slots tu = n"
    and step: "serve_step L cfg tu st = Some (st', e, why)"
    and q: "q = (case why of None \<Rightarrow> set_slot i (AtTop st') (bump e p) | Some w \<Rightarrow> set_slot i Down (bump (e @ serve_end w pid (tu_now tu) st') p))"
    and eff: "eff = (if taken (tu_event tu) \<noteq> [] \<and> \<not> sh_idle st then [Staged i g] else [])"
    using s by (simp split: phase.splits if_splits option.splits prod.splits)
  note at = slot_at_in [OF sl] and ok = slot_ok [OF inv sl]
  have "idle_inv cfg q"
  proof (cases why)
    case None
    then show ?thesis using at idle_inv_move [OF inv, of i "AtTop st'" e] event_idle [OF step] by (simp add: q)
  next
    case (Some w)
    then show ?thesis
      using at idle_inv_move [OF inv, of i Down "e @ serve_end w pid (tu_now tu) st'"] event_idle [OF step] serve_end_account(3)
      by (simp add: q)
  qed
  moreover have "g = 0" if "taken (tu_event tu) \<noteq> []" "\<not> sh_idle st"
    using staged_none_idle [OF step _ that] ok n by simp
  ultimately show ?thesis by (simp add: eff staged_ok_def)
qed

lemma idle_step_inv:
  assumes inv: "idle_inv cfg p" and s: "idle_step L cfg a p = Some (q, eff)"
  shows "idle_inv cfg q \<and> list_all staged_ok eff"
proof (cases a)
  case (SlotStart i)
  then show ?thesis using s idle_inv_move [OF inv, of i Down "[IdleAdd]"] by (auto simp: slot_at_def split: if_splits)
next
  case (Connect i)
  then show ?thesis using s slot_at_in [of i p Down] idle_inv_move [OF inv, of i "AtTop serve_start" "[]"]
    by (auto simp: serve_start_def split: if_splits)
next
  case (Do_top i now)
  then obtain st st' e where sl: "slot_at i p = AtTop st" and top: "serve_top cfg now st = (st', e)"
    and q: "q = set_slot i (Topped st') (bump e p)" "eff = []"
    using s by (auto split: phase.splits prod.splits)
  then show ?thesis
    using slot_at_in [OF sl] idle_inv_move [OF inv, of i "Topped st'" e] serve_top_idle(1,2) [OF top] by simp
next
  case (Load i)
  then obtain st where sl: "slot_at i p = Topped st" and q: "q = set_slot i (Loaded st (nat (ip_count p)) (idle_now p)) p" "eff = []"
    using s by (auto split: phase.splits)
  moreover have "ip_count p = int (idle_now p)" using inv by (simp add: idle_inv_def)
  ultimately show ?thesis
    using slot_at_in [OF sl] slot_ok [OF inv sl] idle_inv_move [OF inv, of i "Loaded st (nat (ip_count p)) (idle_now p)" "[]"] by simp
next
  case (Register i)
  then obtain st n g where sl: "slot_at i p = Loaded st n g" and q: "q = set_slot i (Select st n g False) p" "eff = []"
    using s by (auto split: phase.splits)
  then show ?thesis
    using slot_at_in [OF sl] slot_ok [OF inv sl] idle_inv_move [OF inv, of i "Select st n g False" "[]"] by simp
next
  case (Event i pid tu)
  then show ?thesis using idle_event_inv [OF inv] s by blast
next
  case (SlotEnd i)
  then show ?thesis using s slot_at_in [of i p Down] idle_inv_move [OF inv, of i Absent "[IdleRemove]"] by (auto split: if_splits)
qed

lemma idle_run_inv:
  assumes "idle_run L cfg as p = Some (q, eff)" "idle_inv cfg p"
  shows "idle_inv cfg q \<and> list_all staged_ok eff"
proof -
  have "idle_inv cfg p \<longrightarrow> idle_inv cfg q \<and> list_all staged_ok eff"
    by (rule idle.run_account [OF assms(1), where Q = "\<lambda>p eff q. idle_inv cfg p \<longrightarrow> idle_inv cfg q \<and> list_all staged_ok eff"])
      (use idle_step_inv in auto)
  then show ?thesis using assms(2) by blast
qed


subsection \<open>A missed notification\<close>

definition take_turn :: "string \<Rightarrow> nat \<Rightarrow> nat \<Rightarrow> turn" where
  "take_turn job seen now = (demo_turn (JobIn (demo_job job 1)) now)\<lparr>tu_idle_slots := seen\<rparr>"

text \<open>Two slots with one thread each; the second takes a job between the first one's reading of the count
  and its registration.\<close>

definition demo_race :: "idle_action list" where
  "demo_race =
     [SlotStart 0, SlotStart 1, Connect 0, Connect 1, Do_top 0 0, Load 0, Register 0, Event 0 7 (take_turn ''a'' 2 0),
      Do_top 1 0, Load 1, Register 1, Event 1 8 (take_turn ''b'' 2 0), Do_top 0 1, Load 0, Do_top 1 1, Register 0]"

definition demo_pair :: serve_cfg where
  "demo_pair = \<lparr>sg_concurrency = 1, sg_prefetch = 1, sg_recycle = 0\<rparr>"

lemmas idle_eval = demo_race_def idle_start_def slot_at_def set_slot_def idle_add_def idle_remove_def take_turn_def demo_turn_def
  demo_job_def demo_pair_def serve_step_def serve_top_def serve_start_def enabled_def may_admit_def in_child_def next_deadline_def
  on_job_def idle_now_def numeral_2_eq_2

text \<open>
  The first slot now waits although the count is zero and it was not notified: the drop came after it read
  the count and before it registered, so it does not look again until something else happens to it.
\<close>

lemma missed_notification:
  "\<exists>p st. idle_run echo_json demo_pair demo_race (idle_start 2) = Some (p, [])
     \<and> slot_at 0 p = Select st 1 1 False \<and> \<not> sh_idle st \<and> ip_count p = 0"
  by (simp add: idle_eval List.map_filter_simps)


end
