(* ===== verification/Forkserver.thy ===== *)
theory Forkserver
  imports Cpu
begin

section \<open>Start of the fork server and its files (cpu.rs)\<close>

text \<open>
  The fork server listens on a socket in a private directory. \<open>start_fork_server\<close> creates both, starts the
  parent and waits for its handshake; \<open>kill_children\<close> removes them at exit. The file system is the set of
  the paths that exist; whether a system call succeeds is data. The acceptor turns connections into children.
\<close>

subsection \<open>Files\<close>

definition sock_of :: "string \<Rightarrow> string" where
  "sock_of dir = dir @ ''/cpu.sock''"

definition inside :: "string \<Rightarrow> string \<Rightarrow> bool" where
  "inside dir p \<longleftrightarrow> take (length dir + 1) p = dir @ ''/''"

text \<open>\<open>remove_dir\<close> succeeds only on an empty directory; both results are ignored.\<close>

definition cleanup_sock_path :: "string \<Rightarrow> string set \<Rightarrow> string set" where
  "cleanup_sock_path dir F =
     (let F = F - {sock_of dir} in if \<exists>p\<in>F. inside dir p then F else F - {dir})"

subsection \<open>Start\<close>

record fork_obs =
  fo_dir :: string
  fo_create_dir :: bool
  fo_dir_mode :: bool
  fo_bind :: bool
  fo_sock_mode :: bool
  fo_spawn :: "nat option"
  fo_ready :: "string option"

datatype fork_fail = NoDir | DirMode | NoBind | SockMode | NoParent | NotReady_parent

text \<open>What a started fork server has: its directory, the capacity of the channel of fork requests, the
  slots serving.\<close>

record fork_server =
  fs_dir :: string
  fs_fork_requests :: nat
  fs_slots :: "nat list"

definition fork_sock_path :: "fork_obs \<Rightarrow> string set \<Rightarrow> string set \<times> (fork_fail, string) result" where
  "fork_sock_path ob F =
     (if \<not> fo_create_dir ob then (F, Inl NoDir)
      else let F = insert (fo_dir ob) F in if fo_dir_mode ob then (F, Inr (fo_dir ob)) else (F, Inl DirMode))"

definition start_fork_server ::
  "json_lib \<Rightarrow> nat \<Rightarrow> fork_obs \<Rightarrow> string set \<Rightarrow> nat list \<Rightarrow> string set \<times> nat list \<times> nat list \<times> (fork_fail, fork_server) result" where
  "start_fork_server L workers ob F pids =
     (case fork_sock_path ob F of
        (F, Inl e) \<Rightarrow> (F, pids, [], Inl e)
      | (F, Inr dir) \<Rightarrow>
          (if \<not> fo_bind ob then (F, pids, [], Inl NoBind)
           else let F = insert (sock_of dir) F
                in if \<not> fo_sock_mode ob then (F, pids, [], Inl SockMode)
                   else case fo_spawn ob of
                          None \<Rightarrow> (F, pids, [], Inl NoParent)
                        | Some pid \<Rightarrow>
                            if server_ready L (fo_ready ob)
                            then (F, track_pid pid True pids, [],
                                  Inr \<lparr>fs_dir = dir, fs_fork_requests = workers * 2 + 4, fs_slots = [0..<workers]\<rparr>)
                            else (cleanup_sock_path dir F, pids, [pid], Inl NotReady_parent)))"

text \<open>The pool that comes out of it, and its end: the pids signalled and the files left.\<close>

definition start_pool ::
  "json_lib \<Rightarrow> start_cfg \<Rightarrow> fork_obs \<Rightarrow> string set \<Rightarrow> cpu_pool \<times> string option \<times> nat list \<times> string set" where
  "start_pool L cfg ob F =
     (if sc_no_fork_server cfg then (cpu_start cfg False, None, [], F)
      else case start_fork_server L (sc_workers cfg) ob F [] of
             (F', pids, _, Inr srv) \<Rightarrow> (cpu_start cfg True, Some (fs_dir srv), pids, F')
           | (F', pids, _, Inl _) \<Rightarrow> (cpu_start cfg False, None, pids, F'))"

definition stop_pool :: "string option \<Rightarrow> nat list \<Rightarrow> string set \<Rightarrow> nat list \<times> string set" where
  "stop_pool dir pids F = (kill_children pids, case dir of Some d \<Rightarrow> cleanup_sock_path d F | None \<Rightarrow> F)"

subsection \<open>Accepting children\<close>

record accept_obs =
  ao_uid :: nat
  ao_pid :: "int option"
  ao_line :: "string option"

text \<open>A failed \<open>accept\<close> is \<open>None\<close>: the loop pauses and goes on.\<close>

fun acceptor_loop :: "json_lib \<Rightarrow> nat \<Rightarrow> nat \<Rightarrow> accept_obs option list \<Rightarrow> child_conn list" where
  "acceptor_loop L our_uid child_threads [] = []"
| "acceptor_loop L our_uid child_threads (None # as) = acceptor_loop L our_uid child_threads as"
| "acceptor_loop L our_uid child_threads (Some a # as) =
     (case read_child_ready L our_uid (ao_uid a) (ao_pid a) (ao_line a) child_threads of
        Inl _ \<Rightarrow> acceptor_loop L our_uid child_threads as
      | Inr conn \<Rightarrow> conn # acceptor_loop L our_uid child_threads as)"

section \<open>Correctness of start and stop\<close>

lemma sock_inside [simp]: "inside dir (sock_of dir)"
  by (simp add: inside_def sock_of_def)

lemma dir_not_inside [simp]: "\<not> inside dir dir"
  by (simp add: inside_def)

lemma sock_neq [simp]: "sock_of dir \<noteq> dir" "dir \<noteq> sock_of dir"
  by (simp_all add: sock_of_def)

text \<open>A fresh directory and its socket are removed again and nothing else is.\<close>

lemma cleanup_restores:
  assumes "dir \<notin> F" "\<And>p. p \<in> F \<Longrightarrow> \<not> inside dir p"
  shows "cleanup_sock_path dir (insert (sock_of dir) (insert dir F)) = F"
proof -
  have "sock_of dir \<notin> F" using assms(2) by force
  then have "insert (sock_of dir) (insert dir F) - {sock_of dir} = insert dir F" by force
  then show ?thesis using assms by (simp add: cleanup_sock_path_def Let_def)
qed

text \<open>
  A pool leaves no files behind: unless a system call fails half way through the start of the fork
  server, then after a start, whichever way the parent's handshake went, and the stop at exit the file
  system is as before, for a directory that did not exist; and the only processes the stop signals are tracked
  ones, never the process group or init.
\<close>

theorem pool_leaves_no_files:
  assumes "fo_dir ob \<notin> F" "\<forall>p\<in>F. \<not> inside (fo_dir ob) p"
    and "fo_create_dir ob \<longrightarrow> fo_dir_mode ob \<and> fo_bind ob \<and> fo_sock_mode ob \<and> fo_spawn ob \<noteq> None"
    and "start_pool L cfg ob F = (p, dir, pids, F')"
  shows "snd (stop_pool dir pids F') = F \<and> set (fst (stop_pool dir pids F')) \<subseteq> set pids - {0, 1}
    \<and> cp_fork_server p = (dir \<noteq> None)"
proof -
  let ?d = "fo_dir ob"
  have c: "cleanup_sock_path ?d (insert (sock_of ?d) (insert ?d F)) = F"
    using assms(1,2) by (intro cleanup_restores) auto
  have k: "set (kill_children pids) \<subseteq> set pids - {0, 1}"
    by (auto simp: kill_children_def kill_pid_def split: if_splits)
  have fork: "cp_fork_server (cpu_start cfg b) = (\<not> sc_no_fork_server cfg \<and> b)" for b
    by (simp add: cpu_start_def Let_def)
  have "cp_fork_server p = (dir \<noteq> None) \<and> snd (stop_pool dir pids F') = F"
  proof (cases "sc_no_fork_server cfg \<or> \<not> fo_create_dir ob")
    case True
    then have "p = cpu_start cfg False \<and> dir = None \<and> F' = F"
      using assms(4) by (cases "sc_no_fork_server cfg") (simp_all add: start_pool_def start_fork_server_def fork_sock_path_def)
    then show ?thesis by (simp add: stop_pool_def fork)
  next
    case False
    then obtain pid where o: "\<not> sc_no_fork_server cfg" "fo_create_dir ob" "fo_dir_mode ob" "fo_bind ob" "fo_sock_mode ob"
      "fo_spawn ob = Some pid" using assms(3) by auto
    show ?thesis
    proof (cases "server_ready L (fo_ready ob)")
      case True
      then have "p = cpu_start cfg True \<and> dir = Some ?d \<and> F' = insert (sock_of ?d) (insert ?d F)"
        using assms(4) o by (simp add: start_pool_def start_fork_server_def fork_sock_path_def)
      then show ?thesis using o c by (simp add: stop_pool_def fork)
    next
      case False
      then have "p = cpu_start cfg False \<and> dir = None \<and> F' = F"
        using assms(4) o c by (simp add: start_pool_def start_fork_server_def fork_sock_path_def)
      then show ?thesis by (simp add: stop_pool_def fork)
    qed
  qed
  then show ?thesis using k by (simp add: stop_pool_def)
qed

definition demo_fork :: fork_obs where
  "demo_fork = \<lparr>fo_dir = ''/tmp/c'', fo_create_dir = True, fo_dir_mode = True, fo_bind = True, fo_sock_mode = True,
     fo_spawn = Some 42, fo_ready = None\<rparr>"

definition demo_start_cfg :: start_cfg where
  "demo_start_cfg = \<lparr>sc_workers = 2, sc_child_threads = 1, sc_prefetch = 1, sc_recycle = 0, sc_python = ''python3'',
     sc_app_spec = ''m:app'', sc_no_fork_server = False\<rparr>"

theorem pool_leaves_no_files_witness:
  "\<exists>p dir pids F'. start_pool echo_json demo_start_cfg demo_fork {''/tmp''} = (p, dir, pids, F')
     \<and> snd (stop_pool dir pids F') = {''/tmp''}"
proof -
  obtain p dir pids F' where s: "start_pool echo_json demo_start_cfg demo_fork {''/tmp''} = (p, dir, pids, F')"
    by (rule prod_cases4)
  have "fo_dir demo_fork \<notin> {''/tmp''}" "\<forall>p\<in>{''/tmp''}. \<not> inside (fo_dir demo_fork) p"
    "fo_create_dir demo_fork \<longrightarrow> fo_dir_mode demo_fork \<and> fo_bind demo_fork \<and> fo_sock_mode demo_fork \<and> fo_spawn demo_fork \<noteq> None"
    by (simp_all add: demo_fork_def inside_def)
  note kept = conjunct1 [OF pool_leaves_no_files [OF this s]]
  show ?thesis by (rule exI, rule exI, rule exI, rule exI, rule conjI [OF s kept])
qed

text \<open>
  When a system call fails in between, for example binding the socket, the private directory stays: the
  error returns before the clean-up, and the stdio pool that replaces the fork server has no path to clean.
\<close>

lemma failed_bind_leaves_directory:
  assumes "fo_create_dir ob" "fo_dir_mode ob" "\<not> fo_bind ob" "\<not> sc_no_fork_server cfg" "fo_dir ob \<notin> F"
  shows "\<exists>p pids F'. start_pool L cfg ob F = (p, None, pids, F') \<and> fo_dir ob \<in> snd (stop_pool None pids F')"
  using assms by (simp add: start_pool_def start_fork_server_def fork_sock_path_def stop_pool_def Let_def)

text \<open>Only connections of this user whose handshake was complete become children, in the order they came,
  with at least one request at a time each.\<close>

lemma accepted_children:
  "list_all (\<lambda>conn. \<exists>a. Some a \<in> set as \<and> ao_uid a = our_uid
     \<and> read_child_ready L our_uid (ao_uid a) (ao_pid a) (ao_line a) child_threads = Inr conn) (acceptor_loop L our_uid child_threads as)"
proof (induction L our_uid child_threads as rule: acceptor_loop.induct)
  case (3 L our_uid child_threads a as)
  show ?case
  proof (cases "read_child_ready L our_uid (ao_uid a) (ao_pid a) (ao_line a) child_threads")
    case (Inl e)
    then show ?thesis using 3(1) by (auto simp: list_all_iff)
  next
    case (Inr conn)
    then have "ao_uid a = our_uid" by (simp add: read_child_ready_def split: if_splits)
    then show ?thesis using Inr 3(2) by (auto simp: list_all_iff)
  qed
qed (auto simp: list_all_iff)

end
