(* ===== verification/Pool.thy ===== *)
theory Pool
  imports Exec "HOL-Library.Multiset"
begin

section \<open>The pool of Python threads (pyrt.rs)\<close>

text \<open>
  \<open>SyncPool\<close> and its \<open>JobQueue\<close>: a bounded queue under one mutex, a condition variable, and worker threads
  that park on it, wake, wait for the global interpreter lock and then take jobs until the queue is empty.
  A thread's atomic sections (what it does while it holds the mutex, or between two lock operations) are
  the steps of a transition system, one function per section, and \<open>pool_step\<close> interleaves the threads, the
  callers of \<open>submit\<close> and the reports of hard timeouts in every order. Which parked thread \<open>notify_one\<close> wakes,
  spurious wakeups, when a running job releases the interpreter lock, and how a job ends are choices of the
  environment.
\<close>

subsection \<open>State\<close>

record sync_job =
  sj_name :: string
  sj_args :: string
  sj_kwargs :: string
  sj_soft_timeout_ms :: "u64 option"
  sj_meta :: "task_meta option"
  sj_started :: nat
  sj_resp :: nat

text \<open>Where a thread is: about to look for a job, on the condition variable, notified but without the mutex,
  waiting for the interpreter lock, in the burst loop (\<open>arrived\<close>: before its first take), in a job, or ended
  by a panic in a job.\<close>

datatype thread = Looking | Parked | Woken | Waiting_gil | Burst (arrived: bool) | Running sync_job | Ended

record pool =
  pl_jobs :: "sync_job list"
  pl_parked :: nat
  pl_standby :: bool
  pl_capacity :: nat
  pl_threads :: "thread list"
  pl_gil :: "nat option"
  pl_max_threads :: int
  pl_live :: int
  pl_spawning :: nat
  pl_abandoned :: u64

datatype pool_effect = Accepted sync_job | Full sync_job | Taken sync_job | Began sync_job | Answered sync_job outcome | Done sync_job

definition set_thread :: "nat \<Rightarrow> thread \<Rightarrow> pool \<Rightarrow> pool" where
  "set_thread i t p = p\<lparr>pl_threads := (pl_threads p)[i := t]\<rparr>"

definition thread_is :: "nat \<Rightarrow> thread \<Rightarrow> pool \<Rightarrow> bool" where
  "thread_is i t p \<longleftrightarrow> i < length (pl_threads p) \<and> pl_threads p ! i = t"

subsection \<open>The job queue\<close>

text \<open>\<open>Condvar::notify_one\<close> with the thread it chooses: some parked thread if there is one.\<close>

definition notify_one :: "nat option \<Rightarrow> pool \<Rightarrow> pool option" where
  "notify_one choice p =
     (case choice of
        Some i \<Rightarrow> if thread_is i Parked p then Some (set_thread i Woken p) else None
      | None \<Rightarrow> if Parked \<in> set (pl_threads p) then None else Some p)"

definition wake_standby :: "nat option \<Rightarrow> pool \<Rightarrow> pool option" where
  "wake_standby choice p =
     (if \<not> pl_standby p \<and> pl_parked p > 0 then notify_one choice (p\<lparr>pl_standby := True\<rparr>)
      else if choice = None then Some p else None)"

text \<open>\<open>wait_for_job\<close>: the first look, and the return from \<open>wait\<close>.\<close>

definition wait_for_job :: "nat \<Rightarrow> pool \<Rightarrow> pool" where
  "wait_for_job i p =
     (if pl_jobs p = [] then set_thread i Parked (p\<lparr>pl_parked := pl_parked p + 1\<rparr>)
      else set_thread i Waiting_gil p)"

definition resume_wait :: "nat \<Rightarrow> pool \<Rightarrow> pool" where
  "resume_wait i p =
     (let p = p\<lparr>pl_parked := pl_parked p - 1\<rparr>;
          p = (if pl_jobs p = [] then p\<lparr>pl_standby := False\<rparr> else p)
      in wait_for_job i p)"

definition take_job :: "nat option \<Rightarrow> bool \<Rightarrow> pool \<Rightarrow> (sync_job option \<times> pool) option" where
  "take_job choice arr p =
     (let p = (if arr then p\<lparr>pl_standby := False\<rparr> else p);
          (job, p) = (case pl_jobs p of [] \<Rightarrow> (None, p) | j # js \<Rightarrow> (Some j, p\<lparr>pl_jobs := js\<rparr>))
      in if pl_jobs p \<noteq> [] then (case wake_standby choice p of None \<Rightarrow> None | Some p' \<Rightarrow> Some (job, p'))
         else if choice = None then Some (job, p) else None)"

definition submit_sync :: "nat option \<Rightarrow> sync_job \<Rightarrow> pool \<Rightarrow> (pool \<times> pool_effect list) option" where
  "submit_sync choice job p =
     (if length (pl_jobs p) \<ge> pl_capacity p then (if choice = None then Some (p, [Full job]) else None)
      else case wake_standby choice (p\<lparr>pl_jobs := pl_jobs p @ [job]\<rparr>) of
             None \<Rightarrow> None
           | Some p' \<Rightarrow> Some (p', [Accepted job]))"

subsection \<open>Threads\<close>

text \<open>What running a job meets: whether its dispatcher had given up before it was looked at, whether it
  still listened when the start was announced, and the outcome of the Python call.\<close>

record job_obs =
  jo_closed :: bool
  jo_listening :: bool
  jo_outcome :: outcome

definition run_sync_job :: "sync_job \<Rightarrow> job_obs \<Rightarrow> pool_effect list" where
  "run_sync_job job ob =
     (if jo_closed ob then []
      else if \<not> jo_listening ob then []
      else [Began job, Answered job (jo_outcome ob)])"

definition SYNC_POOL_THREAD_CEILING_MULTIPLE :: int where
  "SYNC_POOL_THREAD_CEILING_MULTIPLE = 4"

text \<open>\<open>spawn_worker\<close> reads the count of live threads, and only later adds itself to it: two steps, between
  which other callers run. \<open>pl_spawning\<close> counts the callers in between.\<close>

definition spawn_check :: "pool \<Rightarrow> pool" where
  "spawn_check p = (if pl_live p \<ge> pl_max_threads p then p else p\<lparr>pl_spawning := pl_spawning p + 1\<rparr>)"

definition spawn_thread :: "pool \<Rightarrow> pool" where
  "spawn_thread p =
     p\<lparr>pl_spawning := pl_spawning p - 1, pl_live := pl_live p + 1, pl_threads := pl_threads p @ [Looking]\<rparr>"

definition report_hard_timeout :: "pool \<Rightarrow> pool" where
  "report_hard_timeout p = spawn_check (p\<lparr>pl_abandoned := pl_abandoned p + 1\<rparr>)"

definition pool_start :: "nat \<Rightarrow> nat \<Rightarrow> pool" where
  "pool_start threads queue_capacity =
     (let threads = max threads 1;
          p = \<lparr>pl_jobs = [], pl_parked = 0, pl_standby = False, pl_capacity = max queue_capacity 1, pl_threads = [],
               pl_gil = None, pl_max_threads = int threads * SYNC_POOL_THREAD_CEILING_MULTIPLE, pl_live = 0,
               pl_spawning = 0, pl_abandoned = 0\<rparr>
      in ((\<lambda>p. if pl_live p \<ge> pl_max_threads p then p else spawn_thread (p\<lparr>pl_spawning := pl_spawning p + 1\<rparr>)) ^^ threads) p)"

subsection \<open>Steps\<close>

datatype pool_action =
    Submit sync_job "nat option"
  | Timeout_reported
  | Spawned
  | Look nat
  | Spurious nat
  | Resume nat
  | Acquire nat
  | Take nat "nat option"
  | Finish nat job_obs
  | Release nat
  | Reacquire nat
  | Panic nat

definition running :: "nat \<Rightarrow> pool \<Rightarrow> sync_job option" where
  "running i p = (if i < length (pl_threads p) then (case pl_threads p ! i of Running job \<Rightarrow> Some job | _ \<Rightarrow> None) else None)"

text \<open>One step, or \<open>None\<close> where the action is not possible.\<close>

fun pool_step :: "pool_action \<Rightarrow> pool \<Rightarrow> (pool \<times> pool_effect list) option" where
  "pool_step (Submit job choice) p = submit_sync choice job p"
| "pool_step Timeout_reported p = Some (report_hard_timeout p, [])"
| "pool_step Spawned p = (if pl_spawning p > 0 then Some (spawn_thread p, []) else None)"
| "pool_step (Look i) p = (if thread_is i Looking p then Some (wait_for_job i p, []) else None)"
| "pool_step (Spurious i) p = (if thread_is i Parked p then Some (set_thread i Woken p, []) else None)"
| "pool_step (Resume i) p = (if thread_is i Woken p then Some (resume_wait i p, []) else None)"
| "pool_step (Acquire i) p =
     (if thread_is i Waiting_gil p \<and> pl_gil p = None then Some (set_thread i (Burst True) (p\<lparr>pl_gil := Some i\<rparr>), []) else None)"
| "pool_step (Take i choice) p =
     (if i < length (pl_threads p) \<and> pl_gil p = Some i
      then (case pl_threads p ! i of
              Burst arr \<Rightarrow>
                (case take_job choice arr p of
                   None \<Rightarrow> None
                 | Some (None, p') \<Rightarrow> Some (set_thread i Looking (p'\<lparr>pl_gil := None\<rparr>), [])
                 | Some (Some job, p') \<Rightarrow> Some (set_thread i (Running job) p', [Taken job]))
            | _ \<Rightarrow> None)
      else None)"
| "pool_step (Finish i ob) p =
     (case running i p of
        Some job \<Rightarrow> if pl_gil p = Some i then Some (set_thread i (Burst False) p, run_sync_job job ob @ [Done job]) else None
      | None \<Rightarrow> None)"
| "pool_step (Release i) p =
     (if running i p \<noteq> None \<and> pl_gil p = Some i then Some (p\<lparr>pl_gil := None\<rparr>, []) else None)"
| "pool_step (Reacquire i) p =
     (if running i p \<noteq> None \<and> pl_gil p = None then Some (p\<lparr>pl_gil := Some i\<rparr>, []) else None)"
| "pool_step (Panic i) p =
     (case running i p of
        Some job \<Rightarrow>
          Some (set_thread i Ended (p\<lparr>pl_live := pl_live p - 1, pl_gil := (if pl_gil p = Some i then None else pl_gil p)\<rparr>),
                [Done job])
      | None \<Rightarrow> None)"

fun pool_run :: "pool_action list \<Rightarrow> pool \<Rightarrow> (pool \<times> pool_effect list) option" where
  "pool_run [] p = Some (p, [])"
| "pool_run (a # as) p =
     (case pool_step a p of
        None \<Rightarrow> None
      | Some (p', eff) \<Rightarrow>
          (case pool_run as p' of None \<Rightarrow> None | Some (p'', eff') \<Rightarrow> Some (p'', eff @ eff')))"

section \<open>Correctness of the pool\<close>

subsection \<open>Counting threads\<close>

lemma set_thread_sel [simp]:
  "pl_jobs (set_thread i t p) = pl_jobs p" "pl_parked (set_thread i t p) = pl_parked p"
  "pl_standby (set_thread i t p) = pl_standby p" "pl_capacity (set_thread i t p) = pl_capacity p"
  "pl_threads (set_thread i t p) = (pl_threads p)[i := t]" "pl_gil (set_thread i t p) = pl_gil p"
  "pl_max_threads (set_thread i t p) = pl_max_threads p" "pl_live (set_thread i t p) = pl_live p"
  "pl_spawning (set_thread i t p) = pl_spawning p"
  by (simp_all add: set_thread_def)

lemma filter_update_length:
  "i < length xs \<Longrightarrow>
     length (filter P (xs[i := v])) + of_bool (P (xs ! i)) = length (filter P xs) + of_bool (P v)"
proof (induction xs arbitrary: i)
  case (Cons x xs)
  then show ?case by (cases i) auto
qed simp

lemma ex_update_new: "i < length xs \<Longrightarrow> P v \<Longrightarrow> \<exists>t\<in>set (xs[i := v]). P t"
  by (rule bexI [of _ v]) (auto simp: set_update_memI)

lemma ex_update_keep:
  assumes "\<exists>t\<in>set xs. P t" "i < length xs" "\<not> P (xs ! i)"
  shows "\<exists>t\<in>set (xs[i := v]). P t"
proof -
  obtain j where j: "j < length xs" "P (xs ! j)" using assms(1) by (auto simp: in_set_conv_nth)
  then have "j \<noteq> i" using assms(3) by auto
  then have "xs[i := v] ! j = xs ! j" "j < length (xs[i := v])" using j by simp_all
  then show ?thesis using j by (metis nth_mem)
qed

lemma update_member: "t \<in> set (xs[i := v]) \<Longrightarrow> t = v \<or> t \<in> set xs"
  using set_update_subset_insert by fastforce

lemma nth_update_cases:
  "xs[i := v] ! j = t \<Longrightarrow> i = j \<and> i < length xs \<and> v = t \<or> xs ! j = t"
  by (metis linorder_not_less list_update_beyond nth_list_update_eq nth_list_update_neq)

subsection \<open>The invariant\<close>

definition waiting :: "thread \<Rightarrow> bool" where
  "waiting t \<longleftrightarrow> t = Parked \<or> t = Woken"

text \<open>Threads that get to the queue by their own steps; among them those the standby flag speaks of.\<close>

definition on_the_way :: "thread \<Rightarrow> bool" where
  "on_the_way t = (case t of Looking \<Rightarrow> True | Woken \<Rightarrow> True | Waiting_gil \<Rightarrow> True | Burst _ \<Rightarrow> True | _ \<Rightarrow> False)"

definition coming :: "thread \<Rightarrow> bool" where
  "coming t = (case t of Woken \<Rightarrow> True | Waiting_gil \<Rightarrow> True | Burst arr \<Rightarrow> arr | _ \<Rightarrow> False)"

definition pool_inv :: "pool \<Rightarrow> bool" where
  "pool_inv p \<longleftrightarrow>
     pl_parked p = length (filter waiting (pl_threads p))
     \<and> (pl_standby p \<longrightarrow> (\<exists>t\<in>set (pl_threads p). coming t))
     \<and> (pl_jobs p \<noteq> [] \<and> Parked \<in> set (pl_threads p) \<longrightarrow> (\<exists>t\<in>set (pl_threads p). on_the_way t))
     \<and> (\<forall>i arr. thread_is i (Burst arr) p \<longrightarrow> pl_gil p = Some i)
     \<and> length (pl_jobs p) \<le> pl_capacity p"

lemma waiting_simps [simp]:
  "waiting Parked" "waiting Woken" "\<not> waiting Looking" "\<not> waiting Waiting_gil" "\<not> waiting (Burst b)"
  "\<not> waiting (Running job)" "\<not> waiting Ended"
  by (simp_all add: waiting_def)

lemma on_the_way_simps [simp]:
  "on_the_way Looking" "on_the_way Woken" "on_the_way Waiting_gil" "on_the_way (Burst b)" "\<not> on_the_way Parked"
  "\<not> on_the_way (Running job)" "\<not> on_the_way Ended"
  by (simp_all add: on_the_way_def)

lemma coming_simps [simp]:
  "coming Woken" "coming Waiting_gil" "coming (Burst b) = b" "\<not> coming Looking" "\<not> coming Parked"
  "\<not> coming (Running job)" "\<not> coming Ended"
  by (simp_all add: coming_def)

lemma coming_on_the_way: "coming t \<Longrightarrow> on_the_way t"
  by (cases t) simp_all

lemma pool_invI:
  assumes "pl_parked p = length (filter waiting (pl_threads p))"
    and "pl_standby p \<Longrightarrow> \<exists>t\<in>set (pl_threads p). coming t"
    and "pl_jobs p \<noteq> [] \<Longrightarrow> Parked \<in> set (pl_threads p) \<Longrightarrow> \<exists>t\<in>set (pl_threads p). on_the_way t"
    and "\<And>i arr. i < length (pl_threads p) \<Longrightarrow> pl_threads p ! i = Burst arr \<Longrightarrow> pl_gil p = Some i"
    and "length (pl_jobs p) \<le> pl_capacity p"
  shows "pool_inv p"
  using assms by (auto simp: pool_inv_def thread_is_def)

lemma no_parked: "pl_parked p = length (filter waiting (pl_threads p)) \<Longrightarrow> pl_parked p = 0 \<Longrightarrow> Parked \<notin> set (pl_threads p)"
  by (auto simp: filter_empty_conv waiting_def)

lemma wake_standby_cases:
  assumes "wake_standby c p = Some p'"
  obtains (woke) i where "i < length (pl_threads p)" "pl_threads p ! i = Parked" "p' = set_thread i Woken (p\<lparr>pl_standby := True\<rparr>)"
    | (lost) "Parked \<notin> set (pl_threads p)" "0 < pl_parked p" "p' = p\<lparr>pl_standby := True\<rparr>"
    | (same) "p' = p" "pl_standby p \<or> pl_parked p = 0"
proof -
  have "(\<exists>i. thread_is i Parked p \<and> p' = set_thread i Woken (p\<lparr>pl_standby := True\<rparr>))
    \<or> (Parked \<notin> set (pl_threads p) \<and> 0 < pl_parked p \<and> p' = p\<lparr>pl_standby := True\<rparr>)
    \<or> (p' = p \<and> (pl_standby p \<or> pl_parked p = 0))"
    using assms by (auto simp: wake_standby_def notify_one_def thread_is_def split: if_splits option.splits)
  then show ?thesis using woke lost same unfolding thread_is_def by blast
qed

text \<open>Waking a standby: whatever the flag was, afterwards work in the queue has a thread on its way, or no
  thread is parked. The rest of the state stays.\<close>

lemma wake_standby_ok:
  assumes w: "wake_standby c p = Some p'"
    and cnt: "pl_parked p = length (filter waiting (pl_threads p))"
    and P: "P Woken" and sb: "pl_standby p \<Longrightarrow> \<exists>t\<in>set (pl_threads p). P t"
  shows "pl_parked p' = length (filter waiting (pl_threads p'))"
    and "pl_standby p' \<Longrightarrow> \<exists>t\<in>set (pl_threads p'). P t"
    and "Parked \<in> set (pl_threads p') \<Longrightarrow> \<exists>t\<in>set (pl_threads p'). P t"
    and "length (pl_threads p') = length (pl_threads p)"
    and "\<And>j. j < length (pl_threads p) \<Longrightarrow> pl_threads p' ! j = pl_threads p ! j \<or> pl_threads p ! j = Parked \<and> pl_threads p' ! j = Woken"
    and "pl_jobs p' = pl_jobs p" "pl_capacity p' = pl_capacity p" "pl_gil p' = pl_gil p"
    and "pl_max_threads p' = pl_max_threads p" "pl_live p' = pl_live p" "pl_spawning p' = pl_spawning p"
proof -
  have "pl_parked p' = length (filter waiting (pl_threads p'))
    \<and> (pl_standby p' \<longrightarrow> (\<exists>t\<in>set (pl_threads p'). P t))
    \<and> (Parked \<in> set (pl_threads p') \<longrightarrow> (\<exists>t\<in>set (pl_threads p'). P t))
    \<and> length (pl_threads p') = length (pl_threads p)
    \<and> (\<forall>j<length (pl_threads p). pl_threads p' ! j = pl_threads p ! j \<or> pl_threads p ! j = Parked \<and> pl_threads p' ! j = Woken)
    \<and> pl_jobs p' = pl_jobs p \<and> pl_capacity p' = pl_capacity p \<and> pl_gil p' = pl_gil p
    \<and> pl_max_threads p' = pl_max_threads p \<and> pl_live p' = pl_live p \<and> pl_spawning p' = pl_spawning p"
    using w
  proof (cases rule: wake_standby_cases)
    case (woke i)
    have "\<exists>t\<in>set ((pl_threads p)[i := Woken]). P t" using woke(1) using P by (rule ex_update_new)
    moreover have "length (filter waiting ((pl_threads p)[i := Woken])) = length (filter waiting (pl_threads p))"
      using filter_update_length [OF woke(1), of waiting Woken] woke(2) by simp
    ultimately show ?thesis using woke cnt by (auto simp: nth_list_update)
  next
    case lost
    then obtain t where "t \<in> set (pl_threads p)" "waiting t" using cnt by (auto simp: filter_empty_conv)
    then have "t = Woken" using lost(1) by (auto simp: waiting_def)
    then have "\<exists>t\<in>set (pl_threads p). P t" using \<open>t \<in> set (pl_threads p)\<close> P by (intro bexI [of _ t]) simp_all
    then show ?thesis using lost cnt by simp
  next
    case same
    then show ?thesis using cnt sb no_parked [OF cnt] by auto
  qed
  then show "pl_parked p' = length (filter waiting (pl_threads p'))"
    and "pl_standby p' \<Longrightarrow> \<exists>t\<in>set (pl_threads p'). P t"
    and "Parked \<in> set (pl_threads p') \<Longrightarrow> \<exists>t\<in>set (pl_threads p'). P t"
    and "length (pl_threads p') = length (pl_threads p)"
    and "\<And>j. j < length (pl_threads p) \<Longrightarrow> pl_threads p' ! j = pl_threads p ! j \<or> pl_threads p ! j = Parked \<and> pl_threads p' ! j = Woken"
    and "pl_jobs p' = pl_jobs p" "pl_capacity p' = pl_capacity p" "pl_gil p' = pl_gil p"
    and "pl_max_threads p' = pl_max_threads p" "pl_live p' = pl_live p" "pl_spawning p' = pl_spawning p"
    by auto
qed

lemma pool_invD:
  assumes "pool_inv p"
  shows "pl_parked p = length (filter waiting (pl_threads p))"
    and "pl_standby p \<Longrightarrow> \<exists>t\<in>set (pl_threads p). coming t"
    and "pl_jobs p \<noteq> [] \<Longrightarrow> Parked \<in> set (pl_threads p) \<Longrightarrow> \<exists>t\<in>set (pl_threads p). on_the_way t"
    and "\<And>i arr. i < length (pl_threads p) \<Longrightarrow> pl_threads p ! i = Burst arr \<Longrightarrow> pl_gil p = Some i"
    and "length (pl_jobs p) \<le> pl_capacity p"
  using assms by (auto simp: pool_inv_def thread_is_def)

text \<open>A thread moves from \<open>u\<close> to \<open>v\<close> and nothing else that matters here changes.\<close>

lemma pool_inv_move:
  assumes inv: "pool_inv p" and i: "i < length (pl_threads p)" "pl_threads p ! i = u"
    and q: "pl_threads q = (pl_threads p)[i := v]" "pl_jobs q = pl_jobs p" "pl_capacity q = pl_capacity p" "pl_standby q = pl_standby p"
    and par: "pl_parked q + of_bool (waiting u) = pl_parked p + of_bool (waiting v)"
    and way: "coming u \<Longrightarrow> coming v" "on_the_way u \<Longrightarrow> on_the_way v" "pl_jobs p \<noteq> [] \<Longrightarrow> v = Parked \<Longrightarrow> u = Parked"
    and gil: "\<And>j arr. j < length (pl_threads q) \<Longrightarrow> pl_threads q ! j = Burst arr \<Longrightarrow> pl_gil q = Some j"
  shows "pool_inv q"
proof (rule pool_invI)
  note I = pool_invD [OF inv]
  show "pl_parked q = length (filter waiting (pl_threads q))"
    using filter_update_length [OF i(1), of waiting v] I(1) par i(2) q(1) by simp
  have keep: "\<exists>t\<in>set (pl_threads q). P t" if "\<exists>t\<in>set (pl_threads p). P t" "P u \<Longrightarrow> P v" for P
  proof (cases "P u")
    case True
    then show ?thesis using that(2) i(1) ex_update_new [of i _ P v] unfolding q(1) by blast
  next
    case False
    then show ?thesis using ex_update_keep [OF that(1) i(1)] i(2) unfolding q(1) by simp
  qed
  show "\<exists>t\<in>set (pl_threads q). coming t" if "pl_standby q" using keep [of coming] I(2) that q(4) way(1) by simp
  show "\<exists>t\<in>set (pl_threads q). on_the_way t" if "pl_jobs q \<noteq> []" "Parked \<in> set (pl_threads q)"
  proof -
    have "Parked \<in> set (pl_threads p)"
      using that way(3) i update_member [of Parked "pl_threads p" i v] unfolding q(1,2) by (metis nth_mem)
    then show ?thesis using keep [of on_the_way] I(3) that q(2) way(2) by simp
  qed
  show "length (pl_jobs q) \<le> pl_capacity q" using I(5) q by simp
qed (rule gil)

lemma pool_inv_wait_for_job:
  assumes "pool_inv p" "i < length (pl_threads p)" "pl_threads p ! i = Looking"
  shows "pool_inv (wait_for_job i p)"
proof -
  note gil = pool_invD(4) [OF assms(1)]
  show ?thesis
  proof (cases "pl_jobs p = []")
    case True
    note I = pool_invD [OF assms(1)]
    show ?thesis
    proof (rule pool_invI)
      show "pl_parked (wait_for_job i p) = length (filter waiting (pl_threads (wait_for_job i p)))"
        using filter_update_length [OF assms(2), of waiting Parked] I(1) assms(3) True by (simp add: wait_for_job_def)
      show "\<exists>t\<in>set (pl_threads (wait_for_job i p)). coming t" if "pl_standby (wait_for_job i p)"
        using ex_update_keep [OF I(2) assms(2)] assms(3) that True by (simp add: wait_for_job_def)
      show "pl_gil (wait_for_job i p) = Some j" if "j < length (pl_threads (wait_for_job i p))"
        "pl_threads (wait_for_job i p) ! j = Burst arr" for j arr
        using that gil [of j arr] True assms(2) by (cases "j = i") (auto simp: wait_for_job_def)
    qed (use I(5) True in \<open>simp_all add: wait_for_job_def\<close>)
  next
    case False
    then show ?thesis
      using gil by (intro pool_inv_move [OF assms(1,2) assms(3), of _ Waiting_gil])
        (auto simp: wait_for_job_def dest: nth_update_cases)
  qed
qed

lemma pool_inv_resume:
  assumes "pool_inv p" "i < length (pl_threads p)" "pl_threads p ! i = Woken"
  shows "pool_inv (resume_wait i p)"
proof -
  note I = pool_invD [OF assms(1)]
  have "Woken \<in> set (pl_threads p)" using assms(2,3) by (metis nth_mem)
  then have pos: "0 < pl_parked p" using I(1) by (auto simp: filter_empty_conv intro: bexI [of _ Woken])
  show ?thesis
  proof (cases "pl_jobs p = []")
    case True
    have cnt: "length (filter waiting ((pl_threads p)[i := Parked])) = length (filter waiting (pl_threads p))"
      using filter_update_length [OF assms(2), of waiting Parked] assms(3) by simp
    show ?thesis
      using True pos cnt I by (intro pool_invI) (auto simp: resume_wait_def wait_for_job_def Let_def dest: nth_update_cases)
  next
    case False
    show ?thesis
      using False pos I(4) by (intro pool_inv_move [OF assms, of _ Waiting_gil])
        (auto simp: resume_wait_def wait_for_job_def Let_def dest: nth_update_cases)
  qed
qed

lemma pool_inv_submit:
  assumes "pool_inv p" "submit_sync c job p = Some (p', eff)"
  shows "pool_inv p'"
proof (cases "length (pl_jobs p) \<ge> pl_capacity p")
  case True
  then show ?thesis using assms by (auto simp: submit_sync_def split: if_splits)
next
  case False
  let ?q = "p\<lparr>pl_jobs := pl_jobs p @ [job]\<rparr>"
  note I = pool_invD [OF assms(1)]
  have w: "wake_standby c ?q = Some p'" using assms(2) False by (auto simp: submit_sync_def split: option.splits)
  note W = wake_standby_ok [OF w, of coming]
  show ?thesis
  proof (rule pool_invI)
    show "pl_parked p' = length (filter waiting (pl_threads p'))" using W(1) I(1,2) by simp
    show "\<exists>t\<in>set (pl_threads p'). coming t" if "pl_standby p'" using W(2) I(1,2) that by simp
    show "\<exists>t\<in>set (pl_threads p'). on_the_way t" if "Parked \<in> set (pl_threads p')"
      using W(3) I(1,2) that coming_on_the_way by simp blast
    show "pl_gil p' = Some j" if "j < length (pl_threads p')" "pl_threads p' ! j = Burst arr" for j arr
    proof -
      have "pl_threads p ! j = Burst arr" using W(4) W(5) [of j] I(1,2) that by auto
      then show ?thesis using W(4,8) I(1,2) I(4) [of j arr] that by simp
    qed
    show "length (pl_jobs p') \<le> pl_capacity p'" using W(6,7) False I by simp
  qed
qed

lemma wake_standby_frame:
  assumes "wake_standby c p = Some p'"
  shows "pl_jobs p' = pl_jobs p" "pl_capacity p' = pl_capacity p" "pl_gil p' = pl_gil p"
    "pl_max_threads p' = pl_max_threads p" "pl_live p' = pl_live p" "pl_spawning p' = pl_spawning p"
  using assms by (auto simp: wake_standby_def notify_one_def split: if_splits option.splits)

definition after_take :: "bool \<Rightarrow> pool \<Rightarrow> pool" where
  "after_take arr p = p\<lparr>pl_standby := pl_standby p \<and> \<not> arr, pl_jobs := tl (pl_jobs p)\<rparr>"

lemma take_job_eq:
  "take_job c arr p =
     (let job = (case pl_jobs p of [] \<Rightarrow> None | j # _ \<Rightarrow> Some j)
      in if tl (pl_jobs p) \<noteq> [] then map_option (Pair job) (wake_standby c (after_take arr p))
         else if c = None then Some (job, after_take arr p) else None)"
  by (cases p; cases arr; cases "pl_jobs p")
    (simp_all add: take_job_def after_take_def Let_def option.map_sel split: option.split)

lemma take_jobD:
  assumes "take_job c arr p = Some (job, p')"
  shows "job = (case pl_jobs p of [] \<Rightarrow> None | j # _ \<Rightarrow> Some j)"
    and "pl_jobs p' = tl (pl_jobs p)"
    and "pl_capacity p' = pl_capacity p" "pl_max_threads p' = pl_max_threads p" "pl_live p' = pl_live p" "pl_spawning p' = pl_spawning p"
  using assms wake_standby_frame [of c "after_take arr p" p']
  by (auto simp: take_job_eq Let_def after_take_def split: if_splits)

text \<open>After a take the taking thread is at \<open>v\<close>, in a job or back at the top; neither is coming.\<close>

lemma after_take_sel:
  "pl_threads (after_take arr p) = pl_threads p" "pl_jobs (after_take arr p) = tl (pl_jobs p)"
  "pl_capacity (after_take arr p) = pl_capacity p" "pl_gil (after_take arr p) = pl_gil p" "pl_parked (after_take arr p) = pl_parked p"
  "pl_standby (after_take arr p) = (pl_standby p \<and> \<not> arr)"
  by (simp_all add: after_take_def)

text \<open>A standby that remains is another thread, on its way to the interpreter lock.\<close>

lemma standby_elsewhere:
  assumes inv: "pool_inv p" and i: "i < length (pl_threads p)" "pl_threads p ! i = Burst arr"
    and "pl_standby (after_take arr p)"
  shows "\<exists>t\<in>set (pl_threads p). t = Woken \<or> t = Waiting_gil"
proof -
  note I = pool_invD [OF inv]
  have "pl_standby p" "\<not> arr" using assms(4) by (auto simp: after_take_sel)
  then obtain j where j: "j < length (pl_threads p)" "coming (pl_threads p ! j)"
    using I(2) by (auto simp: in_set_conv_nth)
  have "pl_threads p ! j \<noteq> Burst True" using I(4) [OF j(1), of True] I(4) [OF i] i \<open>\<not> arr\<close> by auto
  then have "pl_threads p ! j = Woken \<or> pl_threads p ! j = Waiting_gil" using j(2) by (cases "pl_threads p ! j") auto
  then show ?thesis using j(1) by (metis nth_mem)
qed

lemma pool_inv_take_last:
  assumes inv: "pool_inv p" and i: "i < length (pl_threads p)" "pl_threads p ! i = Burst arr" and empty: "tl (pl_jobs p) = []"
    and q: "q = set_thread i v ((after_take arr p)\<lparr>pl_gil := g\<rparr>)" and v: "\<not> waiting v" "v = Looking \<or> (\<exists>j. v = Running j)"
  shows "pool_inv q"
proof -
  note I = pool_invD [OF inv]
  have cnt: "length (filter waiting ((pl_threads p)[i := v])) = length (filter waiting (pl_threads p))"
    using filter_update_length [OF i(1), of waiting v] v(1) i(2) by simp
  show ?thesis
  proof (rule pool_invI)
    show "\<exists>t\<in>set (pl_threads q). coming t" if "pl_standby q"
      using that ex_update_keep [of "pl_threads p" coming i v] I(2) i by (simp add: q after_take_sel)
    show "pl_gil q = Some j" if "j < length (pl_threads q)" "pl_threads q ! j = Burst a" for j a
      using that I(4) [of j a] I(4) [OF i] i v(2) by (auto simp: q after_take_sel nth_list_update split: if_splits)
  qed (use cnt I(1,5) empty in \<open>auto simp: q after_take_sel\<close>)
qed

lemma pool_inv_take_woke:
  assumes inv: "pool_inv p" and i: "i < length (pl_threads p)" "pl_threads p ! i = Burst arr"
    and woke: "wake_standby c (after_take arr p) = Some p'"
    and q: "q = set_thread i v (p'\<lparr>pl_gil := g\<rparr>)" and v: "\<not> waiting v" "v = Looking \<or> (\<exists>j. v = Running j)"
  shows "pool_inv q"
proof -
  note I = pool_invD [OF inv]
  let ?P = "\<lambda>t. t = Woken \<or> t = Waiting_gil"
  have "pl_parked (after_take arr p) = length (filter waiting (pl_threads (after_take arr p)))"
    using I(1) by (simp add: after_take_sel)
  note W = wake_standby_ok [OF woke this, of ?P, OF _ standby_elsewhere [OF inv i, folded after_take_sel(1) [of arr p]],
      unfolded after_take_sel]
  have pi: "pl_threads p' ! i = Burst arr" using W(5) [of i] i by auto
  have ex: "\<exists>t\<in>set (pl_threads q). coming t" if "\<exists>t\<in>set (pl_threads p'). ?P t"
  proof -
    have "\<exists>t\<in>set ((pl_threads p')[i := v]). ?P t" using that i(1) W(4) pi by (intro ex_update_keep) auto
    then show ?thesis unfolding q set_thread_sel by (auto intro: bexI [of _ Woken] bexI [of _ Waiting_gil])
  qed
  show ?thesis
  proof (rule pool_invI)
    show "pl_parked q = length (filter waiting (pl_threads q))"
      using filter_update_length [of i "pl_threads p'" waiting v] W(1,4) i(1) pi v(1) by (simp add: q)
    show "\<exists>t\<in>set (pl_threads q). coming t" if "pl_standby q" using ex W(2) that by (simp add: q)
    show "\<exists>t\<in>set (pl_threads q). on_the_way t" if "Parked \<in> set (pl_threads q)"
      using ex W(3) that v(1) coming_on_the_way by (fastforce simp: q dest: update_member)
    show "pl_gil q = Some j" if "j < length (pl_threads q)" "pl_threads q ! j = Burst a" for j a
    proof -
      have "j \<noteq> i" "pl_threads p' ! j = Burst a" using that v(2) W(4) i(1) by (auto simp: q nth_list_update split: if_splits)
      then have "pl_threads p ! j = Burst a" using W(5) [of j] that W(4) by (auto simp: q)
      then show ?thesis using I(4) [of j a] I(4) [OF i] that W(4) \<open>j \<noteq> i\<close> by (simp add: q)
    qed
    show "length (pl_jobs q) \<le> pl_capacity q" using W(6,7) I(5) by (simp add: q)
  qed
qed

lemma pool_inv_take:
  assumes "pool_inv p" "i < length (pl_threads p)" "pl_threads p ! i = Burst arr"
    and t: "take_job c arr p = Some (job, p')"
    and "q = set_thread i v (p'\<lparr>pl_gil := g\<rparr>)" "\<not> waiting v" "v = Looking \<or> (\<exists>j. v = Running j)"
  shows "pool_inv q"
proof (cases "tl (pl_jobs p) = []")
  case True
  then have "p' = after_take arr p" using t by (auto simp: take_job_eq Let_def split: if_splits)
  then show ?thesis using pool_inv_take_last [OF assms(1-3) True] assms(5-7) by simp
next
  case False
  then have "wake_standby c (after_take arr p) = Some p'" using t by (auto simp: take_job_eq Let_def)
  then show ?thesis using pool_inv_take_woke [OF assms(1-3)] assms(5-7) by simp
qed

lemma runningD: "running i p = Some job \<Longrightarrow> i < length (pl_threads p) \<and> pl_threads p ! i = Running job"
  by (auto simp: running_def split: if_splits thread.splits)

lemma pool_inv_gil:
  assumes "pool_inv p" "\<And>i arr. i < length (pl_threads p) \<Longrightarrow> pl_threads p ! i = Burst arr \<Longrightarrow> g = Some i"
  shows "pool_inv (p\<lparr>pl_gil := g\<rparr>)"
  using pool_invD [OF assms(1)] assms(2) by (intro pool_invI) auto

lemma pool_inv_append:
  assumes "pool_inv p" "pl_threads q = pl_threads p @ [Looking]" "pl_jobs q = pl_jobs p" "pl_parked q = pl_parked p"
    "pl_standby q = pl_standby p" "pl_capacity q = pl_capacity p" "pl_gil q = pl_gil p"
  shows "pool_inv q"
  using pool_invD [OF assms(1)] assms(2-) by (intro pool_invI) (auto simp: nth_append split: if_splits)

lemma pool_inv_take_step:
  assumes inv: "pool_inv p" and s: "pool_step (Take i c) p = Some (q, eff)"
  shows "pool_inv q"
proof -
  from s have i: "i < length (pl_threads p)" and g: "pl_gil p = Some i" by (auto split: if_splits)
  then obtain arr job p' where arr: "pl_threads p ! i = Burst arr" and t: "take_job c arr p = Some (job, p')"
    using s by (auto split: thread.splits option.splits)
  have gp: "pl_gil p' = pl_gil p" using t wake_standby_frame(3) [of c "after_take arr p" p']
    by (auto simp: take_job_eq Let_def after_take_def split: if_splits)
  show ?thesis
  proof (cases job)
    case None
    then have "q = set_thread i Looking (p'\<lparr>pl_gil := None\<rparr>)" using s i g arr t by simp
    then show ?thesis by (rule pool_inv_take [OF inv i arr t]) simp_all
  next
    case (Some j)
    then have "q = set_thread i (Running j) (p'\<lparr>pl_gil := pl_gil p'\<rparr>)" using s i g arr t by simp
    then show ?thesis by (rule pool_inv_take [OF inv i arr t]) simp_all
  qed
qed

lemma pool_inv_release_step:
  assumes inv: "pool_inv p" and s: "pool_step (Release i) p = Some (q, eff)"
  shows "pool_inv q"
proof -
  from s obtain job where r: "i < length (pl_threads p)" "pl_threads p ! i = Running job" and g: "pl_gil p = Some i"
    and q: "q = p\<lparr>pl_gil := None\<rparr>" using runningD by (auto split: if_splits)
  have "False" if "j < length (pl_threads p)" "pl_threads p ! j = Burst arr" for j arr
  proof -
    have "j = i" using pool_invD(4) [OF inv that] g by simp
    then show False using that(2) r(2) by simp
  qed
  then show ?thesis unfolding q by (intro pool_inv_gil [OF inv]) blast
qed

lemma pool_inv_reacquire_step:
  assumes inv: "pool_inv p" and s: "pool_step (Reacquire i) p = Some (q, eff)"
  shows "pool_inv q"
proof -
  from s have "pl_gil p = None" and q: "q = p\<lparr>pl_gil := Some i\<rparr>" by (auto split: if_splits)
  moreover have "False" if "j < length (pl_threads p)" "pl_threads p ! j = Burst arr" "pl_gil p = None" for j arr
    using pool_invD(4) [OF inv that(1,2)] that(3) by simp
  ultimately show ?thesis unfolding q by (intro pool_inv_gil [OF inv]) blast
qed

lemma pool_inv_panic_step:
  assumes inv: "pool_inv p" and s: "pool_step (Panic i) p = Some (q, eff)"
  shows "pool_inv q"
proof -
  from s obtain job where r: "i < length (pl_threads p)" "pl_threads p ! i = Running job"
    and q: "q = set_thread i Ended (p\<lparr>pl_live := pl_live p - 1, pl_gil := (if pl_gil p = Some i then None else pl_gil p)\<rparr>)"
    using runningD by (auto split: option.splits)
  show ?thesis
  proof (rule pool_inv_move [OF inv r, of q Ended])
    show "pl_gil q = Some j" if "j < length (pl_threads q)" "pl_threads q ! j = Burst arr" for j arr
    proof -
      have "j \<noteq> i" "pl_threads p ! j = Burst arr" using that r(1) by (auto simp: q nth_list_update split: if_splits)
      then show ?thesis using pool_invD(4) [OF inv, of j arr] that by (simp add: q)
    qed
  qed (auto simp: q)
qed

lemma pool_step_inv:
  assumes inv: "pool_inv p" and s: "pool_step a p = Some (q, eff)"
  shows "pool_inv q"
proof (cases a)
  case (Submit job c)
  then show ?thesis using pool_inv_submit [OF inv] s by simp
next
  case Timeout_reported
  then have "pl_threads q = pl_threads p" "pl_jobs q = pl_jobs p" "pl_parked q = pl_parked p"
    "pl_standby q = pl_standby p" "pl_capacity q = pl_capacity p" "pl_gil q = pl_gil p"
    using s by (auto simp: report_hard_timeout_def spawn_check_def split: if_splits)
  then show ?thesis using pool_invD [OF inv] by (intro pool_invI) auto
next
  case Spawned
  then show ?thesis using s by (intro pool_inv_append [OF inv]) (auto simp: spawn_thread_def split: if_splits)
next
  case (Look i)
  then show ?thesis using s pool_inv_wait_for_job [OF inv] by (auto simp: thread_is_def split: if_splits)
next
  case (Spurious i)
  then have i: "i < length (pl_threads p)" "pl_threads p ! i = Parked" and q: "q = set_thread i Woken p"
    using s by (auto simp: thread_is_def split: if_splits)
  show ?thesis
    using pool_invD(4) [OF inv] by (intro pool_inv_move [OF inv i, of q Woken]) (auto simp: q dest: nth_update_cases)
next
  case (Resume i)
  then show ?thesis using s pool_inv_resume [OF inv] by (auto simp: thread_is_def split: if_splits)
next
  case (Acquire i)
  then have i: "i < length (pl_threads p)" "pl_threads p ! i = Waiting_gil" and g: "pl_gil p = None"
    and q: "q = set_thread i (Burst True) (p\<lparr>pl_gil := Some i\<rparr>)"
    using s by (auto simp: thread_is_def split: if_splits)
  show ?thesis
    using pool_invD(4) [OF inv] g by (intro pool_inv_move [OF inv i, of q "Burst True"]) (auto simp: q dest: nth_update_cases)
next
  case (Take i c)
  then show ?thesis using s pool_inv_take_step [OF inv] by blast
next
  case (Finish i ob)
  then obtain job where r: "i < length (pl_threads p)" "pl_threads p ! i = Running job" and g: "pl_gil p = Some i"
    and q: "q = set_thread i (Burst False) p" using s runningD by (auto split: option.splits if_splits)
  show ?thesis
    using pool_invD(4) [OF inv] g by (intro pool_inv_move [OF inv r, of q "Burst False"]) (auto simp: q dest: nth_update_cases)
next
  case (Release i)
  then show ?thesis using s pool_inv_release_step [OF inv] by blast
next
  case (Reacquire i)
  then show ?thesis using s pool_inv_reacquire_step [OF inv] by blast
next
  case (Panic i)
  then show ?thesis using s pool_inv_panic_step [OF inv] by blast
qed

interpretation pool: machine pool_step pool_run
  by unfold_locales simp_all

subsection \<open>From the start\<close>

lemma pool_start_inv: "pool_inv (pool_start n cap)"
proof -
  define spawn where "spawn = (\<lambda>p. if pl_live p \<ge> pl_max_threads p then p else spawn_thread (p\<lparr>pl_spawning := pl_spawning p + 1\<rparr>))"
  have "pool_inv ((spawn ^^ k) p)" if "pool_inv p" for k p
  proof (induction k)
    case (Suc k)
    have "pool_inv (spawn q)" if "pool_inv q" for q
      using that pool_inv_append [OF that, of "spawn_thread (q\<lparr>pl_spawning := pl_spawning q + 1\<rparr>)"]
      by (simp add: spawn_def spawn_thread_def)
    then show ?case using Suc by simp
  qed (simp add: that)
  then show ?thesis unfolding pool_start_def Let_def spawn_def [symmetric] by (auto simp: pool_inv_def thread_is_def)
qed

lemma pool_reachable_inv: "pool_run as (pool_start n cap) = Some (p, eff) \<Longrightarrow> pool_inv p"
  using pool.run_invariant [of as "pool_start n cap" p eff pool_inv] pool_start_inv pool_step_inv by blast

subsection \<open>No wakeup is lost\<close>

text \<open>The steps thread \<open>i\<close> takes by itself on its way to the queue.\<close>

definition own_step :: "nat \<Rightarrow> pool_action \<Rightarrow> bool" where
  "own_step i a \<longleftrightarrow> a \<in> {Look i, Resume i, Acquire i} \<or> (\<exists>c. a = Take i c)"

lemma wake_standby_possible: "\<exists>c p'. wake_standby c p = Some p'"
proof (cases "Parked \<in> set (pl_threads p)")
  case True
  then obtain i where "i < length (pl_threads p)" "pl_threads p ! i = Parked" by (auto simp: in_set_conv_nth)
  then have "wake_standby (if \<not> pl_standby p \<and> 0 < pl_parked p then Some i else None) p \<noteq> None"
    by (simp add: wake_standby_def notify_one_def thread_is_def)
  then show ?thesis by blast
next
  case False
  then have "wake_standby None p \<noteq> None" by (simp add: wake_standby_def notify_one_def)
  then show ?thesis by blast
qed

lemma take_job_possible:
  assumes "pl_jobs p = job # js"
  shows "\<exists>c p'. take_job c arr p = Some (Some job, p') \<and> length (pl_threads p') = length (pl_threads p)"
proof (cases "js = []")
  case True
  then show ?thesis using assms by (intro exI [of _ None]) (simp add: take_job_eq after_take_def)
next
  case False
  obtain c p' where w: "wake_standby c (after_take arr p) = Some p'" using wake_standby_possible by blast
  have "length (pl_threads p') = length (pl_threads p)"
    using w by (auto simp: wake_standby_def notify_one_def after_take_def split: if_splits option.splits)
  then show ?thesis using w assms False by (intro exI [of _ c]) (simp add: take_job_eq)
qed

lemma waiting_gil_takes:
  assumes "thread_is i Waiting_gil p" "pl_gil p = None" "pl_jobs p = job # js"
  shows "\<exists>c p'. pool_run [Acquire i, Take i c] p = Some (p', [Taken job]) \<and> thread_is i (Running job) p'"
proof -
  define p2 where "p2 = set_thread i (Burst True) (p\<lparr>pl_gil := Some i\<rparr>)"
  have a: "pool_step (Acquire i) p = Some (p2, [])" using assms by (simp add: p2_def)
  have i: "i < length (pl_threads p2)" "pl_threads p2 ! i = Burst True" "pl_gil p2 = Some i" "pl_jobs p2 = job # js"
    using assms by (simp_all add: p2_def thread_is_def)
  obtain c p' where t: "take_job c True p2 = Some (Some job, p')" "length (pl_threads p') = length (pl_threads p2)"
    using take_job_possible [OF i(4)] by blast
  then have "pool_step (Take i c) p2 = Some (set_thread i (Running job) p', [Taken job])" using i by simp
  then show ?thesis using a t i by (intro exI [of _ c]) (simp add: thread_is_def del: pool_step.simps)
qed

text \<open>
  C8. No wakeup is lost, in any interleaving: whenever a job is queued, the interpreter lock is free and
  some thread is not inside a job, one such thread reaches the job at the head of the queue and starts it
  by at most three steps of its own, without any further notification, submission or finished job. So a
  job that blocks never holds up the one behind it while a thread is idle.
\<close>

theorem queued_job_is_reached:
  assumes "pool_run as (pool_start n cap) = Some (p, eff)" "pl_jobs p = job # js" "pl_gil p = None"
    and "\<exists>t\<in>set (pl_threads p). t \<noteq> Ended \<and> (\<forall>j. t \<noteq> Running j)"
  shows "\<exists>i steps p'. length steps \<le> 3 \<and> list_all (own_step i) steps
    \<and> pool_run steps p = Some (p', [Taken job]) \<and> thread_is i (Running job) p'"
proof -
  note I = pool_invD [OF pool_reachable_inv [OF assms(1)]]
  have "\<exists>t\<in>set (pl_threads p). on_the_way t"
    using assms(4) I(3) assms(2) by (metis list.distinct(1) on_the_way_simps(1-4) thread.exhaust)
  then obtain i where i: "i < length (pl_threads p)" "on_the_way (pl_threads p ! i)" by (auto simp: in_set_conv_nth)
  have direct: ?thesis if first: "pool_step a p = Some (p1, [])" "own_step i a" and w: "thread_is i Waiting_gil p1"
    "pl_gil p1 = None" "pl_jobs p1 = job # js" for a p1
  proof -
    obtain c p' where r: "pool_run [Acquire i, Take i c] p1 = Some (p', [Taken job])" "thread_is i (Running job) p'"
      using waiting_gil_takes [OF w] by blast
    then have "pool_run [a, Acquire i, Take i c] p = Some (p', [Taken job])" using first by simp
    then show ?thesis using r(2) first(2) by (intro exI [of _ i] exI [of _ "[a, Acquire i, Take i c]"]) (auto simp: own_step_def)
  qed
  show ?thesis
  proof (cases "pl_threads p ! i")
    case Looking
    then show ?thesis
      using direct [of "Look i" "wait_for_job i p"] i assms(2,3) by (simp add: thread_is_def wait_for_job_def own_step_def)
  next
    case Woken
    then show ?thesis
      using direct [of "Resume i" "resume_wait i p"] i assms(2,3)
      by (simp add: thread_is_def resume_wait_def wait_for_job_def own_step_def Let_def)
  next
    case Waiting_gil
    then obtain c p' where "pool_run [Acquire i, Take i c] p = Some (p', [Taken job])" "thread_is i (Running job) p'"
      using waiting_gil_takes [of i p job js] assms(2,3) i by (auto simp: thread_is_def)
    then show ?thesis by (intro exI [of _ i] exI [of _ "[Acquire i, Take i c]"]) (auto simp: own_step_def)
  next
    case (Burst arr)
    then show ?thesis using I(4) [OF i(1)] assms(3) by simp
  qed (use i in simp_all)
qed

subsection \<open>Every accepted job is run once, in order\<close>

definition accepted :: "pool_effect list \<Rightarrow> sync_job list" where
  "accepted eff = concat (map (\<lambda>e. case e of Accepted j \<Rightarrow> [j] | _ \<Rightarrow> []) eff)"

definition taken_jobs :: "pool_effect list \<Rightarrow> sync_job list" where
  "taken_jobs eff = concat (map (\<lambda>e. case e of Taken j \<Rightarrow> [j] | _ \<Rightarrow> []) eff)"

definition ended_jobs :: "pool_effect list \<Rightarrow> sync_job list" where
  "ended_jobs eff = concat (map (\<lambda>e. case e of Done j \<Rightarrow> [j] | _ \<Rightarrow> []) eff)"

definition answered_jobs :: "pool_effect list \<Rightarrow> sync_job list" where
  "answered_jobs eff = concat (map (\<lambda>e. case e of Answered j _ \<Rightarrow> [j] | _ \<Rightarrow> []) eff)"

lemmas effect_lists = accepted_def taken_jobs_def ended_jobs_def answered_jobs_def

definition job_of :: "thread \<Rightarrow> sync_job list" where
  "job_of t = (case t of Running j \<Rightarrow> [j] | _ \<Rightarrow> [])"

definition in_progress :: "pool \<Rightarrow> sync_job list" where
  "in_progress p = concat (map job_of (pl_threads p))"

lemma job_of_simps [simp]:
  "job_of (Running j) = [j]" "job_of Looking = []" "job_of Parked = []" "job_of Woken = []" "job_of Waiting_gil = []"
  "job_of (Burst b) = []" "job_of Ended = []"
  by (simp_all add: job_of_def)

lemma in_progress_update:
  "i < length ts \<Longrightarrow> mset (concat (map job_of (ts[i := v]))) + mset (job_of (ts ! i)) = mset (concat (map job_of ts)) + mset (job_of v)"
proof (induction ts arbitrary: i)
  case (Cons t ts)
  show ?case
  proof (cases i)
    case (Suc k)
    then show ?thesis using Cons.IH [of k] Cons.prems by (simp add: ac_simps)
  qed simp
qed simp

lemma in_progress_set:
  assumes "thread_is i u p"
  shows "mset (in_progress (set_thread i v p)) + mset (job_of u) = mset (in_progress p) + mset (job_of v)"
  using in_progress_update [of i "pl_threads p" v] assms by (simp add: in_progress_def thread_is_def)

lemma in_progress_idle:
  "thread_is i u p \<Longrightarrow> job_of u = [] \<Longrightarrow> job_of v = [] \<Longrightarrow> mset (in_progress (set_thread i v p)) = mset (in_progress p)"
  using in_progress_set [of i u p v] by simp

lemma in_progress_cong: "pl_threads q = pl_threads p \<Longrightarrow> in_progress q = in_progress p"
  by (simp add: in_progress_def)

lemma wake_standby_in_progress:
  assumes "wake_standby c p = Some p'" shows "mset (in_progress p') = mset (in_progress p)"
  using assms
proof (cases rule: wake_standby_cases)
  case (woke i)
  then show ?thesis using in_progress_update [of i "pl_threads p" Woken] by (simp add: in_progress_def)
qed (simp_all add: in_progress_def)

lemma take_job_in_progress:
  "take_job c arr p = Some (job, p') \<Longrightarrow> mset (in_progress p') = mset (in_progress p)"
  using wake_standby_in_progress [of c "after_take arr p" p']
  by (auto simp: take_job_eq Let_def in_progress_def after_take_def split: if_splits)

lemma take_job_thread:
  assumes "take_job c arr p = Some (job, p')" "thread_is i (Burst b) p"
  shows "thread_is i (Burst b) p'"
proof -
  have "thread_is i (Burst b) p'" if "wake_standby c q = Some p'" "thread_is i (Burst b) q" for q
    using that(1)
  proof (cases rule: wake_standby_cases)
    case (woke j)
    then have "j \<noteq> i" using that(2) by (auto simp: thread_is_def)
    then show ?thesis using woke that(2) by (simp add: thread_is_def)
  qed (use that(2) in \<open>simp_all add: thread_is_def\<close>)
  then show ?thesis
    using assms by (auto simp: take_job_eq Let_def after_take_def thread_is_def split: if_splits)
qed

text \<open>The account of a step.\<close>

definition pool_account :: "pool \<Rightarrow> pool_effect list \<Rightarrow> pool \<Rightarrow> bool" where
  "pool_account p eff q \<longleftrightarrow>
     pl_jobs p @ accepted eff = taken_jobs eff @ pl_jobs q
     \<and> mset (in_progress p) + mset (taken_jobs eff) = mset (ended_jobs eff) + mset (in_progress q)
     \<and> mset (answered_jobs eff) \<subseteq># mset (ended_jobs eff) \<and> pl_capacity q = pl_capacity p"

lemma submit_account:
  assumes "submit_sync c job p = Some (q, eff)"
  shows "pool_account p eff q"
proof (cases "length (pl_jobs p) \<ge> pl_capacity p")
  case True
  then show ?thesis using assms by (auto simp: submit_sync_def pool_account_def effect_lists split: if_splits)
next
  case False
  let ?p = "p\<lparr>pl_jobs := pl_jobs p @ [job]\<rparr>"
  have w: "wake_standby c ?p = Some q" "eff = [Accepted job]"
    using False assms by (auto simp: submit_sync_def split: option.splits)
  then show ?thesis
    using wake_standby_frame [OF w(1)] wake_standby_in_progress [OF w(1)] by (simp add: pool_account_def effect_lists in_progress_def)
qed

lemma take_account:
  assumes "pool_step (Take i c) p = Some (q, eff)"
  shows "pool_account p eff q"
proof -
  obtain arr job p' where arr: "thread_is i (Burst arr) p" and t: "take_job c arr p = Some (job, p')"
    and g: "pl_gil p = Some i" using assms by (auto simp: thread_is_def split: thread.splits option.splits if_splits)
  note D = take_jobD [OF t] take_job_in_progress [OF t]
  have ti: "thread_is i (Burst arr) p'" by (rule take_job_thread [OF t arr])
  show ?thesis
  proof (cases job)
    case None
    then have "q = set_thread i Looking (p'\<lparr>pl_gil := None\<rparr>)" "eff = []" using assms arr t g by (simp_all add: thread_is_def)
    moreover have "thread_is i (Burst arr) (p'\<lparr>pl_gil := None\<rparr>)" using ti by (simp add: thread_is_def)
    ultimately show ?thesis
      using in_progress_idle [of i "Burst arr" "p'\<lparr>pl_gil := None\<rparr>" Looking] D None
      by (simp add: pool_account_def effect_lists in_progress_def split: list.splits)
  next
    case (Some j)
    then have "q = set_thread i (Running j) p'" "eff = [Taken j]" using assms arr t g by (simp_all add: thread_is_def)
    then show ?thesis using in_progress_set [OF ti, of "Running j"] D Some by (auto simp: pool_account_def effect_lists split: list.splits)
  qed
qed

lemma pool_step_account:
  assumes "pool_step a p = Some (q, eff)"
  shows "pool_account p eff q"
proof (cases a)
  case (Submit job c)
  then show ?thesis using assms submit_account by simp
next
  case Timeout_reported
  then show ?thesis using assms by (auto simp: report_hard_timeout_def spawn_check_def pool_account_def effect_lists in_progress_def)
next
  case Spawned
  then show ?thesis using assms by (auto simp: spawn_thread_def pool_account_def effect_lists in_progress_def split: if_splits)
next
  case (Look i)
  then have t: "thread_is i Looking p" and q: "q = wait_for_job i p" "eff = []" using assms by (auto split: if_splits)
  have "thread_is i Looking (p\<lparr>pl_parked := n\<rparr>)" for n using t by (simp add: thread_is_def)
  from in_progress_idle [OF this, of Parked] in_progress_idle [OF t, of Waiting_gil]
  show ?thesis unfolding q by (simp add: wait_for_job_def pool_account_def effect_lists in_progress_def)
next
  case (Spurious i)
  then show ?thesis using assms in_progress_idle [of i Parked p Woken] by (auto simp: pool_account_def effect_lists split: if_splits)
next
  case (Resume i)
  then have t: "thread_is i Woken p" and q: "q = resume_wait i p" "eff = []" using assms by (auto split: if_splits)
  have "thread_is i Woken (p\<lparr>pl_parked := n, pl_standby := b\<rparr>)" "thread_is i Woken (p\<lparr>pl_parked := n\<rparr>)" for n b
    using t by (simp_all add: thread_is_def)
  from in_progress_idle [OF this(1), of Parked] in_progress_idle [OF this(2), of Waiting_gil]
  show ?thesis unfolding q by (simp add: resume_wait_def wait_for_job_def pool_account_def effect_lists in_progress_def Let_def)
next
  case (Acquire i)
  then have t: "thread_is i Waiting_gil (p\<lparr>pl_gil := Some i\<rparr>)" and q: "q = set_thread i (Burst True) (p\<lparr>pl_gil := Some i\<rparr>)" "eff = []"
    using assms by (auto simp: thread_is_def split: if_splits)
  show ?thesis using in_progress_idle [OF t, of "Burst True"] unfolding q by (simp add: pool_account_def effect_lists in_progress_def)
next
  case (Take i c)
  then show ?thesis using assms take_account by blast
next
  case (Finish i ob)
  then obtain job where r: "thread_is i (Running job) p" and q: "q = set_thread i (Burst False) p" "eff = run_sync_job job ob @ [Done job]"
    using assms runningD by (auto simp: thread_is_def split: option.splits if_splits)
  show ?thesis using in_progress_set [OF r, of "Burst False"] unfolding q by (simp add: pool_account_def effect_lists run_sync_job_def)
next
  case (Panic i)
  let ?p = "p\<lparr>pl_live := pl_live p - 1, pl_gil := (if pl_gil p = Some i then None else pl_gil p)\<rparr>"
  obtain job where r: "thread_is i (Running job) ?p" and q: "q = set_thread i Ended ?p" "eff = [Done job]"
    using assms Panic runningD by (auto simp: thread_is_def split: option.splits)
  show ?thesis using in_progress_set [OF r, of Ended] unfolding q by (simp add: pool_account_def effect_lists in_progress_def)
qed (use assms in \<open>auto simp: pool_account_def effect_lists in_progress_def split: if_splits\<close>)

lemma pool_account_refl: "pool_account p [] p"
  by (simp add: pool_account_def effect_lists)

lemma pool_account_trans:
  assumes "pool_account p e1 p1" "pool_account p1 e2 p2"
  shows "pool_account p (e1 @ e2) p2"
proof -
  have app: "accepted (e1 @ e2) = accepted e1 @ accepted e2" "taken_jobs (e1 @ e2) = taken_jobs e1 @ taken_jobs e2"
    "ended_jobs (e1 @ e2) = ended_jobs e1 @ ended_jobs e2" "answered_jobs (e1 @ e2) = answered_jobs e1 @ answered_jobs e2"
    by (simp_all add: effect_lists)
  note A = assms(1) [unfolded pool_account_def] and B = assms(2) [unfolded pool_account_def]
  have "mset (in_progress p) + mset (taken_jobs (e1 @ e2)) = mset (ended_jobs (e1 @ e2)) + mset (in_progress p2)"
    using A B unfolding app by (metis (no_types, opaque_lifting) add.assoc add.commute mset_append)
  moreover have "pl_jobs p @ accepted (e1 @ e2) = taken_jobs (e1 @ e2) @ pl_jobs p2" using A B unfolding app by (metis append.assoc)
  ultimately show ?thesis using A B unfolding pool_account_def app by (simp add: subset_mset.add_mono)
qed

lemma pool_run_account: "pool_run as p = Some (q, eff) \<Longrightarrow> pool_account p eff q"
  by (rule pool.run_account [of as p q eff pool_account])
    (auto intro: pool_account_refl pool_account_trans pool_step_account)

lemma pool_start_fields:
  "pl_threads (pool_start n cap) = replicate (max n 1) Looking \<and> pl_live (pool_start n cap) = int (max n 1)
   \<and> pl_spawning (pool_start n cap) = 0 \<and> pl_max_threads (pool_start n cap) = 4 * int (max n 1)
   \<and> pl_jobs (pool_start n cap) = [] \<and> pl_capacity (pool_start n cap) = max cap 1"
proof -
  define m where "m = max n 1"
  define spawn where "spawn = (\<lambda>p. if pl_live p \<ge> pl_max_threads p then p else spawn_thread (p\<lparr>pl_spawning := pl_spawning p + 1\<rparr>))"
  define p0 where "p0 = \<lparr>pl_jobs = [], pl_parked = 0, pl_standby = False, pl_capacity = max cap 1, pl_threads = [],
    pl_gil = None, pl_max_threads = int m * SYNC_POOL_THREAD_CEILING_MULTIPLE, pl_live = 0, pl_spawning = 0, pl_abandoned = 0\<rparr>"
  have "k \<le> m \<Longrightarrow> pl_threads ((spawn ^^ k) p0) = replicate k Looking \<and> pl_live ((spawn ^^ k) p0) = int k
    \<and> pl_spawning ((spawn ^^ k) p0) = 0 \<and> pl_max_threads ((spawn ^^ k) p0) = 4 * int m
    \<and> pl_jobs ((spawn ^^ k) p0) = [] \<and> pl_capacity ((spawn ^^ k) p0) = max cap 1" for k
  proof (induction k)
    case 0
    then show ?case by (simp add: p0_def SYNC_POOL_THREAD_CEILING_MULTIPLE_def)
  next
    case (Suc k)
    then show ?case by (simp add: spawn_def spawn_thread_def replicate_append_same)
  qed
  from this [of m] show ?thesis unfolding pool_start_def Let_def spawn_def [symmetric] m_def [symmetric] p0_def [symmetric] by simp
qed

text \<open>
  C9. The pool runs what it accepted, once and in order: over any interleaving the accepted jobs are, in
  order of acceptance, the jobs threads have taken followed by those still queued; a taken job is in
  progress or has ended, exactly once; no job is answered twice; and the queue never exceeds its bound.
\<close>

theorem pool_runs_accepted_jobs_once:
  assumes "pool_run as (pool_start n cap) = Some (p, eff)"
  shows "accepted eff = taken_jobs eff @ pl_jobs p \<and> length (pl_jobs p) \<le> max cap 1
    \<and> mset (taken_jobs eff) = mset (ended_jobs eff) + mset (in_progress p)
    \<and> mset (answered_jobs eff) \<subseteq># mset (ended_jobs eff)"
proof -
  note A = pool_run_account [OF assms, unfolded pool_account_def] and S = pool_start_fields [of n cap]
  have "in_progress (pool_start n cap) = []" using S by (simp add: in_progress_def)
  moreover have "length (pl_jobs p) \<le> pl_capacity p" by (rule pool_invD(5) [OF pool_reachable_inv [OF assms]])
  ultimately show ?thesis using A S by simp
qed

subsection \<open>The ceiling of threads\<close>

text \<open>The largest number of callers of \<open>spawn_worker\<close> at once between their check and their increment.\<close>

fun peak_spawning :: "pool_action list \<Rightarrow> pool \<Rightarrow> nat" where
  "peak_spawning [] p = pl_spawning p"
| "peak_spawning (a # as) p =
     max (pl_spawning p) (case pool_step a p of None \<Rightarrow> 0 | Some (q, _) \<Rightarrow> peak_spawning as q)"

lemma pool_step_threads:
  assumes "pool_step a p = Some (q, eff)"
  shows "pl_max_threads q = pl_max_threads p
    \<and> (pl_live q + int (pl_spawning q) \<le> pl_live p + int (pl_spawning p)
       \<or> pl_live q = pl_live p \<and> pl_live p < pl_max_threads p)"
proof (cases a)
  case (Submit job c)
  then show ?thesis
    using assms wake_standby_frame(4-6) [of c "p\<lparr>pl_jobs := pl_jobs p @ [job]\<rparr>" q]
    by (auto simp: submit_sync_def split: if_splits option.splits)
next
  case (Take i c)
  then obtain arr job p' where "take_job c arr p = Some (job, p')" "pl_max_threads q = pl_max_threads p'"
    "pl_live q = pl_live p'" "pl_spawning q = pl_spawning p'"
    using assms by (auto split: thread.splits option.splits if_splits)
  then show ?thesis using take_jobD(4-6) [of c arr p job p'] by simp
qed (use assms in \<open>auto simp: report_hard_timeout_def spawn_check_def spawn_thread_def wait_for_job_def resume_wait_def Let_def
    split: if_splits option.splits\<close>)

lemma live_bounded:
  assumes "pool_run as p = Some (q, eff)" "peak_spawning as p \<le> k" "pl_live p + int (pl_spawning p) \<le> pl_max_threads p + int k - 1"
  shows "pl_live q + int (pl_spawning q) \<le> pl_max_threads p + int k - 1"
  using assms
proof (induction as arbitrary: p eff)
  case (Cons a as)
  obtain p1 e1 e2 where s: "pool_step a p = Some (p1, e1)" "pool_run as p1 = Some (q, e2)"
    using Cons.prems(1) by (rule pool.run_ConsE)
  have pk: "peak_spawning as p1 \<le> k" using Cons.prems(2) s(1) by simp
  moreover have "pl_spawning p1 \<le> peak_spawning as p1" by (cases as) simp_all
  ultimately have "pl_spawning p1 \<le> k" by simp
  then have "pl_live p1 + int (pl_spawning p1) \<le> pl_max_threads p1 + int k - 1"
    using pool_step_threads [OF s(1)] Cons.prems(3) by auto
  then show ?case using Cons.IH [OF s(2) pk] pool_step_threads [OF s(1)] by simp
qed simp


subsection \<open>Examples\<close>

definition demo_sync_job :: "string \<Rightarrow> nat \<Rightarrow> sync_job" where
  "demo_sync_job name ch =
     \<lparr>sj_name = name, sj_args = ''[]'', sj_kwargs = ''{}'', sj_soft_timeout_ms = None, sj_meta = None, sj_started = ch, sj_resp = ch\<rparr>"

text \<open>Two threads park; two jobs arrive, the first wakes a thread; it takes the first job, wakes the other
  thread for the second, and its job blocks.\<close>

definition demo_actions :: "pool_action list" where
  "demo_actions = [Look 0, Look 1, Submit (demo_sync_job ''a'' 1) (Some 0), Submit (demo_sync_job ''b'' 2) None,
     Resume 0, Acquire 0, Take 0 (Some 1), Release 0]"

lemmas pool_eval = pool_start_def spawn_thread_def SYNC_POOL_THREAD_CEILING_MULTIPLE_def thread_is_def wait_for_job_def resume_wait_def
  submit_sync_def wake_standby_def notify_one_def take_job_def set_thread_def running_def report_hard_timeout_def spawn_check_def
  numeral_2_eq_2 Let_def

lemma demo_pool_run:
  "\<exists>p. pool_run demo_actions (pool_start 2 8) = Some (p, [Accepted (demo_sync_job ''a'' 1), Accepted (demo_sync_job ''b'' 2), Taken (demo_sync_job ''a'' 1)])
     \<and> pl_jobs p = [demo_sync_job ''b'' 2] \<and> pl_gil p = None \<and> pl_threads p = [Running (demo_sync_job ''a'' 1), Woken]"
  by (simp add: demo_actions_def pool_eval)

theorem queued_job_is_reached_witness:
  "\<exists>p eff i steps p'. pool_run demo_actions (pool_start 2 8) = Some (p, eff) \<and> pl_jobs p = [demo_sync_job ''b'' 2]
     \<and> pool_run steps p = Some (p', [Taken (demo_sync_job ''b'' 2)]) \<and> thread_is i (Running (demo_sync_job ''b'' 2)) p'"
proof -
  obtain p eff where r: "pool_run demo_actions (pool_start 2 8) = Some (p, eff)" "pl_jobs p = [demo_sync_job ''b'' 2]"
    "pl_gil p = None" "pl_threads p = [Running (demo_sync_job ''a'' 1), Woken]" using demo_pool_run by blast
  from queued_job_is_reached [OF r(1-3)] r show ?thesis by auto
qed

theorem pool_runs_accepted_jobs_once_witness:
  "\<exists>p eff. pool_run demo_actions (pool_start 2 8) = Some (p, eff) \<and> length (accepted eff) = 2
     \<and> accepted eff = taken_jobs eff @ pl_jobs p"
proof -
  obtain p where r: "pool_run demo_actions (pool_start 2 8) = Some (p, [Accepted (demo_sync_job ''a'' 1), Accepted (demo_sync_job ''b'' 2), Taken (demo_sync_job ''a'' 1)])"
    using demo_pool_run by blast
  have "length (accepted [Accepted (demo_sync_job ''a'' 1), Accepted (demo_sync_job ''b'' 2), Taken (demo_sync_job ''a'' 1)]) = 2"
    by (simp add: accepted_def)
  with pool_runs_accepted_jobs_once [OF r] r show ?thesis by blast
qed


text \<open>The check and the increment are not one step: four reports at once, each of which still sees one live
  thread, push the pool past its ceiling of four.\<close>

lemma pool_ceiling_race:
  "\<exists>p eff. pool_run [Timeout_reported, Timeout_reported, Timeout_reported, Timeout_reported, Spawned, Spawned, Spawned, Spawned]
       (pool_start 1 1) = Some (p, eff) \<and> pl_max_threads p < pl_live p"
  by (simp add: pool_eval)

end
