(* ===== verification/Handover.thy ===== *)
theory Handover
  imports Pool
begin

section \<open>A job between its dispatcher and a pool thread\<close>

text \<open>
  The synchronous lane (\<open>run_sync_task\<close>, exec.rs) and the pool thread that takes its job (\<open>run_sync_job\<close>, pyrt.rs)
  talk over two one-shot channels: \<open>started\<close>, on which the thread announces that it commits to the job, and
  \<open>resp\<close>, on which it answers. Either side may give up at any time. The machine interleaves their sections;
  a wait that times out has looked at the channel once more before, and drops its receiver only after.
\<close>

subsection \<open>State\<close>

datatype lane_phase = Awaits_start | Missed_start | Returning | Awaits_answer | Missed_answer | Returned sync_run

datatype thread_phase = Queued_job | Checked_job | Announced_job | Over_job

text \<open>Channels: receiver alive, sender alive, value. The last fields record what the thread met and whether
  it announced itself after the lane had looked for the last time.\<close>

record handover =
  ho_lane :: lane_phase
  ho_thread :: thread_phase
  ho_start_rx :: bool
  ho_start_tx :: bool
  ho_start_val :: bool
  ho_resp_rx :: bool
  ho_resp_tx :: bool
  ho_resp_val :: "outcome option"
  ho_obs :: job_obs
  ho_late :: bool

definition no_outcome :: outcome where
  "no_outcome = Failure (ErrorJson_new '''' '''') False"

definition handover_start :: handover where
  "handover_start = \<lparr>ho_lane = Awaits_start, ho_thread = Queued_job, ho_start_rx = True, ho_start_tx = True, ho_start_val = False,
     ho_resp_rx = True, ho_resp_tx = True, ho_resp_val = None,
     ho_obs = \<lparr>jo_closed = True, jo_listening = False, jo_outcome = no_outcome\<rparr>, ho_late = False\<rparr>"

definition lane_run :: "unit waited \<Rightarrow> outcome waited \<Rightarrow> u64 \<Rightarrow> sync_run" where
  "lane_run started resp ms = \<lparr>sr_accepted = True, sr_started = started, sr_resp = resp, sr_elapsed_ms = ms\<rparr>"

subsection \<open>Steps\<close>

datatype handover_action =
    Poll_start bool
  | Drop_start
  | Return_early
  | Poll_answer bool u64
  | Drop_answer u64
  | Check_closed
  | Send_start
  | Send_answer outcome
  | Thread_dies

text \<open>A poll of the lane: the value, the end of the channel, or nothing, and then the timer may have fired.\<close>

definition poll_start :: "bool \<Rightarrow> handover \<Rightarrow> handover" where
  "poll_start expired s =
     (if ho_start_val s then s\<lparr>ho_lane := Awaits_answer, ho_start_rx := False\<rparr>
      else if \<not> ho_start_tx s
      then s\<lparr>ho_lane := Returned (lane_run Closed Closed 0), ho_start_rx := False, ho_resp_rx := False\<rparr>
      else if expired then s\<lparr>ho_lane := Missed_start\<rparr> else s)"

definition poll_answer :: "bool \<Rightarrow> u64 \<Rightarrow> handover \<Rightarrow> handover" where
  "poll_answer expired ms s =
     (case ho_resp_val s of
        Some out \<Rightarrow> s\<lparr>ho_lane := Returned (lane_run (Got ()) (Got out) ms), ho_resp_rx := False\<rparr>
      | None \<Rightarrow>
          if \<not> ho_resp_tx s then s\<lparr>ho_lane := Returned (lane_run (Got ()) Closed ms), ho_resp_rx := False\<rparr>
          else if expired then s\<lparr>ho_lane := Missed_answer\<rparr> else s)"

text \<open>The thread: the check for an abandoned job, the announcement, the answer.\<close>

definition check_closed :: "handover \<Rightarrow> handover" where
  "check_closed s =
     (if \<not> ho_resp_rx s
      then s\<lparr>ho_thread := Over_job, ho_start_tx := False, ho_resp_tx := False, ho_obs := (ho_obs s)\<lparr>jo_closed := True\<rparr>\<rparr>
      else s\<lparr>ho_thread := Checked_job, ho_obs := (ho_obs s)\<lparr>jo_closed := False\<rparr>\<rparr>)"

definition send_start :: "handover \<Rightarrow> handover" where
  "send_start s =
     (if \<not> ho_start_rx s
      then s\<lparr>ho_thread := Over_job, ho_start_tx := False, ho_resp_tx := False, ho_obs := (ho_obs s)\<lparr>jo_listening := False\<rparr>\<rparr>
      else s\<lparr>ho_thread := Announced_job, ho_start_tx := False, ho_start_val := True,
              ho_obs := (ho_obs s)\<lparr>jo_listening := True\<rparr>, ho_late := (ho_lane s = Missed_start)\<rparr>)"

definition send_answer :: "outcome \<Rightarrow> handover \<Rightarrow> handover" where
  "send_answer out s =
     s\<lparr>ho_thread := Over_job, ho_resp_tx := False, ho_resp_val := (if ho_resp_rx s then Some out else None),
        ho_obs := (ho_obs s)\<lparr>jo_outcome := out\<rparr>\<rparr>"

fun handover_step :: "handover_action \<Rightarrow> handover \<Rightarrow> (handover \<times> unit list) option" where
  "handover_step (Poll_start expired) s = (if ho_lane s = Awaits_start then Some (poll_start expired s, []) else None)"
| "handover_step Drop_start s =
     (if ho_lane s = Missed_start then Some (s\<lparr>ho_lane := Returning, ho_start_rx := False\<rparr>, []) else None)"
| "handover_step Return_early s =
     (if ho_lane s = Returning then Some (s\<lparr>ho_lane := Returned (lane_run Elapsed Closed 0), ho_resp_rx := False\<rparr>, []) else None)"
| "handover_step (Poll_answer expired ms) s = (if ho_lane s = Awaits_answer then Some (poll_answer expired ms s, []) else None)"
| "handover_step (Drop_answer ms) s =
     (if ho_lane s = Missed_answer then Some (s\<lparr>ho_lane := Returned (lane_run (Got ()) Elapsed ms), ho_resp_rx := False\<rparr>, []) else None)"
| "handover_step Check_closed s = (if ho_thread s = Queued_job then Some (check_closed s, []) else None)"
| "handover_step Send_start s = (if ho_thread s = Checked_job then Some (send_start s, []) else None)"
| "handover_step (Send_answer out) s = (if ho_thread s = Announced_job then Some (send_answer out s, []) else None)"
| "handover_step Thread_dies s =
     (if ho_thread s \<in> {Queued_job, Checked_job, Announced_job}
      then Some (s\<lparr>ho_thread := Over_job, ho_start_tx := False, ho_resp_tx := False\<rparr>, []) else None)"

fun handover_run :: "handover_action list \<Rightarrow> handover \<Rightarrow> (handover \<times> unit list) option" where
  "handover_run [] s = Some (s, [])"
| "handover_run (a # as) s =
     (case handover_step a s of
        None \<Rightarrow> None
      | Some (s', eff) \<Rightarrow>
          (case handover_run as s' of None \<Rightarrow> None | Some (s'', eff') \<Rightarrow> Some (s'', eff @ eff')))"

interpretation handover: machine handover_step handover_run
  by unfold_locales simp_all

section \<open>What the two sides agree on\<close>

definition announced :: "handover \<Rightarrow> bool" where
  "announced s \<longleftrightarrow> \<not> jo_closed (ho_obs s) \<and> jo_listening (ho_obs s)"

fun lane_ok :: "handover \<Rightarrow> lane_phase \<Rightarrow> bool" where
  "lane_ok s Awaits_start \<longleftrightarrow> ho_start_rx s \<and> ho_resp_rx s \<and> \<not> ho_late s"
| "lane_ok s Missed_start \<longleftrightarrow> ho_resp_rx s \<and> (announced s \<longrightarrow> ho_late s)"
| "lane_ok s Returning \<longleftrightarrow> \<not> ho_start_rx s \<and> ho_resp_rx s \<and> (announced s \<longrightarrow> ho_late s)"
| "lane_ok s Awaits_answer \<longleftrightarrow> \<not> ho_start_rx s \<and> ho_resp_rx s \<and> announced s \<and> \<not> ho_late s"
| "lane_ok s Missed_answer \<longleftrightarrow> \<not> ho_start_rx s \<and> ho_resp_rx s \<and> announced s \<and> \<not> ho_late s"
| "lane_ok s (Returned r) \<longleftrightarrow> \<not> ho_start_rx s \<and> \<not> ho_resp_rx s \<and> sr_accepted r
     \<and> (case sr_started r of
          Got _ \<Rightarrow> announced s \<and> \<not> ho_late s \<and> (\<forall>out. sr_resp r = Got out \<longrightarrow> ho_resp_val s = Some out)
        | Closed \<Rightarrow> \<not> announced s
        | Elapsed \<Rightarrow> announced s \<longrightarrow> ho_late s)"

definition thread_ok :: "handover \<Rightarrow> bool" where
  "thread_ok s \<longleftrightarrow> (ho_start_val s \<longleftrightarrow> announced s)
     \<and> (ho_thread s = Queued_job \<or> ho_thread s = Checked_job \<longrightarrow> \<not> announced s \<and> ho_start_tx s \<and> ho_resp_tx s \<and> \<not> jo_listening (ho_obs s))
     \<and> (ho_thread s = Checked_job \<longrightarrow> \<not> jo_closed (ho_obs s))
     \<and> (ho_thread s = Announced_job \<longrightarrow> announced s)
     \<and> (\<forall>out. ho_resp_val s = Some out \<longrightarrow> announced s \<and> ho_thread s = Over_job \<and> jo_outcome (ho_obs s) = out)
     \<and> (ho_late s \<longrightarrow> announced s)"

definition handover_inv :: "handover \<Rightarrow> bool" where
  "handover_inv s \<longleftrightarrow> lane_ok s (ho_lane s) \<and> thread_ok s"

lemma handover_inv_start: "handover_inv handover_start"
  by (simp add: handover_inv_def thread_ok_def handover_start_def announced_def)

text \<open>What the thread has observed does not depend on the lane's fields.\<close>

lemma thread_ok_lane [simp]:
  "thread_ok (s\<lparr>ho_lane := l\<rparr>) = thread_ok s"
  "thread_ok (s\<lparr>ho_start_rx := b\<rparr>) = thread_ok s"
  "thread_ok (s\<lparr>ho_resp_rx := b\<rparr>) = thread_ok s"
  by (simp_all add: thread_ok_def announced_def)

lemma announced_upd [simp]:
  "announced (s\<lparr>ho_lane := l\<rparr>) = announced s"
  "announced (s\<lparr>ho_start_rx := b\<rparr>) = announced s"
  "announced (s\<lparr>ho_resp_rx := b\<rparr>) = announced s"
  by (simp_all add: announced_def)

text \<open>The steps of the lane.\<close>

lemma poll_start_inv:
  assumes "handover_inv s" "ho_lane s = Awaits_start"
  shows "handover_inv (poll_start expired s)"
proof -
  have t: "thread_ok s" "ho_start_val s = announced s" "ho_start_rx s" "ho_resp_rx s" "\<not> ho_late s"
    using assms by (simp_all add: handover_inv_def thread_ok_def)
  then show ?thesis using assms(2) by (simp add: poll_start_def handover_inv_def lane_run_def)
qed

lemma poll_answer_inv:
  assumes "handover_inv s" "ho_lane s = Awaits_answer"
  shows "handover_inv (poll_answer expired ms s)"
  using assms by (simp add: poll_answer_def handover_inv_def lane_run_def split: option.split)

lemma give_up_inv:
  "handover_inv s \<Longrightarrow> ho_lane s = Missed_start \<Longrightarrow> handover_inv (s\<lparr>ho_lane := Returning, ho_start_rx := False\<rparr>)"
  "handover_inv s \<Longrightarrow> ho_lane s = Returning \<Longrightarrow> handover_inv (s\<lparr>ho_lane := Returned (lane_run Elapsed Closed 0), ho_resp_rx := False\<rparr>)"
  "handover_inv s \<Longrightarrow> ho_lane s = Missed_answer
     \<Longrightarrow> handover_inv (s\<lparr>ho_lane := Returned (lane_run (Got ()) Elapsed ms), ho_resp_rx := False\<rparr>)"
  by (simp_all add: handover_inv_def lane_run_def)

text \<open>The steps of the thread leave the lane's receivers alone.\<close>

lemma lane_ok_thread:
  assumes "lane_ok s l" "ho_start_rx s' = ho_start_rx s" "ho_resp_rx s' = ho_resp_rx s" "announced s' = announced s"
    "ho_late s' = ho_late s" "\<not> ho_resp_rx s \<Longrightarrow> ho_resp_val s' = ho_resp_val s"
  shows "lane_ok s' l"
  using assms by (cases l) (auto split: waited.splits)

lemma check_closed_inv:
  assumes "handover_inv s" "ho_thread s = Queued_job"
  shows "handover_inv (check_closed s)"
proof -
  let ?s = "check_closed s"
  have t: "\<not> jo_listening (ho_obs s)" "\<not> announced s" "lane_ok s (ho_lane s)" "thread_ok s"
    using assms by (auto simp: handover_inv_def thread_ok_def)
  then have a: "\<not> announced ?s" by (simp add: check_closed_def announced_def)
  have "lane_ok ?s (ho_lane ?s)"
    using lane_ok_thread [OF t(3), of ?s] a t(2) by (cases "ho_resp_rx s") (simp_all add: check_closed_def)
  moreover have "thread_ok ?s" using t(1,4) assms(2) by (simp add: thread_ok_def check_closed_def announced_def)
  ultimately show ?thesis by (simp add: handover_inv_def)
qed

lemma send_start_inv:
  assumes "handover_inv s" "ho_thread s = Checked_job"
  shows "handover_inv (send_start s)"
proof (cases "ho_start_rx s")
  case False
  have t: "\<not> jo_listening (ho_obs s)" "\<not> announced s" "lane_ok s (ho_lane s)" "thread_ok s"
    using assms by (auto simp: handover_inv_def thread_ok_def)
  let ?s = "send_start s"
  have a: "\<not> announced ?s" using False by (simp add: send_start_def announced_def)
  have "lane_ok ?s (ho_lane ?s)" using lane_ok_thread [OF t(3), of ?s] a t(2) False by (simp add: send_start_def)
  moreover have "thread_ok ?s" using t(1,4) assms(2) False by (simp add: thread_ok_def send_start_def announced_def)
  ultimately show ?thesis by (simp add: handover_inv_def)
next
  case True
  let ?s = "send_start s"
  have t: "\<not> jo_closed (ho_obs s)" "lane_ok s (ho_lane s)" "ho_resp_val s = None"
    using assms by (auto simp: handover_inv_def thread_ok_def)
  have a: "announced ?s" using True t(1) by (simp add: send_start_def announced_def)
  have "lane_ok ?s (ho_lane ?s)"
    using t(2) True a by (cases "ho_lane s") (simp_all add: send_start_def)
  moreover have "thread_ok ?s" using t(1,3) True by (simp add: thread_ok_def send_start_def announced_def)
  ultimately show ?thesis by (simp add: handover_inv_def)
qed

lemma send_answer_inv:
  assumes "handover_inv s" "ho_thread s = Announced_job"
  shows "handover_inv (send_answer out s)"
proof -
  let ?s = "send_answer out s"
  have t: "announced s" "ho_start_val s" "ho_resp_val s = None" "lane_ok s (ho_lane s)"
    using assms by (auto simp: handover_inv_def thread_ok_def)
  have a: "announced ?s" using t(1) by (simp add: send_answer_def announced_def)
  have "lane_ok ?s (ho_lane ?s)" using lane_ok_thread [OF t(4), of ?s] a t(1,3) by (simp add: send_answer_def)
  moreover have "thread_ok ?s" using t(1,2) by (simp add: thread_ok_def send_answer_def announced_def)
  ultimately show ?thesis by (simp add: handover_inv_def)
qed

lemma thread_dies_inv:
  assumes "handover_inv s"
  shows "handover_inv (s\<lparr>ho_thread := Over_job, ho_start_tx := False, ho_resp_tx := False\<rparr>)" (is "handover_inv ?s")
proof -
  have a: "announced ?s = announced s" by (simp add: announced_def)
  have "lane_ok ?s (ho_lane ?s)" using lane_ok_thread [of s "ho_lane s" ?s] a assms by (simp add: handover_inv_def)
  moreover have "thread_ok ?s" using assms a by (simp add: handover_inv_def thread_ok_def)
  ultimately show ?thesis by (simp add: handover_inv_def)
qed

lemmas handover_inv_steps = poll_start_inv poll_answer_inv give_up_inv check_closed_inv send_start_inv send_answer_inv thread_dies_inv

lemma handover_inv_step:
  assumes "handover_inv s" "handover_step a s = Some (s', eff)"
  shows "handover_inv s'"
  using assms by (cases a) (auto simp: handover_inv_steps split: if_splits)

lemma handover_inv_run:
  assumes "handover_run as handover_start = Some (s, eff)"
  shows "handover_inv s"
  by (rule handover.run_invariant [OF assms]) (use handover_inv_start handover_inv_step in auto)

lemma run_sync_job_announced:
  "run_sync_job job (ho_obs s) = (if announced s then [Began job, Answered job (jo_outcome (ho_obs s))] else [])"
  by (simp add: run_sync_job_def announced_def)

text \<open>
  C10. Whatever the interleaving of a lane with the pool thread that holds its job, and however long the
  run goes on after the lane has returned: an answer the lane returns is the one the thread produced for
  this job; if the lane says that the thread vanished before it started, the body was not and will not be
  run; and if it says that no thread was free, neither, unless the thread announced itself between the
  lane's last look at the channel and the drop of its receiver.
\<close>

theorem lane_and_thread_agree:
  assumes "handover_run as handover_start = Some (s, eff)" "ho_lane s = Returned r"
  shows "case sr_started r of
      Got _ \<Rightarrow> Began job \<in> set (run_sync_job job (ho_obs s))
        \<and> (\<forall>out. sr_resp r = Got out \<longrightarrow>
              run_sync_job job (ho_obs s) = [Began job, Answered job out] \<and> fst (run_sync_task env r) = out)
    | Closed \<Rightarrow> run_sync_job job (ho_obs s) = []
    | Elapsed \<Rightarrow> \<not> ho_late s \<longrightarrow> run_sync_job job (ho_obs s) = []"
proof -
  have ok: "lane_ok s (Returned r)" "thread_ok s" using handover_inv_run [OF assms(1)] assms(2) by (simp_all add: handover_inv_def)
  have said: "jo_outcome (ho_obs s) = out" if "ho_resp_val s = Some out" for out using ok(2) that by (simp add: thread_ok_def)
  show ?thesis
  proof (cases "sr_started r")
    case (Got u)
    then have "announced s" "sr_accepted r" and resp: "\<And>out. sr_resp r = Got out \<Longrightarrow> ho_resp_val s = Some out"
      using ok(1) by simp_all
    then have body: "run_sync_job job (ho_obs s) = [Began job, Answered job (jo_outcome (ho_obs s))]" by (simp add: run_sync_job_announced)
    have "fst (run_sync_task env r) = out" if "sr_resp r = Got out" for out
      using Got that \<open>sr_accepted r\<close> by (simp add: run_sync_task_def Let_def)
    then show ?thesis using Got body said resp by simp
  qed (use ok in \<open>simp_all add: run_sync_job_announced thread_ok_def\<close>)
qed

text \<open>A job that is answered.\<close>

theorem lane_and_thread_agree_witness:
  "\<exists>s r. handover_run [Check_closed, Poll_start False, Send_start, Poll_start False, Send_answer (Success ''1''), Poll_answer True 5] handover_start
       = Some (s, [])
     \<and> ho_lane s = Returned r
     \<and> run_sync_job (demo_sync_job ''a'' 1) (ho_obs s) = [Began (demo_sync_job ''a'' 1), Answered (demo_sync_job ''a'' 1) (Success ''1'')]"
proof -
  let ?as = "[Check_closed, Poll_start False, Send_start, Poll_start False, Send_answer (Success ''1''), Poll_answer True 5]"
  let ?r = "lane_run (Got ()) (Got (Success ''1'')) 5"
  obtain s where s: "handover_run ?as handover_start = Some (s, [])" "ho_lane s = Returned ?r"
    by (simp add: handover_start_def check_closed_def poll_start_def send_start_def send_answer_def poll_answer_def)
  show ?thesis using lane_and_thread_agree [OF s, of "demo_sync_job ''a'' 1"] s by (simp add: lane_run_def)
qed

subsection \<open>A thread that starts too late\<close>

text \<open>The lane has given up, and says that no thread was free; the body runs all the same.\<close>

lemma late_start:
  "\<exists>s r. handover_run [Check_closed, Poll_start True, Send_start, Drop_start, Return_early] handover_start = Some (s, [])
     \<and> ho_lane s = Returned r \<and> sr_started r = Elapsed \<and> Began job \<in> set (run_sync_job job (ho_obs s))"
  by (simp add: handover_start_def check_closed_def poll_start_def send_start_def lane_run_def run_sync_job_def)

end
