(* ===== verification/Pyjson.thy ===== *)
theory Pyjson
  imports Ctx
begin

section \<open>The type gate of results (pyjson.rs)\<close>

text \<open>
  A task result is a graph of Python objects: \<open>heap\<close> gives the object at every address, so shared and
  cyclic structures are as in the interpreter. \<open>check_json\<close> walks the graph and accepts it exactly if it is
  the graph of a JSON value of bounded depth; then the encoder is called.
\<close>

subsection \<open>Python objects\<close>

text \<open>The text of a \<open>str\<close> is its lossy UTF-8 form. An object of any other class has the name of the class
  and what converting it to \<open>float\<close> gives, if that succeeds.\<close>

datatype pyobj =
    ONone
  | OBool bool
  | OInt int
  | OFloat f64
  | OStr string
  | ODict "(nat \<times> nat) list"
  | OList "nat list"
  | OTuple "nat list"
  | OOther string "f64 option"

type_synonym heap = "nat \<Rightarrow> pyobj"

definition MAX_DEPTH :: nat where
  "MAX_DEPTH = 128"

fun type_name :: "pyobj \<Rightarrow> string" where
  "type_name ONone = ''NoneType''"
| "type_name (OBool _) = ''bool''"
| "type_name (OInt _) = ''int''"
| "type_name (OFloat _) = ''float''"
| "type_name (OStr _) = ''str''"
| "type_name (ODict _) = ''dict''"
| "type_name (OList _) = ''list''"
| "type_name (OTuple _) = ''tuple''"
| "type_name (OOther n _) = n"

definition is_str :: "pyobj \<Rightarrow> bool" where
  "is_str x = (case x of OStr _ \<Rightarrow> True | _ \<Rightarrow> False)"

text \<open>The walk; the error is the message of \<open>ConvError\<close>. The loops over members and items stop at the first
  error.\<close>

function (sequential) check_json :: "heap \<Rightarrow> nat \<Rightarrow> nat \<Rightarrow> (string, unit) result"
  and check_items :: "heap \<Rightarrow> nat list \<Rightarrow> nat \<Rightarrow> (string, unit) result"
  and check_members :: "heap \<Rightarrow> (nat \<times> nat) list \<Rightarrow> nat \<Rightarrow> (string, unit) result" where
  "check_json h a depth =
     (if depth > MAX_DEPTH
      then Inl (''value nested deeper than '' @ show_nat MAX_DEPTH @ '' levels (circular reference?)'')
      else case h a of
             ONone \<Rightarrow> Inr ()
           | OBool _ \<Rightarrow> Inr ()
           | OInt _ \<Rightarrow> Inr ()
           | OStr _ \<Rightarrow> Inr ()
           | OFloat f \<Rightarrow> if is_finite f then Inr () else Inl ''Out of range float values are not JSON compliant''
           | ODict kvs \<Rightarrow> check_members h kvs (depth + 1)
           | OList xs \<Rightarrow> check_items h xs (depth + 1)
           | OTuple xs \<Rightarrow> check_items h xs (depth + 1)
           | OOther n _ \<Rightarrow> Inl (''Object of type '' @ n @ '' is not JSON serializable''))"
| "check_items h [] depth = Inr ()"
| "check_items h (x # xs) depth =
     (case check_json h x depth of Inl e \<Rightarrow> Inl e | Inr _ \<Rightarrow> check_items h xs depth)"
| "check_members h [] depth = Inr ()"
| "check_members h ((k, x) # kvs) depth =
     (if \<not> is_str (h k) then Inl (''dict keys must be str, got '' @ type_name (h k))
      else case check_json h x depth of Inl e \<Rightarrow> Inl e | Inr _ \<Rightarrow> check_members h kvs depth)"
  by pat_completeness auto
termination
  by (relation "measures [\<lambda>x. case x of Inl (h, a, d) \<Rightarrow> 2 * (MAX_DEPTH + 1 - d)
        | Inr (Inl (h, xs, d)) \<Rightarrow> 2 * (MAX_DEPTH + 1 - d) + 1 | Inr (Inr (h, kvs, d)) \<Rightarrow> 2 * (MAX_DEPTH + 1 - d) + 1,
        \<lambda>x. case x of Inl _ \<Rightarrow> 0 | Inr (Inl (h, xs, d)) \<Rightarrow> length xs | Inr (Inr (h, kvs, d)) \<Rightarrow> length kvs]")
    auto

declare check_json.simps [simp del]

section \<open>Correctness of the type gate\<close>

subsection \<open>JSON values and the graphs that represent them\<close>

datatype jtree = TNull | TBool bool | TInt int | TFloat f64 | TStr string | TArr "jtree list" | TObj "(string \<times> jtree) list"

fun height :: "jtree \<Rightarrow> nat" where
  "height (TArr ts) = foldr max (map (\<lambda>t. Suc (height t)) ts) 0"
| "height (TObj ms) = foldr max (map (\<lambda>m. Suc (height (snd m))) ms) 0"
| "height _ = 0"

lemma foldr_max_le: "foldr max (map f xs) 0 \<le> (n :: nat) \<longleftrightarrow> (\<forall>x\<in>set xs. f x \<le> n)"
  by (induction xs) auto

text \<open>The object at an address is the graph of a value, if following it to the leaves gives the value. A
  graph with a cycle is the graph of no value.\<close>

inductive unfolds :: "heap \<Rightarrow> nat \<Rightarrow> jtree \<Rightarrow> bool" for h where
  none: "h a = ONone \<Longrightarrow> unfolds h a TNull"
| boolean: "h a = OBool b \<Longrightarrow> unfolds h a (TBool b)"
| integer: "h a = OInt i \<Longrightarrow> unfolds h a (TInt i)"
| floating: "h a = OFloat f \<Longrightarrow> is_finite f \<Longrightarrow> unfolds h a (TFloat f)"
| str: "h a = OStr s \<Longrightarrow> unfolds h a (TStr s)"
| list: "h a = OList xs \<Longrightarrow> list_all2 (unfolds h) xs ts \<Longrightarrow> unfolds h a (TArr ts)"
| tuple: "h a = OTuple xs \<Longrightarrow> list_all2 (unfolds h) xs ts \<Longrightarrow> unfolds h a (TArr ts)"
| dict: "h a = ODict kvs \<Longrightarrow> list_all2 (\<lambda>p m. h (fst p) = OStr (fst m) \<and> unfolds h (snd p) (snd m)) kvs ms \<Longrightarrow> unfolds h a (TObj ms)"
monos list_all2_mono

lemma unfolds_obj: "unfolds h a t \<longleftrightarrow>
  (case h a of
     ONone \<Rightarrow> t = TNull
   | OBool b \<Rightarrow> t = TBool b
   | OInt i \<Rightarrow> t = TInt i
   | OFloat f \<Rightarrow> is_finite f \<and> t = TFloat f
   | OStr s \<Rightarrow> t = TStr s
   | OList xs \<Rightarrow> \<exists>ts. t = TArr ts \<and> list_all2 (unfolds h) xs ts
   | OTuple xs \<Rightarrow> \<exists>ts. t = TArr ts \<and> list_all2 (unfolds h) xs ts
   | ODict kvs \<Rightarrow> \<exists>ms. t = TObj ms \<and> list_all2 (\<lambda>p m. h (fst p) = OStr (fst m) \<and> unfolds h (snd p) (snd m)) kvs ms
   | OOther _ _ \<Rightarrow> False)"
  by (subst unfolds.simps) (auto split: pyobj.splits)

lemma height_le:
  assumes "\<not> d > MAX_DEPTH"
  shows "d + height (TArr ts) \<le> MAX_DEPTH \<longleftrightarrow> (\<forall>t\<in>set ts. Suc d + height t \<le> MAX_DEPTH)"
    and "d + height (TObj ms) \<le> MAX_DEPTH \<longleftrightarrow> (\<forall>m\<in>set ms. Suc d + height (snd m) \<le> MAX_DEPTH)"
proof -
  have "d + n \<le> MAX_DEPTH \<longleftrightarrow> n \<le> MAX_DEPTH - d" for n using assms by auto
  then show "d + height (TArr ts) \<le> MAX_DEPTH \<longleftrightarrow> (\<forall>t\<in>set ts. Suc d + height t \<le> MAX_DEPTH)"
    "d + height (TObj ms) \<le> MAX_DEPTH \<longleftrightarrow> (\<forall>m\<in>set ms. Suc d + height (snd m) \<le> MAX_DEPTH)"
    using assms by (auto simp: foldr_max_le)
qed

lemma gate_exact:
  "check_json h a d = Inr () \<longleftrightarrow> (\<exists>t. unfolds h a t \<and> d + height t \<le> MAX_DEPTH)"
  "check_items h xs d = Inr () \<longleftrightarrow> (\<exists>ts. list_all2 (unfolds h) xs ts \<and> (\<forall>t\<in>set ts. d + height t \<le> MAX_DEPTH))"
  "check_members h kvs d = Inr () \<longleftrightarrow>
     (\<exists>ms. list_all2 (\<lambda>p m. h (fst p) = OStr (fst m) \<and> unfolds h (snd p) (snd m)) kvs ms \<and> (\<forall>m\<in>set ms. d + height (snd m) \<le> MAX_DEPTH))"
proof (induction h a d and h xs d and h kvs d rule: check_json_check_items_check_members.induct)
  case (1 h a d)
  show ?case
  proof (cases "d > MAX_DEPTH")
    case True
    then show ?thesis by (simp add: check_json.simps)
  next
    case False
    note le = height_le [OF False]
    show ?thesis
    proof (cases "h a")
      case (ODict kvs)
      then have "check_json h a d = check_members h kvs (d + 1)" using False by (simp add: check_json.simps)
      then show ?thesis using "1.IH"(1) [OF False ODict] le(2) ODict by (auto simp: unfolds_obj [of h a])
    next
      case (OList xs)
      then have "check_json h a d = check_items h xs (d + 1)" using False by (simp add: check_json.simps)
      then show ?thesis using "1.IH"(2) [OF False OList] le(1) OList by (auto simp: unfolds_obj [of h a])
    next
      case (OTuple xs)
      then have "check_json h a d = check_items h xs (d + 1)" using False by (simp add: check_json.simps)
      then show ?thesis using "1.IH"(3) [OF False OTuple] le(1) OTuple by (auto simp: unfolds_obj [of h a])
    qed (use False in \<open>auto simp: check_json.simps unfolds_obj [of h a]\<close>)
  qed
next
  case (3 h x xs d)
  show ?case
  proof (cases "check_json h x d")
    case (Inl e)
    then have no: "\<not> (\<exists>t. unfolds h x t \<and> d + height t \<le> MAX_DEPTH)" using "3.IH"(1) by simp
    then show ?thesis using Inl by (auto simp: list_all2_Cons1)
  next
    case (Inr u)
    then have "\<exists>t. unfolds h x t \<and> d + height t \<le> MAX_DEPTH" using "3.IH"(1) by simp
    then show ?thesis using Inr "3.IH"(2) [OF Inr] by (fastforce simp: list_all2_Cons1)
  qed
next
  case (5 h k x kvs d)
  show ?case
  proof (cases "is_str (h k)")
    case False
    then show ?thesis by (auto simp: is_str_def list_all2_Cons1)
  next
    case True
    then obtain s where s: "h k = OStr s" by (auto simp: is_str_def split: pyobj.splits)
    show ?thesis
    proof (cases "check_json h x d")
      case (Inl e)
      then have no: "\<not> (\<exists>t. unfolds h x t \<and> d + height t \<le> MAX_DEPTH)" using "5.IH"(1) True by simp
      then show ?thesis using Inl True by (auto simp: list_all2_Cons1)
    next
      case (Inr u)
      then have "\<exists>t. unfolds h x t \<and> d + height t \<le> MAX_DEPTH" using "5.IH"(1) True by simp
      then show ?thesis using Inr "5.IH"(2) [OF _ Inr] True s by (fastforce simp: list_all2_Cons1)
    qed
  qed
qed simp_all

text \<open>
  C26. The type gate accepts exactly the graphs of JSON values: a result passes if and only if following its
  objects gives a value made of null, booleans, integers, finite floats, strings, arrays and objects with
  string keys, nested at most 128 deep. In particular it always returns, a result that contains itself is
  refused rather than followed for ever, and so is a set, a byte string or a non-finite float anywhere in it.
\<close>

theorem check_json_exact:
  "check_json h a 0 = Inr () \<longleftrightarrow> (\<exists>t. unfolds h a t \<and> height t \<le> MAX_DEPTH)"
  using gate_exact(1) [of h a 0] by simp

text \<open>A list that contains itself.\<close>

lemma cyclic_result_refused: "check_json (\<lambda>_. OList [0]) 0 0 \<noteq> Inr ()"
proof
  assume "check_json (\<lambda>_. OList [0]) 0 0 = Inr ()"
  then obtain t where "unfolds (\<lambda>_. OList [0]) 0 t" using gate_exact(1) by blast
  then show False
  proof (induction t rule: measure_induct_rule [of size])
    case (less t)
    then obtain u where "t = TArr [u]" "unfolds (\<lambda>_. OList [0]) 0 u"
      by (auto simp: unfolds_obj [of _ _ t] list_all2_Cons1)
    then show ?case using less.IH [of u] by simp
  qed
qed

end
