(* ===== verification/Pyrt.thy ===== *)
theory Pyrt
  imports Pyjson Exec Assoc
begin

section \<open>The embedded Python runtime (pyrt.rs)\<close>

text \<open>
  \<open>PyRuntime\<close>: how arguments go to Python and outcomes come back, and the table of pending asynchronous
  calls. The codec (msgspec) and the calls into the shim are parameters: \<open>decode\<close> and \<open>encode\<close> are functions,
  and what a call of the shim does is data. The table is a machine whose steps are the sections under its
  mutex; dispatchers, the submitter thread, the loop threads' callback and the backstop interleave freely.
\<close>

subsection \<open>Outcomes of Python calls\<close>

text \<open>\<open>get_item\<close> with a text key, \<open>extract::<bool>\<close>, \<open>extract::<f64>\<close>, and the text of a \<open>str\<close>.\<close>

definition key_is :: "heap \<Rightarrow> string \<Rightarrow> nat \<times> nat \<Rightarrow> bool" where
  "key_is h k p \<longleftrightarrow> h (fst p) = OStr k"

definition get_item :: "heap \<Rightarrow> nat \<Rightarrow> string \<Rightarrow> nat option" where
  "get_item h a k = (case h a of ODict kvs \<Rightarrow> map_option snd (List.find (key_is h k) kvs) | _ \<Rightarrow> None)"

definition extract_bool :: "pyobj \<Rightarrow> bool option" where
  "extract_bool x = (case x of OBool b \<Rightarrow> Some b | _ \<Rightarrow> None)"

definition extract_f64 :: "pyobj \<Rightarrow> f64 option" where
  "extract_f64 x =
     (case x of
        OFloat f \<Rightarrow> Some f
      | OInt i \<Rightarrow> (let f = f64_of_rat (of_int i) in if is_finite f then Some f else None)
      | OBool b \<Rightarrow> Some (Fin (of_bool b))
      | OOther _ f \<Rightarrow> f
      | _ \<Rightarrow> None)"

definition text_of :: "pyobj \<Rightarrow> string option" where
  "text_of x = (case x of OStr s \<Rightarrow> Some s | _ \<Rightarrow> None)"

text \<open>\<open>encode\<close> is the shim's encoder with the checks on what it returns: the JSON text or an error text.\<close>

definition encode_result :: "(heap \<Rightarrow> nat \<Rightarrow> (string, string) result) \<Rightarrow> heap \<Rightarrow> nat \<Rightarrow> outcome" where
  "encode_result encode h a =
     (if h a = ONone then Success ''null''
      else case (case check_json h a 0 of Inl e \<Rightarrow> Inl e | Inr _ \<Rightarrow> encode h a) of
             Inr json \<Rightarrow> Success json
           | Inl msg \<Rightarrow>
               Failure (ErrorJson_new ''SerializationError'' (''task result is not JSON serializable: '' @ msg)) False)"

definition flag :: "heap \<Rightarrow> nat \<Rightarrow> string \<Rightarrow> bool" where
  "flag h a k = (case get_item h a k of Some v \<Rightarrow> (case extract_bool (h v) of Some b \<Rightarrow> b | None \<Rightarrow> False) | None \<Rightarrow> False)"

definition error_field :: "heap \<Rightarrow> nat \<Rightarrow> string \<Rightarrow> string" where
  "error_field h e k = (case get_item h e k of Some v \<Rightarrow> (case text_of (h v) of Some s \<Rightarrow> s | None \<Rightarrow> []) | None \<Rightarrow> [])"

definition error_from_py :: "heap \<Rightarrow> nat \<Rightarrow> error_json" where
  "error_from_py h a =
     (case (case get_item h a ''error'' of
              None \<Rightarrow> None
            | Some e \<Rightarrow>
                if error_field h e ''type'' = [] then None
                else Some \<lparr>ej_type = error_field h e ''type'', ej_message = error_field h e ''message'',
                           ej_traceback = error_field h e ''traceback'', ej_origin = error_field h e ''origin''\<rparr>) of
        Some err \<Rightarrow> err
      | None \<Rightarrow> ErrorJson_new ''UnknownError'' ''executor reported failure without error'')"

definition outcome_from_py :: "(heap \<Rightarrow> nat \<Rightarrow> (string, string) result) \<Rightarrow> heap \<Rightarrow> nat \<Rightarrow> outcome" where
  "outcome_from_py encode h a =
     (if flag h a ''ok''
      then (case get_item h a ''result'' of Some r \<Rightarrow> encode_result encode h r | None \<Rightarrow> Success ''null'')
      else let err = error_from_py h a
           in if flag h a ''retry''
              then ForceRetry (case get_item h a ''countdown'' of Some c \<Rightarrow> extract_f64 (h c) | None \<Rightarrow> None) err
              else Failure err
                     (case (case get_item h a ''retryable'' of Some r \<Rightarrow> extract_bool (h r) | None \<Rightarrow> None) of
                        Some b \<Rightarrow> b
                      | None \<Rightarrow> ej_type err \<noteq> ''SerializationError''))"

text \<open>A raised exception: its text and, if it has one that formats, its traceback.\<close>

record py_err =
  pe_text :: string
  pe_traceback :: "string option"

definition MAX_PYERR_CHARS :: nat where
  "MAX_PYERR_CHARS = 8192"

definition pyerr_string :: "py_err \<Rightarrow> string" where
  "pyerr_string e =
     safe_truncate (pe_text e @ (case pe_traceback e of Some t \<Rightarrow> CHR 0x0A # t | None \<Rightarrow> [])) MAX_PYERR_CHARS"

definition args_failure_outcome :: "py_err \<Rightarrow> outcome" where
  "args_failure_outcome e =
     Failure (ErrorJson_new ''SerializationError'' (''task arguments are not JSON serializable: '' @ pyerr_string e)) False"

text \<open>Empty arguments are not sent through the codec.\<close>

definition decode_text :: "(string \<Rightarrow> (py_err, 'o) result) \<Rightarrow> 'o \<Rightarrow> 'o \<Rightarrow> string \<Rightarrow> (py_err, 'o) result" where
  "decode_text decode empty_list empty_dict s =
     (if s = ''[]'' then Inr empty_list else if s = ''{}'' then Inr empty_dict else decode s)"

record 'o codec =
  cd_decode :: "string \<Rightarrow> (py_err, 'o) result"
  cd_empty_list :: 'o
  cd_empty_dict :: 'o
  cd_encode :: "heap \<Rightarrow> nat \<Rightarrow> (string, string) result"

definition decode_args :: "'o codec \<Rightarrow> string \<Rightarrow> string \<Rightarrow> (py_err, 'o \<times> 'o) result" where
  "decode_args C args kwargs =
     (case decode_text (cd_decode C) (cd_empty_list C) (cd_empty_dict C) args of
        Inl e \<Rightarrow> Inl e
      | Inr a \<Rightarrow>
          (case decode_text (cd_decode C) (cd_empty_list C) (cd_empty_dict C) kwargs of
             Inl e \<Rightarrow> Inl e
           | Inr k \<Rightarrow> Inr (a, k)))"

text \<open>\<open>run_sync_blocking\<close>; \<open>shim\<close> is the call of \<open>run_sync\<close> with everything it is given.\<close>

definition run_sync_blocking ::
  "'o codec \<Rightarrow> (string \<Rightarrow> 'o \<Rightarrow> 'o \<Rightarrow> u64 option \<Rightarrow> task_meta option \<Rightarrow> (py_err, heap \<times> nat) result)
    \<Rightarrow> string \<Rightarrow> string \<Rightarrow> string \<Rightarrow> u64 option \<Rightarrow> task_meta option \<Rightarrow> outcome" where
  "run_sync_blocking C shim name args kwargs soft_timeout_ms meta =
     (case decode_args C args kwargs of
        Inl e \<Rightarrow> args_failure_outcome e
      | Inr (a, k) \<Rightarrow>
          (case shim name a k soft_timeout_ms meta of
             Inr (h, out) \<Rightarrow> outcome_from_py (cd_encode C) h out
           | Inl e \<Rightarrow> Failure (ErrorJson_new ''WorkerShimError'' (''run_sync failed: '' @ pyerr_string e)) True))"

subsection \<open>The table of pending calls\<close>

record submit_job =
  sm_token :: u64
  sm_name :: string
  sm_args :: string
  sm_kwargs :: string
  sm_timeout_s :: f64
  sm_soft_timeout_s :: "f64 option"
  sm_meta :: "task_meta option"

text \<open>\<open>rt_resolving\<close> holds what the submitter still has to write into the table for its last batch;
  \<open>rt_submitter\<close> tells whether the submitter thread is alive.\<close>

record pyrt =
  rt_pending :: "(u64 \<times> nat) list"
  rt_next_token :: u64
  rt_queue :: "submit_job list"
  rt_resolving :: "(u64 \<times> outcome) list"
  rt_submitter :: bool
  rt_async_rejected :: u64

definition rt_start :: pyrt where
  "rt_start = \<lparr>rt_pending = [], rt_next_token = 1, rt_queue = [], rt_resolving = [], rt_submitter = True, rt_async_rejected = 0\<rparr>"

datatype rt_effect = Issued u64 nat | Resolved nat outcome | Forgotten nat | Given submit_job | NoSlot u64

definition complete_pending :: "u64 \<Rightarrow> outcome \<Rightarrow> pyrt \<Rightarrow> pyrt \<times> rt_effect list" where
  "complete_pending token out rt =
     (case map_of (rt_pending rt) token of
        Some tx \<Rightarrow> (rt\<lparr>rt_pending := AList.delete token (rt_pending rt)\<rparr>, [Resolved tx out])
      | None \<Rightarrow> (rt, [NoSlot token]))"

definition shim_failure :: "string \<Rightarrow> outcome" where
  "shim_failure msg = Failure (ErrorJson_new ''WorkerShimError'' msg) True"

definition fail_pending :: "u64 \<Rightarrow> string \<Rightarrow> pyrt \<Rightarrow> pyrt \<times> rt_effect list" where
  "fail_pending token msg rt = complete_pending token (shim_failure msg) rt"

definition cancel :: "u64 \<Rightarrow> pyrt \<Rightarrow> pyrt \<times> rt_effect list" where
  "cancel token rt =
     (rt\<lparr>rt_pending := AList.delete token (rt_pending rt)\<rparr>,
      (case map_of (rt_pending rt) token of Some tx \<Rightarrow> [Forgotten tx] | None \<Rightarrow> []))"

text \<open>\<open>queue_submit\<close>: the slot is in the table before the job is on the channel.\<close>

definition queue_submit :: "string \<Rightarrow> string \<Rightarrow> string \<Rightarrow> f64 \<Rightarrow> f64 option \<Rightarrow> task_meta option \<Rightarrow> nat \<Rightarrow> pyrt
    \<Rightarrow> u64 \<times> pyrt \<times> rt_effect list" where
  "queue_submit name args kwargs timeout_s soft_timeout_s meta tx rt =
     (let token = rt_next_token rt;
          rt = rt\<lparr>rt_next_token := token + 1, rt_pending := AList.update token tx (rt_pending rt)\<rparr>;
          job = \<lparr>sm_token = token, sm_name = name, sm_args = args, sm_kwargs = kwargs, sm_timeout_s = timeout_s,
                 sm_soft_timeout_s = soft_timeout_s, sm_meta = meta\<rparr>
      in if rt_submitter rt then (token, rt\<lparr>rt_queue := rt_queue rt @ [job]\<rparr>, [Issued token tx])
         else let (rt, eff) = fail_pending token ''queue_submit failed: submitter thread has exited'' rt
              in (token, rt, Issued token tx # eff))"

definition DRAIN_MAX :: nat where
  "DRAIN_MAX = 128"

text \<open>What the submission of a batch meets: the shim function missing, or per job the decoding of its
  arguments and the call (\<open>Some (full, e)\<close>: it raised \<open>e\<close>, \<open>full\<close>: because a loop's list was at its cap).\<close>

record batch_obs =
  bo_getattr :: "py_err option"
  bo_decode :: "submit_job \<Rightarrow> py_err option"
  bo_call :: "submit_job \<Rightarrow> (bool \<times> py_err) option"

definition submit_failures :: "batch_obs \<Rightarrow> submit_job list \<Rightarrow> (u64 \<times> outcome) list" where
  "submit_failures bo batch =
     (case bo_getattr bo of
        Some e \<Rightarrow> map (\<lambda>j. (sm_token j, shim_failure (''submit_async failed: '' @ pyerr_string e))) batch
      | None \<Rightarrow>
          List.map_filter (\<lambda>j. case (bo_decode bo j, bo_call bo j) of
              (None, Some (_, e)) \<Rightarrow> Some (sm_token j, shim_failure (''submit_async failed: '' @ pyerr_string e))
            | _ \<Rightarrow> None) batch
          @ List.map_filter (\<lambda>j. map_option (\<lambda>e. (sm_token j, args_failure_outcome e)) (bo_decode bo j)) batch)"

definition rejected_in :: "batch_obs \<Rightarrow> submit_job list \<Rightarrow> nat" where
  "rejected_in bo batch =
     (if bo_getattr bo = None
      then length (filter (\<lambda>j. bo_decode bo j = None \<and> (case bo_call bo j of Some (full, _) \<Rightarrow> full | None \<Rightarrow> False)) batch)
      else 0)"

text \<open>The jobs of a batch that reach a loop.\<close>

definition given :: "batch_obs \<Rightarrow> submit_job \<Rightarrow> bool" where
  "given bo j \<longleftrightarrow> bo_getattr bo = None \<and> bo_decode bo j = None \<and> bo_call bo j = None"

definition submit_batch_under_gil :: "batch_obs \<Rightarrow> pyrt \<Rightarrow> pyrt \<times> rt_effect list" where
  "submit_batch_under_gil bo rt =
     (let batch = take DRAIN_MAX (rt_queue rt)
      in (rt\<lparr>rt_queue := drop DRAIN_MAX (rt_queue rt), rt_resolving := submit_failures bo batch,
             rt_async_rejected := rt_async_rejected rt + of_nat (rejected_in bo batch)\<rparr>,
          map Given (filter (given bo) batch)))"

subsection \<open>Steps\<close>

datatype rt_action =
    Call string string string f64 "f64 option" "task_meta option" nat
  | Batch batch_obs
  | Resolve
  | Callback u64 outcome
  | Cancel u64
  | Submitter_gone

fun rt_step :: "rt_action \<Rightarrow> pyrt \<Rightarrow> (pyrt \<times> rt_effect list) option" where
  "rt_step (Call name args kwargs t soft meta tx) rt = Some (snd (queue_submit name args kwargs t soft meta tx rt))"
| "rt_step (Batch bo) rt =
     (if rt_submitter rt \<and> rt_queue rt \<noteq> [] \<and> rt_resolving rt = [] then Some (submit_batch_under_gil bo rt) else None)"
| "rt_step Resolve rt =
     (case rt_resolving rt of
        [] \<Rightarrow> None
      | (token, out) # rest \<Rightarrow> Some (complete_pending token out (rt\<lparr>rt_resolving := rest\<rparr>)))"
| "rt_step (Callback token out) rt = Some (complete_pending token out rt)"
| "rt_step (Cancel token) rt = Some (cancel token rt)"
| "rt_step Submitter_gone rt =
     Some (rt\<lparr>rt_submitter := False, rt_queue := [], rt_resolving := []\<rparr>, [])"

fun rt_run :: "rt_action list \<Rightarrow> pyrt \<Rightarrow> (pyrt \<times> rt_effect list) option" where
  "rt_run [] rt = Some (rt, [])"
| "rt_run (a # as) rt =
     (case rt_step a rt of
        None \<Rightarrow> None
      | Some (rt', eff) \<Rightarrow>
          (case rt_run as rt' of None \<Rightarrow> None | Some (rt'', eff') \<Rightarrow> Some (rt'', eff @ eff')))"

interpretation rt: machine rt_step rt_run
  by unfold_locales simp_all

section \<open>Correctness of the runtime\<close>

subsection \<open>The table\<close>

definition issued :: "rt_effect list \<Rightarrow> nat list" where
  "issued eff = concat (map (\<lambda>e. case e of Issued _ tx \<Rightarrow> [tx] | _ \<Rightarrow> []) eff)"

definition resolved_calls :: "rt_effect list \<Rightarrow> nat list" where
  "resolved_calls eff = concat (map (\<lambda>e. case e of Resolved tx _ \<Rightarrow> [tx] | _ \<Rightarrow> []) eff)"

definition forgotten :: "rt_effect list \<Rightarrow> nat list" where
  "forgotten eff = concat (map (\<lambda>e. case e of Forgotten tx \<Rightarrow> [tx] | _ \<Rightarrow> []) eff)"

lemmas rt_effects = issued_def resolved_calls_def forgotten_def

lemma rt_effects_append [simp]:
  "issued (a @ b) = issued a @ issued b" "resolved_calls (a @ b) = resolved_calls a @ resolved_calls b" "forgotten (a @ b) = forgotten a @ forgotten b"
  by (simp_all add: rt_effects)

lemma rt_effects_given [simp]:
  "issued (map Given js) = []" "resolved_calls (map Given js) = []" "forgotten (map Given js) = []"
  by (induction js) (simp_all add: rt_effects)

text \<open>With \<open>n\<close> tokens drawn, the open ones are among the first \<open>n\<close> numbers and no two slots share one.\<close>

definition table_inv :: "nat \<Rightarrow> pyrt \<Rightarrow> bool" where
  "table_inv n rt \<longleftrightarrow>
     rt_next_token rt = of_nat (n + 1) \<and> distinct (map fst (rt_pending rt))
     \<and> (\<forall>t\<in>set (map fst (rt_pending rt)). 1 \<le> unat t \<and> unat t \<le> n)"

definition table_account :: "pyrt \<Rightarrow> rt_effect list \<Rightarrow> pyrt \<Rightarrow> bool" where
  "table_account rt eff rt' \<longleftrightarrow>
     (\<forall>n. table_inv n rt \<and> n + length (issued eff) < 2 ^ 64 \<longrightarrow>
        table_inv (n + length (issued eff)) rt'
        \<and> mset (map snd (rt_pending rt)) + mset (issued eff)
            = mset (resolved_calls eff) + mset (forgotten eff) + mset (map snd (rt_pending rt'))
        \<and> set (rt_pending rt') \<subseteq> set (rt_pending rt) \<union> {(t, tx). Issued t tx \<in> set eff})"

lemma table_account_refl: "table_account rt [] rt"
  by (simp add: table_account_def rt_effects)

lemma table_account_trans:
  assumes "table_account s e1 s1" "table_account s1 e2 s2"
  shows "table_account s (e1 @ e2) s2"
  unfolding table_account_def
proof (intro allI impI, elim conjE)
  fix n assume n: "table_inv n s" "n + length (issued (e1 @ e2)) < 2 ^ 64"
  then have "n + length (issued e1) < 2 ^ 64" by simp
  note A = assms(1) [unfolded table_account_def, rule_format, OF conjI, OF n(1) this]
  have "n + length (issued e1) + length (issued e2) < 2 ^ 64" using n(2) by simp
  note B = assms(2) [unfolded table_account_def, rule_format, OF conjI, OF A [THEN conjunct1] this]
  have "mset (map snd (rt_pending s)) + mset (issued (e1 @ e2))
      = (mset (map snd (rt_pending s)) + mset (issued e1)) + mset (issued e2)" by simp
  also have "\<dots> = mset (resolved_calls (e1 @ e2)) + mset (forgotten (e1 @ e2)) + mset (map snd (rt_pending s2))"
    using A B by simp
  finally show "table_inv (n + length (issued (e1 @ e2))) s2
    \<and> mset (map snd (rt_pending s)) + mset (issued (e1 @ e2))
        = mset (resolved_calls (e1 @ e2)) + mset (forgotten (e1 @ e2)) + mset (map snd (rt_pending s2))
    \<and> set (rt_pending s2) \<subseteq> set (rt_pending s) \<union> {(t, tx). Issued t tx \<in> set (e1 @ e2)}"
    using A B by (auto simp: add.assoc)
qed

text \<open>Taking a slot out, as an answer or as a cancellation.\<close>

lemma slot_removed:
  assumes "table_inv n rt" "map_of (rt_pending rt) token = Some tx"
    "rt_pending rt' = AList.delete token (rt_pending rt)" "rt_next_token rt' = rt_next_token rt"
  shows "table_inv n rt' \<and> mset (map snd (rt_pending rt)) = add_mset tx (mset (map snd (rt_pending rt')))
    \<and> set (rt_pending rt') \<subseteq> set (rt_pending rt)"
proof -
  have sub: "set (AList.delete token (rt_pending rt)) \<subseteq> set (rt_pending rt)" by (auto simp: AList.delete_eq)
  then show ?thesis
    using assms mset_delete [OF _ assms(2)] by (auto simp: table_inv_def distinct_delete)
qed

lemma complete_pending_account:
  assumes "rt_pending rt = rt_pending rt0" "rt_next_token rt = rt_next_token rt0" "complete_pending token out rt = (rt', eff)"
  shows "table_account rt0 eff rt'"
proof (cases "map_of (rt_pending rt) token")
  case None
  then show ?thesis using assms by (auto simp: complete_pending_def table_account_def rt_effects table_inv_def)
next
  case (Some tx)
  then have r: "rt' = rt\<lparr>rt_pending := AList.delete token (rt_pending rt)\<rparr>" "eff = [Resolved tx out]"
    using assms(3) by (simp_all add: complete_pending_def)
  have tx: "map_of (rt_pending rt0) token = Some tx" using Some assms(1) by simp
  show ?thesis
    unfolding table_account_def
  proof (intro allI impI, elim conjE)
    fix n assume "table_inv n rt0"
    from slot_removed [OF this tx, of rt'] show "table_inv (n + length (issued eff)) rt'
        \<and> mset (map snd (rt_pending rt0)) + mset (issued eff) = mset (resolved_calls eff) + mset (forgotten eff) + mset (map snd (rt_pending rt'))
        \<and> set (rt_pending rt') \<subseteq> set (rt_pending rt0) \<union> {(t, tx). Issued t tx \<in> set eff}"
      using assms(1,2) by (auto simp: r rt_effects)
  qed
qed

lemma cancel_account: "cancel token rt = (rt', eff) \<Longrightarrow> table_account rt eff rt'"
proof -
  assume c: "cancel token rt = (rt', eff)"
  show ?thesis
  proof (cases "map_of (rt_pending rt) token")
    case None
    then have "AList.delete token (rt_pending rt) = rt_pending rt" by (rule delete_absent)
    then have "rt' = rt" "eff = []" using c None by (simp_all add: cancel_def)
    then show ?thesis by (simp add: table_account_refl)
  next
    case (Some tx)
    then have r: "rt' = rt\<lparr>rt_pending := AList.delete token (rt_pending rt)\<rparr>" "eff = [Forgotten tx]"
      using c by (simp_all add: cancel_def)
    show ?thesis
      unfolding table_account_def
    proof (intro allI impI, elim conjE)
      fix n assume "table_inv n rt"
      from slot_removed [OF this Some, of rt'] show "table_inv (n + length (issued eff)) rt'
          \<and> mset (map snd (rt_pending rt)) + mset (issued eff) = mset (resolved_calls eff) + mset (forgotten eff) + mset (map snd (rt_pending rt'))
          \<and> set (rt_pending rt') \<subseteq> set (rt_pending rt) \<union> {(t, tx). Issued t tx \<in> set eff}"
        by (auto simp: r rt_effects)
    qed
  qed
qed

text \<open>Opening a slot: the token is new.\<close>

lemma slot_opened:
  assumes p: "rt_pending rt' = AList.update (rt_next_token rt) tx (rt_pending rt)"
    and t: "rt_next_token rt' = rt_next_token rt + 1"
  shows "table_account rt [Issued (rt_next_token rt) tx] rt'"
  unfolding table_account_def
proof (intro allI impI, elim conjE)
  fix n assume inv: "table_inv n rt" and n: "n + length (issued [Issued (rt_next_token rt) tx]) < 2 ^ 64"
  have n': "n + 1 < 2 ^ 64" using n by (simp add: issued_def)
  have tok: "rt_next_token rt = of_nat (n + 1)" using inv unfolding table_inv_def by blast
  have un: "unat (rt_next_token rt) = n + 1"
    unfolding tok unsigned_of_nat using take_bit_nat_eq_self [of "n + 1" 64] n' by simp
  then have new: "rt_next_token rt \<notin> set (map fst (rt_pending rt))" using inv by (force simp: table_inv_def)
  then have p': "rt_pending rt' = rt_pending rt @ [(rt_next_token rt, tx)]" using p by (simp add: update_fresh)
  have "rt_next_token rt + 1 = of_nat (Suc n + 1)" using inv by (simp add: table_inv_def)
  then have "table_inv (n + 1) rt'"
    using inv new un t unfolding table_inv_def p' by (auto simp: le_Suc_eq)
  then show "table_inv (n + length (issued [Issued (rt_next_token rt) tx])) rt'
      \<and> mset (map snd (rt_pending rt)) + mset (issued [Issued (rt_next_token rt) tx])
          = mset (resolved_calls [Issued (rt_next_token rt) tx]) + mset (forgotten [Issued (rt_next_token rt) tx]) + mset (map snd (rt_pending rt'))
      \<and> set (rt_pending rt') \<subseteq> set (rt_pending rt) \<union> {(t, tx'). Issued t tx' \<in> set [Issued (rt_next_token rt) tx]}"
    by (simp add: p' rt_effects)
qed

lemma table_account_cong:
  "table_account rt eff q \<Longrightarrow> rt_pending q' = rt_pending q \<Longrightarrow> rt_next_token q' = rt_next_token q \<Longrightarrow> table_account rt eff q'"
  by (simp only: table_account_def table_inv_def)

lemma rt_step_account: "rt_step a rt = Some (rt', eff) \<Longrightarrow> table_account rt eff rt'"
proof (cases a)
  case (Call name args kwargs t soft meta tx)
  assume s: "rt_step a rt = Some (rt', eff)"
  let ?rt = "rt\<lparr>rt_next_token := rt_next_token rt + 1, rt_pending := AList.update (rt_next_token rt) tx (rt_pending rt)\<rparr>"
  have opn: "table_account rt [Issued (rt_next_token rt) tx] ?rt" by (rule slot_opened) simp_all
  show ?thesis
  proof (cases "rt_submitter rt")
    case True
    then have "eff = [Issued (rt_next_token rt) tx]" "rt_pending rt' = rt_pending ?rt" "rt_next_token rt' = rt_next_token ?rt"
      using s Call by (auto simp: queue_submit_def Let_def)
    then show ?thesis using table_account_cong [OF opn] by simp
  next
    case False
    then obtain e where f: "fail_pending (rt_next_token rt) ''queue_submit failed: submitter thread has exited'' ?rt = (rt', e)"
      "eff = [Issued (rt_next_token rt) tx] @ e"
      using s Call by (auto simp: queue_submit_def Let_def split: prod.splits)
    have "table_account ?rt e rt'" using f(1) unfolding fail_pending_def by (rule complete_pending_account [OF refl refl])
    from table_account_trans [OF opn this] show ?thesis unfolding f(2) .
  qed
next
  case Resolve
  assume s: "rt_step a rt = Some (rt', eff)"
  then obtain token out rest where "rt_resolving rt = (token, out) # rest"
    "complete_pending token out (rt\<lparr>rt_resolving := rest\<rparr>) = (rt', eff)"
    using Resolve by (auto split: list.splits prod.splits)
  then show ?thesis by (intro complete_pending_account [of "rt\<lparr>rt_resolving := rest\<rparr>"]) simp_all
next
  case (Callback token out)
  assume "rt_step a rt = Some (rt', eff)"
  then show ?thesis using Callback by (intro complete_pending_account [of rt]) simp_all
next
  case (Cancel token)
  assume "rt_step a rt = Some (rt', eff)"
  then show ?thesis using Cancel by (intro cancel_account) simp
next
  case (Batch bo)
  assume "rt_step a rt = Some (rt', eff)"
  then have "rt_pending rt' = rt_pending rt" "rt_next_token rt' = rt_next_token rt" "\<exists>js. eff = map Given js"
    using Batch by (auto simp: submit_batch_under_gil_def Let_def split: if_splits)
  then show ?thesis by (auto simp: table_account_def table_inv_def)
next
  case Submitter_gone
  assume "rt_step a rt = Some (rt', eff)"
  then have "rt_pending rt' = rt_pending rt" "rt_next_token rt' = rt_next_token rt" "eff = []" using Submitter_gone by auto
  then show ?thesis by (auto simp: table_account_def table_inv_def rt_effects)
qed

lemma rt_run_account: "rt_run as rt = Some (rt', eff) \<Longrightarrow> table_account rt eff rt'"
  by (rule rt.run_account [of as rt rt' eff table_account]) (auto intro: table_account_refl table_account_trans rt_step_account)

text \<open>
  C11. Every asynchronous call is answered at most once, and only its own caller gets the answer: however
  submissions, the submitter's failures, the loops' callbacks, late callbacks and backstop cancellations
  interleave, the callers of \<open>queue_submit\<close> are exactly those answered, those that gave up, and those whose
  slot is still open; an open slot carries the token its caller got; and an answer for a token goes to that
  caller and closes the slot. Fewer than \<open>2 ^ 64\<close> calls are made.
\<close>

theorem async_calls_answered_once:
  assumes "rt_run as rt_start = Some (rt, eff)" "length (issued eff) < 2 ^ 64"
  shows "mset (issued eff) = mset (resolved_calls eff) + mset (forgotten eff) + mset (map snd (rt_pending rt))
    \<and> distinct (map fst (rt_pending rt)) \<and> set (rt_pending rt) \<subseteq> {(t, tx). Issued t tx \<in> set eff}
    \<and> map_of (rt_pending (fst (complete_pending token out rt))) token = None
    \<and> (snd (complete_pending token out rt) = [NoSlot token]
       \<or> (\<exists>tx. Issued token tx \<in> set eff \<and> snd (complete_pending token out rt) = [Resolved tx out]))"
proof -
  have "table_inv 0 rt_start" by (simp add: table_inv_def rt_start_def)
  then have A: "table_inv (length (issued eff)) rt"
    "mset (issued eff) = mset (resolved_calls eff) + mset (forgotten eff) + mset (map snd (rt_pending rt))"
    "set (rt_pending rt) \<subseteq> {(t, tx). Issued t tx \<in> set eff}"
    using rt_run_account [OF assms(1)] assms(2) by (auto simp: table_account_def rt_start_def)
  have "snd (complete_pending token out rt) = [NoSlot token]
      \<or> (\<exists>tx. Issued token tx \<in> set eff \<and> snd (complete_pending token out rt) = [Resolved tx out])"
    using A(3) map_of_SomeD [of "rt_pending rt" token]
    by (cases "map_of (rt_pending rt) token") (auto simp: complete_pending_def)
  moreover have "map_of (rt_pending (fst (complete_pending token out rt))) token = None"
    by (cases "map_of (rt_pending rt) token") (auto simp: complete_pending_def delete_conv')
  ultimately show ?thesis using A by (auto simp: table_inv_def)
qed

definition handed_over :: "rt_effect list \<Rightarrow> u64 list" where
  "handed_over eff = concat (map (\<lambda>e. case e of Given j \<Rightarrow> [sm_token j] | _ \<Rightarrow> []) eff)"

lemma handed_over_given: "handed_over (map Given js) = map sm_token js"
  by (induction js) (auto simp: handed_over_def)

lemma map_filter_Cons: "List.map_filter f (x # xs) = (case f x of None \<Rightarrow> List.map_filter f xs | Some y \<Rightarrow> y # List.map_filter f xs)"
  by (simp add: List.map_filter_def split: option.splits)

text \<open>
  No queued call is lost on the way to a loop: a batch is the front of the queue, at most 128 calls in
  order, and each of its calls is either handed to a loop or answered with its failure, never both, whatever
  the shim does; the rest of the queue stays.
\<close>

theorem batch_accounts_for_every_call:
  "\<exists>batch. rt_queue rt = batch @ rt_queue (fst (submit_batch_under_gil bo rt)) \<and> length batch \<le> DRAIN_MAX
     \<and> mset (map sm_token batch)
         = mset (handed_over (snd (submit_batch_under_gil bo rt)))
           + mset (map fst (rt_resolving (fst (submit_batch_under_gil bo rt))))"
proof (rule exI [of _ "take DRAIN_MAX (rt_queue rt)"])
  define batch where "batch = take DRAIN_MAX (rt_queue rt)"
  have "mset (map sm_token js) = mset (map sm_token (filter (given bo) js)) + mset (map fst (submit_failures bo js))" for js
  proof (cases "bo_getattr bo")
    case None
    then show ?thesis
      by (induction js) (auto simp: submit_failures_def given_def map_filter_Cons List.map_filter_simps split: option.splits)
  next
    case (Some e)
    then show ?thesis by (simp add: submit_failures_def given_def comp_def)
  qed
  from this [of batch] show "rt_queue rt = take DRAIN_MAX (rt_queue rt) @ rt_queue (fst (submit_batch_under_gil bo rt))
      \<and> length (take DRAIN_MAX (rt_queue rt)) \<le> DRAIN_MAX
      \<and> mset (map sm_token (take DRAIN_MAX (rt_queue rt)))
          = mset (handed_over (snd (submit_batch_under_gil bo rt)))
            + mset (map fst (rt_resolving (fst (submit_batch_under_gil bo rt))))"
    unfolding batch_def [symmetric] by (simp add: submit_batch_under_gil_def Let_def handed_over_given batch_def)
qed

subsection \<open>The two readings of a response\<close>

text \<open>A Python dict carries the response a JSON line carries, field by field.\<close>

definition shows_field :: "heap \<Rightarrow> nat \<Rightarrow> string \<Rightarrow> pyobj option \<Rightarrow> bool" where
  "shows_field h a k x = (case x of None \<Rightarrow> get_item h a k = None | Some obj \<Rightarrow> \<exists>v. get_item h a k = Some v \<and> h v = obj)"

definition shows_error :: "heap \<Rightarrow> nat \<Rightarrow> error_json \<Rightarrow> bool" where
  "shows_error h e err \<longleftrightarrow>
     shows_field h e ''type'' (Some (OStr (ej_type err))) \<and> shows_field h e ''message'' (Some (OStr (ej_message err)))
     \<and> shows_field h e ''traceback'' (Some (OStr (ej_traceback err)))
     \<and> shows_field h e ''origin'' (if ej_origin err = [] then None else Some (OStr (ej_origin err)))"

definition mirrors :: "(heap \<Rightarrow> nat \<Rightarrow> (string, string) result) \<Rightarrow> heap \<Rightarrow> nat \<Rightarrow> py_resp \<Rightarrow> bool" where
  "mirrors encode h a r \<longleftrightarrow>
     flag h a ''ok'' = pr_ok r \<and> flag h a ''retry'' = pr_retry r
     \<and> shows_field h a ''countdown'' (map_option OFloat (pr_countdown r))
     \<and> shows_field h a ''retryable'' (map_option OBool (pr_retryable r))
     \<and> (case pr_error r of None \<Rightarrow> get_item h a ''error'' = None
        | Some err \<Rightarrow> \<exists>e. get_item h a ''error'' = Some e \<and> shows_error h e err)
     \<and> (case pr_result r of None \<Rightarrow> get_item h a ''result'' = None
        | Some raw \<Rightarrow> \<exists>v. get_item h a ''result'' = Some v \<and> encode_result encode h v = Success raw)"

lemma shows_error_read: "shows_error h e err \<Longrightarrow> error_field h e ''type'' = ej_type err \<and> error_field h e ''message'' = ej_message err
    \<and> error_field h e ''traceback'' = ej_traceback err \<and> error_field h e ''origin'' = ej_origin err"
  by (auto simp: shows_error_def shows_field_def error_field_def text_of_def split: if_splits)


definition bad_json :: json_lib where
  "bad_json = \<lparr>jl_members = (\<lambda>_. Some [(''ok'', ''false''), (''retryable'', ''false'')]), jl_elems = (\<lambda>_. None),
     jl_tree = (\<lambda>r. Some (JBool False)), jl_show = (\<lambda>_. ''''),
     jl_object = (\<lambda>_. ''''), jl_f64 = (\<lambda>_. None), jl_show_f64 = (\<lambda>_. ''''), jl_describe = (\<lambda>_. '''')\<rparr>"

definition bad_heap :: heap where
  "bad_heap a = (if a = 0 then ODict [(1, 3), (2, 3)] else if a = 1 then OStr ''ok'' else if a = 2 then OStr ''retryable'' else OBool False)"


text \<open>Without a type they part: the dict reader replaces the error, the line reader keeps it.\<close>

lemma untyped_error_read_differently:
  assumes "pyresp_of_str L s = Some r" "mirrors encode h a r" "\<not> pr_ok r" "pr_error r = Some err" "ej_type err = []" "\<not> pr_retry r"
  shows "outcome_from_py encode h a \<noteq> parse_pyresp L s False"
proof -
  note M = assms(2) [unfolded mirrors_def]
  obtain e where "get_item h a ''error'' = Some e" "error_field h e ''type'' = []"
    using M assms(4,5) shows_error_read by fastforce
  then have "ej_type (error_from_py h a) = ''UnknownError''" by (simp add: error_from_py_def ErrorJson_new_def)
  then show ?thesis
    using assms M by (auto simp: outcome_from_py_def parse_pyresp_def Let_def)
qed

definition demo_calls :: "rt_action list" where
  "demo_calls = [Call ''f'' ''[]'' ''{}'' (Fin 1) None None 7, Call ''g'' ''[]'' ''{}'' (Fin 1) None None 8,
     Batch \<lparr>bo_getattr = None, bo_decode = (\<lambda>_. None), bo_call = (\<lambda>_. None)\<rparr>, Callback 2 (Success ''1''), Cancel 1]"

theorem async_calls_answered_once_witness:
  "\<exists>rt eff. rt_run demo_calls rt_start = Some (rt, eff) \<and> issued eff = [7, 8] \<and> resolved_calls eff = [8] \<and> forgotten eff = [7]
     \<and> mset (issued eff) = mset (resolved_calls eff) + mset (forgotten eff) + mset (map snd (rt_pending rt))"
proof -
  obtain rt eff where r: "rt_run demo_calls rt_start = Some (rt, eff)" "issued eff = [7, 8]" "resolved_calls eff = [8]" "forgotten eff = [7]"
    by (simp add: demo_calls_def rt_start_def queue_submit_def submit_batch_under_gil_def submit_failures_def rejected_in_def given_def
        complete_pending_def cancel_def Let_def List.map_filter_simps AList.delete_eq rt_effects DRAIN_MAX_def)
  have "length (issued eff) < 2 ^ 64" using r(2) by simp
  from async_calls_answered_once [OF r(1) this] r show ?thesis by blast
qed

subsection \<open>Synchronous calls\<close>

lemma encode_result_Success:
  assumes "encode_result encode h a = Success json"
  shows "(json = ''null'' \<and> h a = ONone) \<or> (\<exists>t. unfolds h a t \<and> height t \<le> MAX_DEPTH \<and> encode h a = Inr json)"
proof (cases "h a = ONone")
  case True
  then show ?thesis using assms by (simp add: encode_result_def)
next
  case False
  then obtain u where "check_json h a 0 = Inr u" "encode h a = Inr json"
    using assms by (auto simp: encode_result_def split: sum.splits)
  then show ?thesis using gate_exact(1) [of h a 0] by auto
qed


text \<open>A task that returns the list \<open>[5]\<close>, with an encoder that knows it.\<close>

definition list_heap :: heap where
  "list_heap a = (if a = 0 then ODict [(1, 2), (3, 4)] else if a = 1 then OStr ''ok'' else if a = 2 then OBool True
     else if a = 3 then OStr ''result'' else if a = 4 then OList [5] else OInt 5)"

definition list_codec :: "unit codec" where
  "list_codec = \<lparr>cd_decode = (\<lambda>_. Inr ()), cd_empty_list = (), cd_empty_dict = (), cd_encode = (\<lambda>_ _. Inr ''[5]'')\<rparr>"


end
