(* ===== verification/Pyinit.thy ===== *)
theory Pyinit
  imports Pyrt Startup
begin

section \<open>Starting the embedded runtime (pyrt.rs)\<close>

text \<open>
  \<open>PyRuntime::init\<close>: the guard that allows one runtime per process, the calls into the shim in their order,
  the reading of the application's configuration and the fresh runtime. What each call of the shim gives
  is data.
\<close>

subsection \<open>The application's configuration\<close>

text \<open>The library's reader for \<open>u64\<close> (whole numbers only) and for maps with text keys (a repeated key replaces).\<close>

definition de_u64 :: "json_lib \<Rightarrow> string \<Rightarrow> u64 option" where
  "de_u64 L raw = (case jl_tree L raw of Some (JNum n) \<Rightarrow> parse_u64 n | _ \<Rightarrow> None)"

fun de_entries :: "(string \<Rightarrow> 'a option) \<Rightarrow> (string \<times> string) list \<Rightarrow> (string \<times> 'a) list \<Rightarrow> (string \<times> 'a) list option" where
  "de_entries de [] m = Some m"
| "de_entries de ((k, raw) # ms) m =
     (case de raw of None \<Rightarrow> None | Some x \<Rightarrow> de_entries de ms (AList.update k x m))"

definition de_map :: "json_lib \<Rightarrow> (string \<Rightarrow> 'a option) \<Rightarrow> string \<Rightarrow> (string \<times> 'a) list option" where
  "de_map L de raw = jl_members L raw \<bind> (\<lambda>ms. de_entries de ms [])"

definition task_spec_of_str :: "json_lib \<Rightarrow> string \<Rightarrow> task_spec option" where
  "task_spec_of_str L raw =
     do {
       ms \<leftarrow> struct_members L [''kind'', ''is_async'', ''timeout_ms''] raw;
       kind \<leftarrow> field ms ''kind'' (de_string L) None;
       is_async \<leftarrow> field ms ''is_async'' (de_bool L) None;
       timeout_ms \<leftarrow> field ms ''timeout_ms'' (de_u64 L) None;
       Some \<lparr>ts_kind = kind, ts_is_async = is_async, ts_timeout_ms = timeout_ms\<rparr>
     }"

definition app_config_of_str :: "json_lib \<Rightarrow> string \<Rightarrow> app_config option" where
  "app_config_of_str L raw =
     do {
       ms \<leftarrow> struct_members L [''redis_url'', ''default_queue'', ''result_ttl'', ''idemp_ttl'', ''queue_ttl'', ''tasks''] raw;
       redis_url \<leftarrow> field ms ''redis_url'' (de_string L) None;
       default_queue \<leftarrow> field ms ''default_queue'' (de_string L) None;
       result_ttl \<leftarrow> field ms ''result_ttl'' (de_u64 L) None;
       idemp_ttl \<leftarrow> field ms ''idemp_ttl'' (de_u64 L) None;
       queue_ttl \<leftarrow> field ms ''queue_ttl'' (de_map L (de_f64 L)) (Some []);
       tasks \<leftarrow> field ms ''tasks'' (de_map L (task_spec_of_str L)) None;
       Some \<lparr>ac_redis_url = redis_url, ac_default_queue = default_queue, ac_result_ttl = result_ttl,
             ac_idemp_ttl = idemp_ttl, ac_queue_ttl = queue_ttl, ac_tasks = tasks\<rparr>
     }"

subsection \<open>\<open>init\<close>\<close>

datatype init_error =
    InitTwice
  | ShimUnloadable string
  | AppUnloadable string string
  | ShimIncomplete string
  | NoCallback string
  | SetCallbackFailed string
  | StartLoopsFailed string
  | ConfigUnreadable string string

record init_obs =
  in_from_code :: "py_err option"
  in_load_app :: "string \<Rightarrow> (py_err, string) result"
  in_decode :: "py_err option"
  in_encode :: "py_err option"
  in_closure :: "py_err option"
  in_set_callback :: "py_err option"
  in_start_loops :: "nat \<Rightarrow> nat \<Rightarrow> py_err option"

definition raised :: "py_err option \<Rightarrow> (py_err \<Rightarrow> init_error) \<Rightarrow> (init_error, unit) result" where
  "raised r wrap = (case r of Some e \<Rightarrow> Inl (wrap e) | None \<Rightarrow> Inr ())"

definition chain :: "('e, 'a) result \<Rightarrow> ('a \<Rightarrow> ('e, 'b) result) \<Rightarrow> ('e, 'b) result" where
  "chain r f = (case r of Inl e \<Rightarrow> Inl e | Inr a \<Rightarrow> f a)"

definition load_shim :: "init_obs \<Rightarrow> string \<Rightarrow> nat \<Rightarrow> nat \<Rightarrow> (init_error, string) result" where
  "load_shim ob spec io_loops io_concurrency =
     chain (raised (in_from_code ob) (\<lambda>e. ShimUnloadable (pyerr_string e))) (\<lambda>_.
     chain (case in_load_app ob spec of Inl e \<Rightarrow> Inl (AppUnloadable spec (pyerr_string e)) | Inr cfg \<Rightarrow> Inr cfg) (\<lambda>cfg.
     chain (raised (in_decode ob) (\<lambda>e. ShimIncomplete (pe_text e))) (\<lambda>_.
     chain (raised (in_encode ob) (\<lambda>e. ShimIncomplete (pe_text e))) (\<lambda>_.
     chain (raised (in_closure ob) (\<lambda>e. NoCallback (pyerr_string e))) (\<lambda>_.
     chain (raised (in_set_callback ob) (\<lambda>e. SetCallbackFailed (pyerr_string e))) (\<lambda>_.
     chain (raised (in_start_loops ob io_loops io_concurrency) (\<lambda>e. StartLoopsFailed (pyerr_string e))) (\<lambda>_.
     Inr cfg)))))))"

text \<open>The argument \<open>built\<close> is \<open>RUNTIME_BUILT\<close>; it is set first and never given back.\<close>

definition pyrt_init ::
  "json_lib \<Rightarrow> init_obs \<Rightarrow> string \<Rightarrow> nat \<Rightarrow> nat \<Rightarrow> bool \<Rightarrow> bool \<times> (init_error, pyrt \<times> app_config) result" where
  "pyrt_init L ob spec io_loops io_concurrency built =
     (True,
      if built then Inl InitTwice
      else chain (load_shim ob spec io_loops io_concurrency) (\<lambda>cfg_json.
           case app_config_of_str L cfg_json of
             None \<Rightarrow> Inl (ConfigUnreadable spec (jl_describe L cfg_json))
           | Some cfg \<Rightarrow> Inr (rt_start, cfg)))"

text \<open>The default interpreter of the cpu pool; an empty name counts as none.\<close>

definition interpreter_executable :: "string option \<Rightarrow> string option" where
  "interpreter_executable exe = (case exe of None \<Rightarrow> None | Some e \<Rightarrow> if e \<noteq> [] then Some e else None)"

section \<open>Correctness of the start\<close>

text \<open>Calls of \<open>init\<close> over the life of a process.\<close>

fun pyrt_inits :: "json_lib \<Rightarrow> (init_obs \<times> string \<times> nat \<times> nat) list \<Rightarrow> bool \<Rightarrow> (init_error, pyrt \<times> app_config) result list" where
  "pyrt_inits L [] built = []"
| "pyrt_inits L ((ob, spec, loops, conc) # cs) built =
     (let (built', r) = pyrt_init L ob spec loops conc built in r # pyrt_inits L cs built')"

lemma chain_eq_Inr: "chain r f = Inr b \<longleftrightarrow> (\<exists>a. r = Inr a \<and> f a = Inr b)"
  by (cases r) (simp_all add: chain_def)

lemma raised_eq_Inr: "raised r w = Inr u \<longleftrightarrow> r = None"
  by (cases r) (simp_all add: raised_def)

lemma inits_after_first: "list_all (\<lambda>r. r = Inl InitTwice) (pyrt_inits L cs True)"
  by (induction cs) (auto simp: pyrt_init_def)

lemma de_entries_distinct: "de_entries de ms m = Some m' \<Longrightarrow> distinct (map fst m) \<Longrightarrow> distinct (map fst m')"
  by (induction ms arbitrary: m) (auto simp: distinct_update split: option.splits)

lemma de_map_distinct: "de_map L de raw = Some m \<Longrightarrow> distinct (map fst m)"
  by (auto simp: de_map_def bind_eq_Some_conv dest: de_entries_distinct)

lemma app_config_distinct:
  assumes "app_config_of_str L raw = Some cfg"
  shows "distinct (map fst (ac_tasks cfg)) \<and> distinct (map fst (ac_queue_ttl cfg))"
  using assms
  by (auto simp: app_config_of_str_def bind_eq_Some_conv field_def de_map_distinct split: option.splits)

text \<open>
  A process has at most one runtime: of any number of starts only the first can succeed, whether or
  not it did, and every later one reports that. A start that succeeds went through every call of the
  shim without an exception, gives an empty table of calls, and a configuration in which no task and no
  queue appears twice.
\<close>

theorem one_runtime_per_process:
  "list_all (\<lambda>r. r = Inl InitTwice) (tl (pyrt_inits L cs False))
   \<and> (snd (pyrt_init L ob spec loops conc built) = Inr (rt, cfg) \<longrightarrow>
        \<not> built \<and> rt = rt_start
        \<and> (\<exists>json. in_load_app ob spec = Inr json \<and> app_config_of_str L json = Some cfg)
        \<and> in_from_code ob = None \<and> in_decode ob = None \<and> in_encode ob = None \<and> in_closure ob = None
        \<and> in_set_callback ob = None \<and> in_start_loops ob loops conc = None
        \<and> distinct (map fst (ac_tasks cfg)) \<and> distinct (map fst (ac_queue_ttl cfg)))"
proof (intro conjI impI)
  show "list_all (\<lambda>r. r = Inl InitTwice) (tl (pyrt_inits L cs False))"
    by (cases cs) (auto simp: pyrt_init_def inits_after_first)
next
  assume *: "snd (pyrt_init L ob spec loops conc built) = Inr (rt, cfg)"
  then obtain json where j: "load_shim ob spec loops conc = Inr json" "app_config_of_str L json = Some cfg"
    "rt = rt_start" "\<not> built"
    by (auto simp: pyrt_init_def chain_eq_Inr split: if_splits option.splits)
  from j(1) have "in_load_app ob spec = Inr json" "in_from_code ob = None" "in_decode ob = None" "in_encode ob = None"
    "in_closure ob = None" "in_set_callback ob = None" "in_start_loops ob loops conc = None"
    by (auto simp: load_shim_def chain_eq_Inr raised_eq_Inr split: sum.splits)
  then show "\<not> built" "rt = rt_start" "\<exists>json. in_load_app ob spec = Inr json \<and> app_config_of_str L json = Some cfg"
    "in_from_code ob = None" "in_decode ob = None" "in_encode ob = None" "in_closure ob = None"
    "in_set_callback ob = None" "in_start_loops ob loops conc = None"
    "distinct (map fst (ac_tasks cfg))" "distinct (map fst (ac_queue_ttl cfg))"
    using j app_config_distinct [OF j(2)] by auto
qed

text \<open>A concrete start: a codec that knows one configuration text.\<close>

definition config_json :: json_lib where
  "config_json = \<lparr>jl_members = (\<lambda>s. if s = ''{}'' then Some [] else if s = ''cfg'' then
        Some [(''redis_url'', ''u''), (''default_queue'', ''u''), (''result_ttl'', ''9''), (''idemp_ttl'', ''9''), (''tasks'', ''{}'')]
        else None), jl_elems = (\<lambda>_. None), jl_tree = (\<lambda>s. Some (if s = ''9'' then JNum ''9'' else JStr s)),
     jl_show = (\<lambda>_. ''''), jl_object = (\<lambda>_. ''''), jl_f64 = (\<lambda>_. None), jl_show_f64 = (\<lambda>_. ''''), jl_describe = (\<lambda>_. '''')\<rparr>"

definition quiet_init :: init_obs where
  "quiet_init = \<lparr>in_from_code = None, in_load_app = (\<lambda>_. Inr ''cfg''), in_decode = None, in_encode = None, in_closure = None,
     in_set_callback = None, in_start_loops = (\<lambda>_ _. None)\<rparr>"

definition config_read :: app_config where
  "config_read = \<lparr>ac_redis_url = ''u'', ac_default_queue = ''u'', ac_result_ttl = 9, ac_idemp_ttl = 9, ac_queue_ttl = [], ac_tasks = []\<rparr>"

lemma config_reads: "app_config_of_str config_json ''cfg'' = Some config_read"
  by (simp add: app_config_of_str_def config_read_def struct_members_def config_json_def field_def de_string_def de_u64_def
    de_map_def parse_u64_def is_digit_def)

lemma quiet_init_gives: "snd (pyrt_init config_json quiet_init ''m:app'' 1 8 False) = Inr (rt_start, config_read)"
  by (simp add: pyrt_init_def load_shim_def chain_def raised_def quiet_init_def config_reads)

theorem one_runtime_per_process_witness:
  "distinct (map fst (ac_tasks config_read)) \<and> list_all (\<lambda>r. r = Inl InitTwice)
     (tl (pyrt_inits config_json [(quiet_init, ''m:app'', 1, 8), (quiet_init, ''m:app'', 1, 8)] False))"
  using one_runtime_per_process [of config_json "[(quiet_init, ''m:app'', 1, 8), (quiet_init, ''m:app'', 1, 8)]"
      quiet_init "''m:app''" 1 8 False rt_start config_read] quiet_init_gives by blast

end
