(* ===== verification/Logsink.thy ===== *)
theory Logsink
  imports Prelude "HOL-Library.Sublist"
begin

section \<open>The log sink (logsink.rs)\<close>

text \<open>
  Threads that log hand whole lines to a bounded channel without ever blocking; one writer thread drains it
  to standard output and reports how many lines were dropped; \<open>flush\<close> waits, for a bounded time, until what
  was queued before it is written. Dropping a \<open>LineBuf\<close> is four sections (count, try to send, and on
  refusal uncount and count the drop), the writer's turn three; any thread may run between any two.
\<close>

subsection \<open>State\<close>

definition CAPACITY :: nat where
  "CAPACITY = 8192"

definition FLUSH_POLL_MS :: nat where
  "FLUSH_POLL_MS = 1"

text \<open>A line on its way in, and the writer.\<close>

datatype handover = Counted string | Refused string | Uncounted string

datatype writer = Receiving | Writing string | Written

datatype printed = Line string | Drops nat

record log_sink =
  ls_channel :: "string list"
  ls_dropped :: nat
  ls_queued :: nat
  ls_written :: nat
  ls_handing :: "handover list"
  ls_writer :: writer
  ls_reported :: nat
  ls_out :: "printed list"

definition sink_start :: log_sink where
  "sink_start = \<lparr>ls_channel = [], ls_dropped = 0, ls_queued = 0, ls_written = 0, ls_handing = [], ls_writer = Receiving,
     ls_reported = 0, ls_out = []\<rparr>"

text \<open>\<open>LineBuf\<close>: written piece by piece; only a non-empty line is handed over.\<close>

definition line_write :: "string \<Rightarrow> string \<Rightarrow> string" where
  "line_write buf data = buf @ data"

datatype log_effect = Handed string | Queued string

definition line_drop :: "string \<Rightarrow> log_sink \<Rightarrow> log_sink \<times> log_effect list" where
  "line_drop buf s =
     (if buf = [] then (s, [])
      else (s\<lparr>ls_queued := ls_queued s + 1, ls_handing := ls_handing s @ [Counted buf]\<rparr>, [Handed buf]))"

definition try_send :: "nat \<Rightarrow> string \<Rightarrow> log_sink \<Rightarrow> log_sink \<times> log_effect list" where
  "try_send i line s =
     (if length (ls_channel s) < CAPACITY
      then (s\<lparr>ls_channel := ls_channel s @ [line], ls_handing := take i (ls_handing s) @ drop (Suc i) (ls_handing s)\<rparr>, [Queued line])
      else (s\<lparr>ls_handing := (ls_handing s)[i := Refused line]\<rparr>, []))"

text \<open>The writer: the line first, then the drops seen since the last report.\<close>

definition write_line :: "string \<Rightarrow> log_sink \<Rightarrow> log_sink" where
  "write_line line s =
     (let now = ls_dropped s;
          out = ls_out s @ [Line line];
          out = (if now > ls_reported s then out @ [Drops (now - ls_reported s)] else out)
      in s\<lparr>ls_out := out, ls_reported := (if now > ls_reported s then now else ls_reported s), ls_writer := Written\<rparr>)"

subsection \<open>Steps\<close>

datatype log_action = Drop_line string | Send nat | Uncount nat | Count_drop nat | Receive | Write_out | Acknowledge

fun sink_step :: "log_action \<Rightarrow> log_sink \<Rightarrow> (log_sink \<times> log_effect list) option" where
  "sink_step (Drop_line buf) s = Some (line_drop buf s)"
| "sink_step (Send i) s =
     (if i < length (ls_handing s)
      then (case ls_handing s ! i of Counted line \<Rightarrow> Some (try_send i line s) | _ \<Rightarrow> None) else None)"
| "sink_step (Uncount i) s =
     (if i < length (ls_handing s)
      then (case ls_handing s ! i of
              Refused line \<Rightarrow> Some (s\<lparr>ls_queued := ls_queued s - 1, ls_handing := (ls_handing s)[i := Uncounted line]\<rparr>, [])
            | _ \<Rightarrow> None) else None)"
| "sink_step (Count_drop i) s =
     (if i < length (ls_handing s)
      then (case ls_handing s ! i of
              Uncounted line \<Rightarrow>
                Some (s\<lparr>ls_dropped := ls_dropped s + 1, ls_handing := take i (ls_handing s) @ drop (Suc i) (ls_handing s)\<rparr>, [])
            | _ \<Rightarrow> None) else None)"
| "sink_step Receive s =
     (case (ls_writer s, ls_channel s) of
        (Receiving, line # rest) \<Rightarrow> Some (s\<lparr>ls_channel := rest, ls_writer := Writing line\<rparr>, [])
      | _ \<Rightarrow> None)"
| "sink_step Write_out s = (case ls_writer s of Writing line \<Rightarrow> Some (write_line line s, []) | _ \<Rightarrow> None)"
| "sink_step Acknowledge s =
     (case ls_writer s of Written \<Rightarrow> Some (s\<lparr>ls_written := ls_written s + 1, ls_writer := Receiving\<rparr>, []) | _ \<Rightarrow> None)"

fun sink_run :: "log_action list \<Rightarrow> log_sink \<Rightarrow> (log_sink \<times> log_effect list) option" where
  "sink_run [] s = Some (s, [])"
| "sink_run (a # as) s =
     (case sink_step a s of
        None \<Rightarrow> None
      | Some (s', eff) \<Rightarrow>
          (case sink_run as s' of None \<Rightarrow> None | Some (s'', eff') \<Rightarrow> Some (s'', eff @ eff')))"

interpretation sink: machine sink_step sink_run
  by unfold_locales simp_all

text \<open>\<open>flush\<close>: the observations are the written count and the time at each poll; the result is the poll it
  returned at. Without a started sink it returns at once.\<close>

fun flush_loop :: "nat \<Rightarrow> nat \<Rightarrow> (nat \<times> nat) list \<Rightarrow> nat option" where
  "flush_loop target deadline [] = None"
| "flush_loop target deadline ((done_count, now) # obs) =
     (if done_count < target \<and> now < deadline then map_option Suc (flush_loop target deadline obs) else Some 0)"

definition flush :: "log_sink option \<Rightarrow> nat \<Rightarrow> nat \<Rightarrow> (nat \<times> nat) list \<Rightarrow> nat option" where
  "flush started t0 budget obs =
     (case started of None \<Rightarrow> Some 0 | Some s \<Rightarrow> flush_loop (ls_queued s) (t0 + budget) obs)"

section \<open>Correctness of the sink\<close>

definition queued_lines :: "log_effect list \<Rightarrow> string list" where
  "queued_lines eff = concat (map (\<lambda>e. case e of Queued l \<Rightarrow> [l] | _ \<Rightarrow> []) eff)"

definition handed_lines :: "log_effect list \<Rightarrow> string list" where
  "handed_lines eff = concat (map (\<lambda>e. case e of Handed l \<Rightarrow> [l] | _ \<Rightarrow> []) eff)"

definition out_lines :: "log_sink \<Rightarrow> string list" where
  "out_lines s = concat (map (\<lambda>e. case e of Line l \<Rightarrow> [l] | _ \<Rightarrow> []) (ls_out s))"

definition in_hand :: "log_sink \<Rightarrow> string list" where
  "in_hand s = (case ls_writer s of Writing l \<Rightarrow> [l] | _ \<Rightarrow> [])"

definition reports :: "log_sink \<Rightarrow> nat" where
  "reports s = sum_list (map (\<lambda>e. case e of Drops n \<Rightarrow> n | _ \<Rightarrow> 0) (ls_out s))"

definition counted :: "handover \<Rightarrow> bool" where
  "counted x = (case x of Uncounted _ \<Rightarrow> False | _ \<Rightarrow> True)"

lemma counted_simps [simp]: "counted (Counted l)" "counted (Refused l)" "\<not> counted (Uncounted l)"
  by (simp_all add: counted_def)

definition without :: "nat \<Rightarrow> 'a list \<Rightarrow> 'a list" where
  "without i xs = take i xs @ drop (Suc i) xs"

lemma without_filter:
  assumes "i < length xs"
  shows "length (filter P xs) = length (filter P (without i xs)) + of_bool (P (xs ! i))"
proof -
  have "length (filter P (take i xs @ xs ! i # drop (Suc i) xs)) = length (filter P (without i xs)) + of_bool (P (xs ! i))"
    by (simp add: without_def)
  then show ?thesis unfolding id_take_nth_drop [OF assms, symmetric] .
qed

lemma without_length: "i < length xs \<Longrightarrow> length (without i xs) = length xs - 1"
  by (simp add: without_def)

lemma without_update [simp]: "without i (xs[i := x]) = without i xs"
  by (simp add: without_def)

text \<open>With \<open>q\<close> the lines queued so far and \<open>n\<close> the number handed over.\<close>

definition sink_inv :: "string list \<Rightarrow> nat \<Rightarrow> log_sink \<Rightarrow> bool" where
  "sink_inv q n s \<longleftrightarrow>
     q = out_lines s @ in_hand s @ ls_channel s \<and> length (ls_channel s) \<le> CAPACITY
     \<and> ls_queued s = length q + length (filter counted (ls_handing s))
     \<and> n = length q + length (ls_handing s) + ls_dropped s
     \<and> length (out_lines s) = ls_written s + of_bool (ls_writer s = Written)
     \<and> reports s = ls_reported s \<and> ls_reported s \<le> ls_dropped s"

lemma sink_inv_start: "sink_inv [] 0 sink_start"
  by (simp add: sink_inv_def sink_start_def out_lines_def in_hand_def reports_def)

lemma lines_append [simp]:
  "queued_lines (e @ e') = queued_lines e @ queued_lines e'"
  "handed_lines (e @ e') = handed_lines e @ handed_lines e'"
  by (simp_all add: queued_lines_def handed_lines_def)

lemma lines_simps [simp]:
  "queued_lines [] = []" "handed_lines [] = []"
  "queued_lines [Queued l] = [l]" "handed_lines [Queued l] = []"
  "queued_lines [Handed l] = []" "handed_lines [Handed l] = [l]"
  by (simp_all add: queued_lines_def handed_lines_def)

lemma updated_filter:
  assumes "i < length xs"
  shows "length (filter P (xs[i := x])) + of_bool (P (xs ! i)) = length (filter P xs) + of_bool (P x)"
  using without_filter [OF assms, of P] without_filter [of i "xs[i := x]" P] assms by simp

lemmas sink_views = out_lines_def in_hand_def reports_def

lemma sink_inv_send:
  assumes "sink_inv q n s" "i < length (ls_handing s)" "ls_handing s ! i = Counted l" "try_send i l s = (s', eff)"
  shows "sink_inv (q @ queued_lines eff) (n + length (handed_lines eff)) s'"
proof (cases "length (ls_channel s) < CAPACITY")
  case True
  then have s': "s' = s\<lparr>ls_channel := ls_channel s @ [l], ls_handing := without i (ls_handing s)\<rparr>" "eff = [Queued l]"
    using assms(4) by (simp_all add: try_send_def without_def)
  then show ?thesis
    using True assms(1,2,3) without_filter [OF assms(2), of counted] without_length [OF assms(2)]
    by (auto simp: sink_inv_def sink_views)
next
  case False
  then show ?thesis
    using assms updated_filter [OF assms(2), of counted "Refused l"]
    by (auto simp: sink_inv_def try_send_def sink_views)
qed

lemma sink_inv_uncount:
  assumes "sink_inv q n s" "i < length (ls_handing s)" "ls_handing s ! i = Refused l"
  shows "sink_inv q n (s\<lparr>ls_queued := ls_queued s - 1, ls_handing := (ls_handing s)[i := Uncounted l]\<rparr>)"
  using assms updated_filter [OF assms(2), of counted "Uncounted l"]
  by (auto simp: sink_inv_def sink_views)

lemma sink_inv_count_drop:
  assumes "sink_inv q n s" "i < length (ls_handing s)" "ls_handing s ! i = Uncounted l"
  shows "sink_inv q n
    (s\<lparr>ls_dropped := ls_dropped s + 1, ls_handing := take i (ls_handing s) @ drop (Suc i) (ls_handing s)\<rparr>)"
  using assms without_filter [OF assms(2), of counted] without_length [OF assms(2)]
  unfolding without_def [symmetric] by (auto simp: sink_inv_def sink_views)

lemma sink_inv_drop:
  assumes "sink_inv q n s" "line_drop b s = (s', eff)"
  shows "sink_inv (q @ queued_lines eff) (n + length (handed_lines eff)) s'"
  using assms by (auto simp: sink_inv_def line_drop_def sink_views split: if_splits)

lemma sink_inv_receive:
  assumes "sink_inv q n s" "ls_writer s = Receiving" "ls_channel s = l # rest"
  shows "sink_inv q n (s\<lparr>ls_channel := rest, ls_writer := Writing l\<rparr>)"
  using assms by (auto simp: sink_inv_def sink_views)

lemma sink_inv_write:
  assumes "sink_inv q n s" "ls_writer s = Writing l"
  shows "sink_inv q n (write_line l s)"
  using assms by (auto simp: sink_inv_def write_line_def Let_def sink_views)

lemma sink_inv_acknowledge:
  assumes "sink_inv q n s" "ls_writer s = Written"
  shows "sink_inv q n (s\<lparr>ls_written := ls_written s + 1, ls_writer := Receiving\<rparr>)"
  using assms by (auto simp: sink_inv_def sink_views)

lemma sink_inv_step:
  assumes inv: "sink_inv q n s" and "sink_step a s = Some (s', eff)"
  shows "sink_inv (q @ queued_lines eff) (n + length (handed_lines eff)) s'"
proof (cases a)
  case (Drop_line b)
  then show ?thesis using assms sink_inv_drop by simp
next
  case (Send i)
  then show ?thesis using assms(2) sink_inv_send [OF inv] by (simp split: if_splits handover.splits)
next
  case (Uncount i)
  then show ?thesis using assms(2) sink_inv_uncount [OF inv] by (auto split: if_splits handover.splits)
next
  case (Count_drop i)
  then show ?thesis using assms(2) sink_inv_count_drop [OF inv] by (auto split: if_splits handover.splits)
next
  case Receive
  then show ?thesis using assms(2) sink_inv_receive [OF inv] by (auto split: writer.splits list.splits)
next
  case Write_out
  then show ?thesis using assms(2) sink_inv_write [OF inv] by (auto split: writer.splits)
next
  case Acknowledge
  then show ?thesis using assms(2) sink_inv_acknowledge [OF inv] by (auto split: writer.splits)
qed

lemma sink_inv_run:
  assumes "sink_run as s = Some (s', eff)" "sink_inv q n s"
  shows "sink_inv (q @ queued_lines eff) (n + length (handed_lines eff)) s'"
proof -
  have "\<forall>q n. sink_inv q n s \<longrightarrow> sink_inv (q @ queued_lines eff) (n + length (handed_lines eff)) s'"
    by (rule sink.run_account [OF assms(1), where Q = "\<lambda>s eff s'. \<forall>q n. sink_inv q n s
      \<longrightarrow> sink_inv (q @ queued_lines eff) (n + length (handed_lines eff)) s'"])
      (simp, force simp: add.assoc, blast intro: sink_inv_step)
  then show ?thesis using assms(2) by blast
qed

subsection \<open>Conservation\<close>

text \<open>
  C34. In every interleaving of any number of logging threads with the writer: the lines the channel accepted
  are, in order, those already written, the one in the writer's hand and those still in the channel, so
  none is lost, repeated or overtaken; the channel never holds more than its capacity; every line handed
  over is accepted, still on its way in, or counted as dropped; and the drop counts printed sum up
  to what the writer has reported, never more than was dropped.
\<close>

theorem log_lines_conserved:
  assumes "sink_run as sink_start = Some (s, eff)"
  shows "queued_lines eff = out_lines s @ in_hand s @ ls_channel s \<and> length (ls_channel s) \<le> CAPACITY
    \<and> length (handed_lines eff) = length (queued_lines eff) + length (ls_handing s) + ls_dropped s
    \<and> reports s = ls_reported s \<and> ls_reported s \<le> ls_dropped s"
  using sink_inv_run [OF assms sink_inv_start] by (simp add: sink_inv_def)

definition demo_logging :: "log_action list" where
  "demo_logging = [Drop_line ''a'', Drop_line ''b'', Send 1, Receive, Send 0, Write_out, Acknowledge]"

definition demo_logged :: log_sink where
  "demo_logged = \<lparr>ls_channel = [''a''], ls_dropped = 0, ls_queued = 2, ls_written = 1, ls_handing = [],
     ls_writer = Receiving, ls_reported = 0, ls_out = [Line ''b'']\<rparr>"

lemma demo_logging_run:
  "sink_run demo_logging sink_start
    = Some (demo_logged, [Handed ''a'', Handed ''b'', Queued ''b'', Queued ''a''])"
  by (simp add: demo_logging_def demo_logged_def sink_start_def line_drop_def try_send_def CAPACITY_def write_line_def)

theorem log_lines_conserved_witness:
  "queued_lines [Handed ''a'', Handed ''b'', Queued ''b'', Queued ''a'']
    = out_lines demo_logged @ in_hand demo_logged @ ls_channel demo_logged"
  using log_lines_conserved [OF demo_logging_run] by blast

subsection \<open>Never blocking the caller\<close>

definition caller_action :: "log_action \<Rightarrow> bool" where
  "caller_action a \<longleftrightarrow> a \<notin> {Receive, Write_out, Acknowledge}"

text \<open>
  From any state, whatever the writer and the other threads are doing, a thread that logs a line finishes
  handing it over in at most four steps of its own: the line is appended to the channel when there is
  room, and otherwise the drop is counted and the queued count is as before.
\<close>

theorem logging_never_blocks:
  "\<exists>as s' eff. length as \<le> 4 \<and> list_all caller_action as \<and> sink_run as s = Some (s', eff)
     \<and> ls_handing s' = ls_handing s \<and> ls_out s' = ls_out s
     \<and> (buf = [] \<longrightarrow> s' = s)
     \<and> (buf \<noteq> [] \<and> length (ls_channel s) < CAPACITY
          \<longrightarrow> s' = s\<lparr>ls_channel := ls_channel s @ [buf], ls_queued := ls_queued s + 1\<rparr>)
     \<and> (buf \<noteq> [] \<and> \<not> length (ls_channel s) < CAPACITY \<longrightarrow> s' = s\<lparr>ls_dropped := ls_dropped s + 1\<rparr>)"
proof -
  define k where "k = length (ls_handing s)"
  consider (empty) "buf = []" | (room) "buf \<noteq> []" "length (ls_channel s) < CAPACITY"
    | (full) "buf \<noteq> []" "\<not> length (ls_channel s) < CAPACITY" by blast
  then show ?thesis
  proof cases
    case empty
    then show ?thesis
      by (intro exI [of _ "[Drop_line buf]"] exI [of _ s] exI [of _ "[]"]) (simp add: caller_action_def line_drop_def)
  next
    case room
    then show ?thesis
      by (intro exI [of _ "[Drop_line buf, Send k]"] exI [of _ "s\<lparr>ls_channel := ls_channel s @ [buf], ls_queued := ls_queued s + 1\<rparr>"]
          exI [of _ "[Handed buf, Queued buf]"])
        (simp add: caller_action_def line_drop_def try_send_def k_def)
  next
    case full
    then show ?thesis
      by (intro exI [of _ "[Drop_line buf, Send k, Uncount k, Count_drop k]"] exI [of _ "s\<lparr>ls_dropped := ls_dropped s + 1\<rparr>"]
          exI [of _ "[Handed buf]"])
        (simp add: caller_action_def line_drop_def try_send_def k_def)
  qed
qed

theorem logging_never_blocks_witness:
  "\<exists>as s' eff. list_all caller_action as \<and> sink_run as demo_logged = Some (s', eff)
     \<and> s' = demo_logged\<lparr>ls_channel := [''a'', ''c''], ls_queued := 3\<rparr>"
  using logging_never_blocks [of demo_logged "''c''"] by (simp add: demo_logged_def CAPACITY_def) blast

subsection \<open>Flush\<close>

lemma flush_loop_returns:
  "i < length obs \<Longrightarrow> deadline \<le> snd (obs ! i) \<Longrightarrow> \<exists>k\<le>i. flush_loop target deadline obs = Some k"
proof (induction target deadline obs arbitrary: i rule: flush_loop.induct)
  case (2 target deadline done_count now obs)
  then show ?case by (cases i) fastforce+
qed simp

lemma flush_loop_target:
  "flush_loop target deadline obs = Some k \<Longrightarrow> k < length obs \<and> (snd (obs ! k) < deadline \<longrightarrow> target \<le> fst (obs ! k))"
  by (induction target deadline obs arbitrary: k rule: flush_loop.induct) (auto split: if_splits)

text \<open>
  C35. When a flush comes back before its deadline, every line the channel had accepted before the
  call has been written, in order, ahead of anything accepted later; and a flush always comes back, at the
  latest at the first poll past its deadline, whatever the writer does. The second state is the sink when the
  flush comes back: what its polls saw written by then is written there.
\<close>

theorem flush_covers_queued_lines:
  assumes "sink_run as sink_start = Some (s, eff)" "sink_run bs s = Some (s', eff')"
    and "\<exists>i<length obs. t0 + budget \<le> snd (obs ! i)"
    and "\<And>k. k < length obs \<Longrightarrow> snd (obs ! k) < t0 + budget \<Longrightarrow> fst (obs ! k) \<le> ls_written s'"
  shows "\<exists>k. flush (Some s) t0 budget obs = Some k
    \<and> (snd (obs ! k) < t0 + budget \<longrightarrow> prefix (queued_lines eff) (out_lines s'))"
proof -
  have inv: "sink_inv (queued_lines eff) (length (handed_lines eff)) s"
    using sink_inv_run [OF assms(1) sink_inv_start] by simp
  from sink_inv_run [OF assms(2) inv]
  have q: "queued_lines eff @ queued_lines eff' = out_lines s' @ in_hand s' @ ls_channel s'"
    and w: "ls_written s' \<le> length (out_lines s')"
    by (simp_all add: sink_inv_def)
  obtain k where k: "flush_loop (ls_queued s) (t0 + budget) obs = Some k" using assms(3) flush_loop_returns by blast
  have "prefix (queued_lines eff) (out_lines s')" if "snd (obs ! k) < t0 + budget"
  proof -
    have "length (queued_lines eff) \<le> ls_queued s" using inv by (simp add: sink_inv_def)
    also have "\<dots> \<le> fst (obs ! k)" using flush_loop_target [OF k] that by simp
    also have "\<dots> \<le> length (out_lines s')" using assms(4) flush_loop_target [OF k] that w le_trans by blast
    finally show ?thesis using q by (metis prefix_def prefix_length_prefix)
  qed
  then show ?thesis using k by (auto simp: flush_def)
qed

theorem flush_covers_queued_lines_witness:
  "\<exists>k. flush (Some demo_logged) 10 5 [(1, 10), (2, 11), (2, 15)] = Some k
    \<and> (snd ([(1 :: nat, 10), (2, 11), (2, 15)] ! k) < (10 :: nat) + 5
        \<longrightarrow> prefix [''b'', ''a''] (out_lines (demo_logged\<lparr>ls_channel := [], ls_written := 2, ls_out := [Line ''b'', Line ''a'']\<rparr>)))"
proof -
  let ?s' = "demo_logged\<lparr>ls_channel := [], ls_written := 2, ls_out := [Line ''b'', Line ''a'']\<rparr>"
  have run: "sink_run [Receive, Write_out, Acknowledge] demo_logged = Some (?s', [])"
    by (simp add: demo_logged_def write_line_def)
  have late: "\<exists>i<length [(1, 10), (2, 11), (2 :: nat, 15 :: nat)]. 10 + 5 \<le> snd ([(1, 10), (2, 11), (2 :: nat, 15 :: nat)] ! i)"
    by (intro exI [of _ 2]) simp
  have seen: "fst ([(1, 10), (2, 11), (2 :: nat, 15 :: nat)] ! k) \<le> ls_written ?s'"
    if "k < length [(1, 10), (2, 11), (2 :: nat, 15 :: nat)]" for k
    using that by (simp add: less_Suc_eq numeral_3_eq_3 nth_Cons split: nat.splits) auto
  have demo_queued: "queued_lines [Handed ''a'', Handed ''b'', Queued ''b'', Queued ''a''] = [''b'', ''a'']"
    by (simp add: queued_lines_def)
  show ?thesis
    by (rule flush_covers_queued_lines [OF demo_logging_run run late, unfolded demo_queued]) (rule seen)
qed

text \<open>
  A line that was counted but not yet sent when \<open>flush\<close> read its target is not always waited for: another
  thread's line, sent first, can make up the count, and the flush comes back with the counted line unwritten.
\<close>

lemma counted_line_not_waited_for:
  "\<exists>s s' eff. sink_run [Drop_line ''a''] sink_start = Some (s, [Handed ''a''])
     \<and> sink_run [Drop_line ''b'', Send 1, Receive, Write_out, Acknowledge] s = Some (s', eff)
     \<and> flush (Some s) 0 1000 [(ls_written s', 1)] = Some 0 \<and> out_lines s' = [''b'']"
  by (simp add: sink_start_def line_drop_def try_send_def CAPACITY_def write_line_def flush_def out_lines_def)

end
