(* ===== verification/Spec2Isabelle.thy ===== *)
theory Spec2Isabelle
  imports Backoff Broker Stats Clock Dispatch Delivery Startup Loops Cpu Idle Forkserver Pool Handover Pyrt Pyinit Logsink
begin

text \<open>
  \<^bold>\<open>The Cauli worker.\<close>

  Cauli is a task queue on Redis Streams. Its worker (Rust, \<open>src/worker/src\<close>) fetches task envelopes from
  the streams of its queues, runs each on one of three lanes (a pool of OS threads and an asyncio loop in
  an embedded Python, and a pool of child processes), and completes it: a result, a retry on the delayed
  set of the queue, or a dead letter, followed by the acknowledgement. This development models the worker
  component by component and proves what makes it correct.

  \<^bold>\<open>Parts and theories.\<close> Every theory models the Rust file named with it; the names of definitions are
  the source's names wherever they do not clash.

  \<^item> \<open>Prelude\<close>: machine integers with Rust's saturating, checked and wrapping operations, decimal text,
    splitting and joining of strings, the collection \<open>sat_simps\<close> and the lemmas the components share; the
    locale \<open>machine\<close> (a component whose steps other threads interleave), interpreted by every such component.
  \<^item> \<open>Texts\<close>, \<open>Assoc\<close>: text operations of the standard library; association lists as hash maps.
  \<^item> \<open>F64\<close>, \<open>Backoff\<close> (backoff.rs): binary64 arithmetic with rounding to even, infinities and NaN, as far as
    the retry delay uses it; the delay, its cap, floor and exact doubling.
  \<^item> \<open>Redis\<close>, \<open>Redis_Mem\<close>: the commands the worker sends, a client connection as a record of functions over
    an abstract server state (\<open>world\<close>), and the laws of the server the worker relies on as locales
    (\<open>redis_conn\<close>, \<open>delayed_store\<close>, \<open>lease_store\<close>, \<open>group_store\<close>, \<open>group_reader\<close>). \<open>Redis_Mem\<close> is an in-memory
    server that satisfies all of them, the concrete instance of every witness.
  \<^item> \<open>Broker\<close> (broker.rs): keys, the mover and idempotency scripts, the completion buffers with their flusher,
    trimming, recovery reads.
  \<^item> \<open>Envelope\<close> (envelope.rs): reading and writing of envelopes field by field over an abstract JSON codec
    (\<open>json_lib\<close>, the crate serde_json), deadlines, result texts, truncation.
  \<^item> \<open>Stats\<close> (stats.rs), \<open>Clock\<close> (clock.rs): counters and latency histograms; the Redis-anchored clock.
  \<^item> \<open>Cli\<close> (cli.rs), \<open>Ctx\<close> (ctx.rs): arguments and their derivation; the shared context, in-flight tracking,
    counter updates as data (\<open>counter_op\<close>), reading of executor responses.
  \<^item> \<open>Exec\<close> (exec.rs), \<open>Dispatch\<close> (dispatch.rs): the three lanes, each wait as data; validation, expiry,
    idempotency, execution and completion of one delivered entry. The locale \<open>completer\<close> holds the argument that
    an entry is completed once for any way of recording what reaches the buffers. \<open>Delivery\<close>: dispatch and the
    completion buffers together, its second interpretation.
  \<^item> \<open>Loops\<close> (loops.rs): fetch, mover, trim, recovery, consumer reaping, watchdog and stats loops, one
    function per turn over what the turn observes.
  \<^item> \<open>Cpu\<close> (cpu.rs): the pool of child processes: handshakes, the service loop of a connection turn by
    turn, replacement of children and of the fork server's parent, the stdio fallback. \<open>Idle\<close>: the slots of a pool
    side by side, with the idle count they share. \<open>Forkserver\<close>: the start
    of the fork server, its files, the acceptor.
  \<^item> \<open>Pool\<close> (pyrt.rs, \<open>SyncPool\<close>): the pool of threads with its job queue, condition variable and the
    interpreter lock as a machine over all interleavings. \<open>Handover\<close>: one job between its lane and the thread that
    takes it, over their two one-shot channels. \<open>Pyrt\<close> (pyrt.rs, \<open>PyRuntime\<close>): synchronous calls, the
    table of pending asynchronous calls, the reading of Python outcomes. \<open>Pyinit\<close>: the start of the runtime.
    \<open>Pyjson\<close> (pyjson.rs): the type gate of results over a heap of Python objects, cyclic ones included.
  \<^item> \<open>Logsink\<close> (logsink.rs): the bounded log channel, its writer and \<open>flush\<close> as a machine.
  \<^item> \<open>Supervisor\<close> (supervisor.rs), \<open>Startup\<close> (lib.rs): the command line of children, slots and restarts;
    validation, the plan, the checks against the broker, drain, signals and credential masking.

  \<^bold>\<open>How code is translated.\<close> A struct is a \<open>record\<close>, an enum a \<open>datatype\<close>, \<open>u64\<close> a 64 bit \<open>word\<close> wherever
  wrap-around or saturation matters. A function that talks to Redis takes the connection and the server
  state and returns the new state; everything other workers do in between is the relation \<open>env\<close> of the
  locales. An \<open>await\<close> on something outside the model (an executor, a timer, a child process, a socket) is
  data: an argument that says what the wait ended with, so a theorem over all such arguments is a theorem
  over all behaviours. A loop that runs for the life of the process is a function over the list of its
  turns; a loop that must end is a total function or is proved to end within a stated number of turns.
  Code of other crates (serde_json, redis, sha2, rand, clap, PyO3) and the Python side are parameters; what
  is relied on is a named hypothesis or a locale, with an instance.

  \<^bold>\<open>What is shown.\<close> Entries: every delivered entry is completed once, only entries that may run are run,
  failures are retried within their budget and through the delayed set unchanged. Broker: nothing is
  acknowledged before it is written, moved before it is appended, trimmed while it is live; claims are
  exclusive. Recovery: only abandoned entries are taken, and only after the asynchronous backstop. Pools:
  every request is answered once, load is bounded, no wakeup is lost. Processes: settings are sound, child
  command lines read back, restarts are rate limited, shutdown is bounded, logged URLs hide credentials.
  Numbers: delays, deadlines, percentiles and clocks neither wrap nor leave their bounds.

  \<^bold>\<open>Bounds and fuel.\<close> No definition uses fuel. The mover drains a tick within the source's 32 rounds; the
  drain ends within ten checks per second of its timeout. Lists of turns, observations and events in
  statements are arbitrary.

  \<^bold>\<open>Not modelled.\<close> The Python client and the embedded \<open>shim.py\<close> (not Rust: the worker sees them through
  JSON text and Python objects, which are arguments here); the calls into PyO3 and the CPython C API; process
  creation, sockets and file system calls; log texts, except where a line is a result; the two-line
  \<open>main.rs\<close>; test modules.
\<close>

section \<open>Properties that span components\<close>

subsection \<open>The cpu lane and the cpu pool\<close>

text \<open>The jobs the cpu lane sends: the wire id of the envelope under the sequence number drawn for it.\<close>

definition lane_job :: "json_lib \<Rightarrow> envelope \<Rightarrow> u64 \<Rightarrow> nat \<Rightarrow> cpu_job" where
  "lane_job L env sq resp =
     \<lparr>cj_id = wire_id env sq, cj_req_line = cpu_request L env (wire_id env sq), cj_timeout_ms = e_timeout_ms env, cj_resp = resp\<rparr>"

lemma lane_jobs_distinct:
  assumes "distinct (map (fst \<circ> snd) reqs)"
  shows "distinct (map cj_id (map (\<lambda>(env, sq, resp). lane_job L env sq resp) reqs))"
proof -
  have ids: "map cj_id (map (\<lambda>(env, sq, resp). lane_job L env sq resp) reqs) = map (\<lambda>r. wire_id (fst r) (fst (snd r))) reqs"
    by (simp add: lane_job_def split_def)
  have "distinct reqs" "inj_on (fst \<circ> snd) (set reqs)" using assms by (auto simp: distinct_map)
  then show ?thesis unfolding ids distinct_map by (auto simp: inj_on_def wire_id_inj)
qed

text \<open>
  C7. Every request of the cpu lane comes back to its own task: the requests carry wire ids built from
  the envelope id and a number drawn once per request, so however often a task is retried or redelivered
  no two requests a child sees share an id; each is one line, and over the whole life of a child each is
  answered exactly once.
\<close>

theorem cpu_lane_requests_answered_once:
  assumes "jobs_of tus = map (\<lambda>(env, sq, resp). lane_job L env sq resp) reqs" "distinct (map (fst \<circ> snd) reqs)"
    and "serve_child L cfg pid tus now = Some (ex, eff)"
  shows "mset (map fst (replies eff)) = mset (map (snd \<circ> snd) reqs)
    \<and> (\<forall>job\<in>set (jobs_of tus). CHR 0x0A \<notin> set (cj_req_line job))"
proof -
  have "distinct (map cj_id (jobs_of tus))" unfolding assms(1) by (rule lane_jobs_distinct [OF assms(2)])
  then have "mset (map fst (replies eff)) = mset (map cj_resp (jobs_of tus))"
    using serve_child_account [OF assms(3)] by simp
  also have "map cj_resp (jobs_of tus) = map (snd \<circ> snd) reqs"
    unfolding assms(1) by (simp add: lane_job_def split_def)
  finally show ?thesis unfolding assms(1) by (auto simp: lane_job_def cpu_request_one_line)
qed

theorem cpu_lane_requests_answered_once_witness:
  "\<exists>eff. serve_child echo_json \<lparr>sg_concurrency = 1, sg_prefetch = 0, sg_recycle = 0\<rparr> 9
       [demo_turn (JobIn (lane_job echo_json demo_env 1 7)) 0, demo_turn ReadClosed 1] 2 = Some (ServeDied, eff)
     \<and> mset (map fst (replies eff)) = {#7#}"
proof -
  let ?tus = "[demo_turn (JobIn (lane_job echo_json demo_env 1 7)) 0, demo_turn ReadClosed 1]"
  obtain eff where e: "serve_child echo_json \<lparr>sg_concurrency = 1, sg_prefetch = 0, sg_recycle = 0\<rparr> 9 ?tus 2 = Some (ServeDied, eff)"
    by (simp add: serve_child_def serve_eval serve_exit_of_def)
  have "jobs_of ?tus = map (\<lambda>(env, sq, resp). lane_job echo_json env sq resp) [(demo_env, 1, 7)]"
    by (simp add: jobs_of_def demo_turn_def)
  from cpu_lane_requests_answered_once [OF this _ e] e show ?thesis by auto
qed

subsection \<open>Leaving the process\<close>

text \<open>\<open>exit_now\<close> (lib.rs): the log is flushed for at most a second, then the process ends with the code. A
  panic of \<open>real_main\<close> is code 101.\<close>

definition EXIT_LOG_FLUSH_BUDGET_MS :: nat where
  "EXIT_LOG_FLUSH_BUDGET_MS = 1000"

definition exit_now :: "log_sink option \<Rightarrow> nat \<Rightarrow> (nat \<times> nat) list \<Rightarrow> int \<Rightarrow> int option" where
  "exit_now sink t0 obs code = map_option (\<lambda>_. code) (flush sink t0 EXIT_LOG_FLUSH_BUDGET_MS obs)"

definition run_process :: "log_sink option \<Rightarrow> nat \<Rightarrow> (nat \<times> nat) list \<Rightarrow> int option \<Rightarrow> int option" where
  "run_process sink t0 obs main = exit_now sink t0 obs (case main of Some code \<Rightarrow> code | None \<Rightarrow> 101)"

text \<open>Whatever the log reader does the process ends, with the code of its main function.\<close>

lemma process_ends:
  assumes "i < length obs" "t0 + 1000 \<le> snd (obs ! i)"
  shows "run_process sink t0 obs main = Some (case main of Some code \<Rightarrow> code | None \<Rightarrow> 101)"
  using flush_loop_returns [OF assms] by (fastforce simp: run_process_def exit_now_def flush_def EXIT_LOG_FLUSH_BUDGET_MS_def split: option.splits)

subsection \<open>Executions and recovery\<close>

lemma readable_timeout:
  assumes "c \<in> set (candidates cx held queue vt ps)" "cd_env c = Some env"
  shows "unat (e_timeout_ms env) \<le> 86400000"
    and "max (unat vt) (min (unat (e_timeout_ms env) + 2000 + unat (reclaim_margin_ms cx)) (2 ^ 64 - 1)) \<le> unat (cd_idle c)"
proof -
  obtain raw where r: "parsed_of cx raw = Some env"
    "required_idle_ms vt (reclaim_margin_ms cx) (Some env) \<le> cd_idle c"
    using candidates_sound [OF assms(1)] assms(2) by metis
  then obtain str where "envelope_from_str (cx_json cx) str = Some env" by (auto simp: parsed_of_def split: option.splits)
  from env_wf_read [OF this] show t: "unat (e_timeout_ms env) \<le> 86400000"
    by (simp add: env_wf_def MAX_TIMEOUT_MS_def word_le_nat_alt)
  show "max (unat vt) (min (unat (e_timeout_ms env) + 2000 + unat (reclaim_margin_ms cx)) (2 ^ 64 - 1)) \<le> unat (cd_idle c)"
    using r(2) t unfolding word_le_nat_alt unat_required_idle by auto
qed

lemma reclaim_margin:
  assumes "unat (a_redis_timeout (cx_args cx)) \<le> 2 ^ 53"
  shows "unat (reclaim_margin_ms cx) = max (unat (a_redis_timeout (cx_args cx)) * 1000) 2000"
  using assms by (simp add: reclaim_margin_ms_def unat_max unat_sat_mul BACKSTOP_GRACE_MS_def)


text \<open>One page of a pending list: the entry of the example envelope, idle for 310 seconds.\<close>

definition demo_page :: "(pending_entry \<times> string option option) list" where
  "demo_page = zip [(''1-0'', ''w2'', 310000, 1)] [Some (Some demo_raw)]"

lemma demo_page_candidate:
  "candidates demo_ctx [''q'' \<mapsto> {}] ''q'' 60000 demo_page
     = [\<lparr>cd_id = ''1-0'', cd_idle = 310000, cd_deliveries = 1, cd_env = Some demo_env\<rparr>]"
proof -
  have "envelope_from_str (cx_json demo_ctx) demo_raw = Some demo_env"
    using demo_env_reads by (simp add: demo_ctx_def demo_raw_def)
  moreover have "\<not> holds_entry ''q'' ''1-0'' [''q'' \<mapsto> {}]" by (simp add: holds_entry_def split: option.splits)
  moreover have "\<not> (310000 :: u64) < required_idle_ms 60000 (reclaim_margin_ms demo_ctx) (Some demo_env)"
    by (simp add: word_less_nat_alt unat_required_idle reclaim_margin demo_ctx_def demo_env_def args_default_def)
  ultimately show ?thesis by (simp add: demo_page_def Let_def)
qed


text \<open>
  The synchronous lane is not covered by that bound. It waits up to the time limit for a pool thread and
  then up to the time limit again for the answer, so an entry whose job queued for long is reclaimed by
  another worker while it is still running here: with the default limit of 300 seconds and a Redis
  timeout of 5 seconds it may run until 600 seconds after its delivery, and is taken over after 307.
\<close>

lemma sync_entry_reclaimed_while_running:
  "\<exists>c. c \<in> set (candidates demo_ctx [''q'' \<mapsto> {}] ''q'' 60000 demo_page) \<and> cd_env c = Some demo_env
     \<and> unat (cd_idle c) < sum_list (sync_waits_ms demo_env)"
  by (simp add: demo_page_candidate sync_waits_ms_def demo_env_def)

end
